(* ===== verification/Prelude.thy ===== *)
theory Prelude
  imports Main "HOL-Library.Word"
begin

text \<open>
  The vocabulary every component shares: the machine types of the Rust sources, the
  \<open>Result\<close> type with its combinators, the byte order of the hosts the program is
  released for, and the generic list and word lemmas the component proofs rest on.
\<close>

unbundle bit_operations_syntax

section \<open>Machine types\<close>

text \<open>
  A fixed-width integer of the sources is a word of that width. Rust's signed types use the
  same representation: \<open>sint\<close> reads the value, \<open>signed\<close> conversions extend the sign.
\<close>

type_synonym u8 = "8 word"
type_synonym u16 = "16 word"
type_synonym u32 = "32 word"
type_synonym u64 = "64 word"
type_synonym i16 = "16 word"
type_synonym i32 = "32 word"
type_synonym i64 = "64 word"
type_synonym bytes = "u8 list"

named_theorems result_simps \<open>rewriting a chain of fallible calls\<close>
named_theorems le_simps \<open>little-endian conversions cancel\<close>

section \<open>Results\<close>

text \<open>
  \<open>Result<T, E>\<close> is the sum \<open>'e + 'a\<close> with the error on the left. \<open>bindR\<close> is the
  \<open>?\<close> operator, \<open>map_err\<close> the conversion of the error on the way.
\<close>

type_synonym ('a, 'e) result = "'e + 'a"

fun bindR :: "('a, 'e) result \<Rightarrow> ('a \<Rightarrow> ('b, 'e) result) \<Rightarrow> ('b, 'e) result" where
  "bindR (Inl e) f = Inl e"
| "bindR (Inr x) f = f x"

fun map_err :: "('e \<Rightarrow> 'f) \<Rightarrow> ('a, 'e) result \<Rightarrow> ('a, 'f) result" where
  "map_err g (Inl e) = Inl (g e)"
| "map_err g (Inr x) = Inr x"

fun map_ok :: "('a \<Rightarrow> 'b) \<Rightarrow> ('a, 'e) result \<Rightarrow> ('b, 'e) result" where
  "map_ok g (Inl e) = Inl e"
| "map_ok g (Inr x) = Inr (g x)"

definition ok_or :: "'e \<Rightarrow> 'a option \<Rightarrow> ('a, 'e) result" where
  "ok_or e m = (case m of None \<Rightarrow> Inl e | Some x \<Rightarrow> Inr x)"

fun is_ok :: "('a, 'e) result \<Rightarrow> bool" where
  "is_ok (Inl e) = False"
| "is_ok (Inr x) = True"

lemma bindR_cong [fundef_cong]:
  "m = m' \<Longrightarrow> (\<And>x. m' = Inr x \<Longrightarrow> f x = g x) \<Longrightarrow> bindR m f = bindR m' g"
  by (cases m') auto

lemma bindR_Inr_iff [result_simps]:
  "bindR m f = Inr y \<longleftrightarrow> (\<exists>x. m = Inr x \<and> f x = Inr y)"
  by (cases m) auto

lemma bindR_Inl_iff [result_simps]:
  "bindR m f = Inl e \<longleftrightarrow> m = Inl e \<or> (\<exists>x. m = Inr x \<and> f x = Inl e)"
  by (cases m) auto

lemma map_err_Inr_iff [result_simps]: "map_err g m = Inr y \<longleftrightarrow> m = Inr y"
  by (cases m) auto

lemma map_err_Inl_iff [result_simps]:
  "map_err g m = Inl e \<longleftrightarrow> (\<exists>d. m = Inl d \<and> e = g d)"
  by (cases m) auto

lemma map_ok_Inr_iff [result_simps]:
  "map_ok g m = Inr y \<longleftrightarrow> (\<exists>x. m = Inr x \<and> y = g x)"
  by (cases m) auto

lemma map_ok_Inl_iff [result_simps]: "map_ok g m = Inl e \<longleftrightarrow> m = Inl e"
  by (cases m) auto

lemma ok_or_simps [simp]: "ok_or e None = Inl e" "ok_or e (Some x) = Inr x"
  by (simp_all add: ok_or_def)

lemma ok_or_Inr_iff [result_simps]: "ok_or e m = Inr x \<longleftrightarrow> m = Some x"
  by (cases m) auto

lemma ok_or_Inl_iff [result_simps]: "ok_or e m = Inl d \<longleftrightarrow> m = None \<and> d = e"
  by (cases m) auto

lemma is_ok_iff: "is_ok m \<longleftrightarrow> (\<exists>x. m = Inr x)"
  by (cases m) auto

text \<open>A loop that collects a \<open>Result\<close> per element and stops at the first error.\<close>

fun traverse :: "('a \<Rightarrow> ('b, 'e) result) \<Rightarrow> 'a list \<Rightarrow> ('b list, 'e) result" where
  "traverse f [] = Inr []"
| "traverse f (x # xs) = bindR (f x) (\<lambda>y. map_ok ((#) y) (traverse f xs))"

lemma traverse_length: "traverse f xs = Inr ys \<Longrightarrow> length ys = length xs"
  by (induction xs arbitrary: ys) (auto simp: result_simps)

lemma traverse_Inr_nth:
  "traverse f xs = Inr ys \<Longrightarrow> i < length xs \<Longrightarrow> f (xs ! i) = Inr (ys ! i)"
  by (induction xs arbitrary: ys i) (auto simp: result_simps nth_Cons split: nat.splits)

lemma traverse_cong: "(\<And>x. x \<in> set xs \<Longrightarrow> f x = g x) \<Longrightarrow> traverse f xs = traverse g xs"
  by (induction xs) auto

lemma traverse_append:
  "traverse f (xs @ ys) =
     bindR (traverse f xs) (\<lambda>us. map_ok ((@) us) (traverse f ys))"
proof (induction xs)
  case Nil
  show ?case by (cases "traverse f ys") simp_all
next
  case (Cons x xs)
  show ?case
    by (cases "f x"; cases "traverse f xs"; cases "traverse f ys") (simp_all add: Cons.IH)
qed

section \<open>Stateful calls\<close>

text \<open>
  A call that may fail and changes a state returns its \<open>Result\<close> with the new state, also when
  it fails: what was done before an early return stays done.
\<close>

type_synonym ('s, 'a, 'e) call = "'s \<Rightarrow> ('a, 'e) result \<times> 's"

definition retS :: "'a \<Rightarrow> ('s, 'a, 'e) call" where
  "retS x s = (Inr x, s)"

definition liftS :: "('a, 'e) result \<Rightarrow> ('s, 'a, 'e) call" where
  "liftS r s = (r, s)"

definition bindS :: "('s, 'a, 'e) call \<Rightarrow> ('a \<Rightarrow> ('s, 'b, 'e) call) \<Rightarrow> ('s, 'b, 'e) call" where
  "bindS m f s = (case m s of (Inl e, s') \<Rightarrow> (Inl e, s') | (Inr x, s') \<Rightarrow> f x s')"

definition map_errS :: "('e \<Rightarrow> 'f) \<Rightarrow> ('s, 'a, 'e) call \<Rightarrow> ('s, 'a, 'f) call" where
  "map_errS g m s = (case m s of (r, s') \<Rightarrow> (map_err g r, s'))"

fun traverseS :: "('a \<Rightarrow> ('s, 'b, 'e) call) \<Rightarrow> 'a list \<Rightarrow> ('s, 'b list, 'e) call" where
  "traverseS f [] = retS []"
| "traverseS f (x # xs) =
     bindS (f x) (\<lambda>y. bindS (traverseS f xs) (\<lambda>ys. retS (y # ys)))"

fun forS :: "('a \<Rightarrow> ('s, unit, 'e) call) \<Rightarrow> 'a list \<Rightarrow> ('s, unit, 'e) call" where
  "forS f [] = retS ()"
| "forS f (x # xs) = bindS (f x) (\<lambda>_. forS f xs)"

lemma call_simps [simp]:
  "retS x s = (Inr x, s)"
  "liftS r s = (r, s)"
  by (simp_all add: retS_def liftS_def)

lemma bindS_Inr [result_simps]:
  "bindS m f s = (Inr y, t) \<longleftrightarrow> (\<exists>x s'. m s = (Inr x, s') \<and> f x s' = (Inr y, t))"
  by (auto simp: bindS_def split: prod.splits sum.splits)

lemma bindS_Inl [result_simps]:
  "bindS m f s = (Inl e, t) \<longleftrightarrow>
     m s = (Inl e, t) \<or> (\<exists>x s'. m s = (Inr x, s') \<and> f x s' = (Inl e, t))"
  by (auto simp: bindS_def split: prod.splits sum.splits)

lemma map_errS_Inr [result_simps]: "map_errS g m s = (Inr y, t) \<longleftrightarrow> m s = (Inr y, t)"
  by (auto simp: map_errS_def result_simps split: prod.splits)

lemma map_errS_Inl [result_simps]:
  "map_errS g m s = (Inl e, t) \<longleftrightarrow> (\<exists>d. m s = (Inl d, t) \<and> e = g d)"
  by (auto simp: map_errS_def result_simps split: prod.splits)

section \<open>Little-endian bytes\<close>

text \<open>
  \<open>to_le_bytes\<close>/\<open>from_le_bytes\<close>, and \<open>to_ne_bytes\<close>/\<open>from_ne_bytes\<close> on the two
  release targets (amd64 and arm64 Linux), which are both little-endian.
\<close>

definition le16 :: "u16 \<Rightarrow> bytes" where
  "le16 w = [ucast w, ucast (drop_bit 8 w)]"

definition le32 :: "u32 \<Rightarrow> bytes" where
  "le32 w = [ucast w, ucast (drop_bit 8 w), ucast (drop_bit 16 w), ucast (drop_bit 24 w)]"

definition of_le16 :: "u8 \<Rightarrow> u8 \<Rightarrow> u16" where
  "of_le16 b0 b1 = ucast b0 OR push_bit 8 (ucast b1)"

definition of_le32 :: "u8 \<Rightarrow> u8 \<Rightarrow> u8 \<Rightarrow> u8 \<Rightarrow> u32" where
  "of_le32 b0 b1 b2 b3 =
     ucast b0 OR push_bit 8 (ucast b1) OR push_bit 16 (ucast b2) OR push_bit 24 (ucast b3)"

lemma length_le16 [simp]: "length (le16 w) = 2"
  by (simp add: le16_def)

lemma length_le32 [simp]: "length (le32 w) = 4"
  by (simp add: le32_def)

lemma of_le16_le16 [le_simps]: "of_le16 (ucast w) (ucast (drop_bit 8 w)) = w"
  unfolding of_le16_def by (rule bit_word_eqI) (auto simp: bit_simps)

lemma of_le32_le32 [le_simps]:
  "of_le32 (ucast w) (ucast (drop_bit 8 w)) (ucast (drop_bit 16 w)) (ucast (drop_bit 24 w)) = w"
proof (rule bit_word_eqI)
  fix n
  assume "n < LENGTH(32)"
  then consider "n < 8" | "8 \<le> n" "n < 16" | "16 \<le> n" "n < 24" | "24 \<le> n" "n < 32"
    by fastforce
  then show "bit (of_le32 (ucast w) (ucast (drop_bit 8 w)) (ucast (drop_bit 16 w))
      (ucast (drop_bit 24 w))) n = bit w n"
    by cases (auto simp: of_le32_def bit_simps)
qed

lemma le16_of_le16 [le_simps]: "le16 (of_le16 b0 b1) = [b0, b1]"
  unfolding of_le16_def le16_def
  by (auto intro!: bit_word_eqI simp: bit_simps) (use bit_imp_le_length in fastforce)+

lemma le32_of_le32 [le_simps]: "le32 (of_le32 b0 b1 b2 b3) = [b0, b1, b2, b3]"
  unfolding of_le32_def le32_def
  by (auto intro!: bit_word_eqI simp: bit_simps) (use bit_imp_le_length in fastforce)+

section \<open>Words\<close>

lemma ucast_scast_32_64 [simp]: "ucast (scast (w :: 32 word) :: 64 word) = w"
  by (rule bit_word_eqI) (auto simp: bit_simps)

lemma scast_eq_iff_32_64 [simp]:
  "(scast (a :: 32 word) :: 64 word) = scast (b :: 32 word) \<longleftrightarrow> a = b"
  by (metis ucast_scast_32_64)

section \<open>Numbers as text\<close>

text \<open>The \<open>Display\<close> of an unsigned and of a signed integer, and Rust's \<open>{:x}\<close>.\<close>

definition digit_char :: "nat \<Rightarrow> char" where
  "digit_char d = (char_of (if d < 10 then 48 + d else 87 + d) :: char)"

fun show_base :: "nat \<Rightarrow> nat \<Rightarrow> string" where
  "show_base b n =
     (if b < 2 \<or> n < b then [digit_char n] else show_base b (n div b) @ [digit_char (n mod b)])"

declare show_base.simps [simp del]

definition show_nat :: "nat \<Rightarrow> string" where
  "show_nat n = show_base 10 n"

definition show_hex :: "nat \<Rightarrow> string" where
  "show_hex n = show_base 16 n"

definition show_int :: "int \<Rightarrow> string" where
  "show_int i = (if i < 0 then CHR ''-'' # show_nat (nat (- i)) else show_nat (nat i))"

text \<open>Reading digits: Rust's \<open>FromStr\<close> of the integer types, digit by digit.\<close>

definition is_digit :: "char \<Rightarrow> bool" where
  "is_digit c \<longleftrightarrow> 48 \<le> (of_char c :: nat) \<and> (of_char c :: nat) \<le> 57"

definition digit_value :: "char \<Rightarrow> nat" where
  "digit_value c = of_char c - 48"

datatype parse_int_error = EmptyInt | InvalidDigit | PosOverflow | NegOverflow

fun parse_digits :: "nat \<Rightarrow> parse_int_error \<Rightarrow> nat \<Rightarrow> string \<Rightarrow> (nat, parse_int_error) result" where
  "parse_digits bound err acc [] = Inr acc"
| "parse_digits bound err acc (c # cs) =
     (if \<not> is_digit c then Inl InvalidDigit
      else let v = acc * 10 + digit_value c in
        if v > bound then Inl err else parse_digits bound err v cs)"

definition I64_MAX :: int where "I64_MAX = 9223372036854775807"
definition I64_MIN :: int where "I64_MIN = -9223372036854775808"

definition parse_i64 :: "string \<Rightarrow> (int, parse_int_error) result" where
  "parse_i64 s =
     (case s of
        [] \<Rightarrow> Inl EmptyInt
      | c # cs \<Rightarrow>
          if cs = [] \<and> (c = CHR ''+'' \<or> c = CHR ''-'') then Inl InvalidDigit
          else if c = CHR ''-'' then
            map_ok (\<lambda>n. - int n) (parse_digits (nat (- I64_MIN)) NegOverflow 0 cs)
          else map_ok int (parse_digits (nat I64_MAX) PosOverflow 0
                 (if c = CHR ''+'' then cs else s)))"

lemma of_char_digit: "d < 10 \<Longrightarrow> (of_char (digit_char d) :: nat) = 48 + d"
  by (simp add: digit_char_def)

lemma digit_char_props [simp]:
  "d < 10 \<Longrightarrow> is_digit (digit_char d)" "d < 10 \<Longrightarrow> digit_value (digit_char d) = d"
  by (simp_all add: is_digit_def digit_value_def of_char_digit)

lemma not_digit: "\<not> is_digit CHR ''+''" "\<not> is_digit CHR ''-''" "\<not> is_digit CHR '':''"
    "\<not> is_digit CHR '' ''" "\<not> is_digit CHR ''*''" "\<not> is_digit CHR ''.''" "\<not> is_digit CHR ''/''"
  by (simp_all add: is_digit_def)

lemma show_nat_digits: "c \<in> set (show_nat n) \<Longrightarrow> is_digit c"
  unfolding show_nat_def
proof (induction n rule: less_induct)
  case (less n)
  show ?case
  proof (cases "n < 10")
    case True
    with less.prems show ?thesis by (simp add: show_base.simps [of 10 n])
  next
    case False
    with less.prems less.IH [of "n div 10"] show ?thesis by (auto simp: show_base.simps [of 10 n])
  qed
qed

lemma show_nat_nonempty [simp]: "show_nat n \<noteq> []"
  unfolding show_nat_def by (simp add: show_base.simps [of 10 n])

lemma parse_digits_append:
  "parse_digits bound err acc (xs @ ys) =
     bindR (parse_digits bound err acc xs) (\<lambda>v. parse_digits bound err v ys)"
  by (induction xs arbitrary: acc) (auto simp: Let_def)

lemma parse_show_nat: "n \<le> bound \<Longrightarrow> parse_digits bound err 0 (show_nat n) = Inr n"
  unfolding show_nat_def
proof (induction n rule: less_induct)
  case (less n)
  show ?case
  proof (cases "n < 10")
    case True
    with less.prems show ?thesis by (simp add: show_base.simps [of 10 n])
  next
    case False
    then have "parse_digits bound err 0 (show_base 10 (n div 10)) = Inr (n div 10)"
      using less.prems by (intro less.IH) auto
    then show ?thesis
      using False less.prems by (simp add: show_base.simps [of 10 n] parse_digits_append)
  qed
qed

lemma show_nat_inj:
  assumes "show_nat m = show_nat n"
  shows "m = n"
proof -
  have "parse_digits (max m n) EmptyInt 0 (show_nat m) = Inr m"
    "parse_digits (max m n) EmptyInt 0 (show_nat n) = Inr n"
    by (auto intro: parse_show_nat)
  then show ?thesis unfolding assms by simp
qed

lemma parse_show_int:
  assumes "I64_MIN \<le> i" and "i \<le> I64_MAX"
  shows "parse_i64 (show_int i) = Inr i"
proof (cases "i < 0")
  case True
  then have "parse_digits (nat (- I64_MIN)) NegOverflow 0 (show_nat (nat (- i))) = Inr (nat (- i))"
    using assms(1) by (intro parse_show_nat nat_mono) simp
  with True show ?thesis by (simp add: show_int_def parse_i64_def)
next
  case False
  then have "parse_digits (nat I64_MAX) PosOverflow 0 (show_nat (nat i)) = Inr (nat i)"
    using assms(2) by (intro parse_show_nat nat_mono)
  moreover obtain c cs where c: "show_nat (nat i) = c # cs"
    by (cases "show_nat (nat i)") auto
  moreover have "is_digit c" using show_nat_digits [of c "nat i"] c by simp
  then have "c \<noteq> CHR ''+''" "c \<noteq> CHR ''-''" using not_digit by auto
  ultimately show ?thesis using False by (simp add: show_int_def parse_i64_def)
qed

section \<open>Lists\<close>

text \<open>Rust's checked slice access \<open>xs.get(i)\<close>.\<close>

definition get_opt :: "'a list \<Rightarrow> nat \<Rightarrow> 'a option" where
  "get_opt xs i = (if i < length xs then Some (xs ! i) else None)"

lemma get_opt_Some_iff: "get_opt xs i = Some x \<longleftrightarrow> i < length xs \<and> xs ! i = x"
  by (auto simp: get_opt_def)

lemma get_opt_append:
  "get_opt (xs @ ys) i = (if i < length xs then get_opt xs i else get_opt ys (i - length xs))"
  by (auto simp: get_opt_def nth_append)

text \<open>Rust's \<open>Iterator::position\<close>.\<close>

fun find_index :: "('a \<Rightarrow> bool) \<Rightarrow> 'a list \<Rightarrow> nat option" where
  "find_index P [] = None"
| "find_index P (x # xs) = (if P x then Some 0 else map_option Suc (find_index P xs))"

lemma find_index_Some: "find_index P xs = Some i \<Longrightarrow> i < length xs \<and> P (xs ! i)"
  by (induction xs arbitrary: i) (auto split: if_splits)

lemma find_index_None: "find_index P xs = None \<longleftrightarrow> (\<forall>x \<in> set xs. \<not> P x)"
  by (induction xs) auto

lemma find_index_first: "find_index P xs = Some i \<Longrightarrow> j < i \<Longrightarrow> \<not> P (xs ! j)"
proof (induction xs arbitrary: i j)
  case (Cons x xs)
  then show ?case by (cases j) (auto split: if_splits)
qed simp

lemma find_Some_in: "find P xs = Some x \<Longrightarrow> x \<in> set xs \<and> P x"
  by (induction xs) (auto split: if_splits)

lemma find_append: "find P (xs @ ys) = (case find P xs of None \<Rightarrow> find P ys | Some x \<Rightarrow> Some x)"
  by (induction xs) auto

end
