(* ===== verification/Builtin.thy ===== *)
theory Builtin
  imports Prelude
begin

text \<open>
  The names of the kernel helpers (\<^verbatim>\<open>src/cgroup/asm/builtin.rs\<close>): the Linux helpers by
  their identifier, the Windows ones by their identifier with the Windows platform tag, and
  \<open>BuiltinFunc(<id>)\<close> for every other. They only occur in messages.
\<close>

definition WINDOWS_FIRST :: u32 where
  "WINDOWS_FIRST = 0x10000001"

definition LINUX :: "string list" where
  "LINUX =
     [''FnUnspec'', ''FnMapLookupElem'', ''FnMapUpdateElem'', ''FnMapDeleteElem'',
      ''FnProbeRead'', ''FnKtimeGetNs'', ''FnTracePrintk'', ''FnGetPrandomU32'',
      ''FnGetSmpProcessorId'', ''FnSkbStoreBytes'', ''FnL3CsumReplace'', ''FnL4CsumReplace'',
      ''FnTailCall'', ''FnCloneRedirect'', ''FnGetCurrentPidTgid'', ''FnGetCurrentUidGid'',
      ''FnGetCurrentComm'', ''FnGetCgroupClassid'', ''FnSkbVlanPush'', ''FnSkbVlanPop'',
      ''FnSkbGetTunnelKey'', ''FnSkbSetTunnelKey'', ''FnPerfEventRead'', ''FnRedirect'',
      ''FnGetRouteRealm'', ''FnPerfEventOutput'', ''FnSkbLoadBytes'', ''FnGetStackid'',
      ''FnCsumDiff'', ''FnSkbGetTunnelOpt'', ''FnSkbSetTunnelOpt'', ''FnSkbChangeProto'',
      ''FnSkbChangeType'', ''FnSkbUnderCgroup'', ''FnGetHashRecalc'', ''FnGetCurrentTask'',
      ''FnProbeWriteUser'', ''FnCurrentTaskUnderCgroup'', ''FnSkbChangeTail'',
      ''FnSkbPullData'', ''FnCsumUpdate'', ''FnSetHashInvalid'', ''FnGetNumaNodeId'',
      ''FnSkbChangeHead'', ''FnXdpAdjustHead'', ''FnProbeReadStr'', ''FnGetSocketCookie'',
      ''FnGetSocketUid'', ''FnSetHash'', ''FnSetsockopt'', ''FnSkbAdjustRoom'',
      ''FnRedirectMap'', ''FnSkRedirectMap'', ''FnSockMapUpdate'', ''FnXdpAdjustMeta'',
      ''FnPerfEventReadValue'', ''FnPerfProgReadValue'', ''FnGetsockopt'',
      ''FnOverrideReturn'', ''FnSockOpsCbFlagsSet'', ''FnMsgRedirectMap'', ''FnMsgApplyBytes'',
      ''FnMsgCorkBytes'', ''FnMsgPullData'', ''FnBind'', ''FnXdpAdjustTail'',
      ''FnSkbGetXfrmState'', ''FnGetStack'', ''FnSkbLoadBytesRelative'', ''FnFibLookup'',
      ''FnSockHashUpdate'', ''FnMsgRedirectHash'', ''FnSkRedirectHash'', ''FnLwtPushEncap'',
      ''FnLwtSeg6StoreBytes'', ''FnLwtSeg6AdjustSrh'', ''FnLwtSeg6Action'', ''FnRcRepeat'',
      ''FnRcKeydown'', ''FnSkbCgroupId'', ''FnGetCurrentCgroupId'', ''FnGetLocalStorage'',
      ''FnSkSelectReuseport'', ''FnSkbAncestorCgroupId'', ''FnSkLookupTcp'', ''FnSkLookupUdp'',
      ''FnSkRelease'', ''FnMapPushElem'', ''FnMapPopElem'', ''FnMapPeekElem'',
      ''FnMsgPushData'', ''FnMsgPopData'', ''FnRcPointerRel'', ''FnSpinLock'',
      ''FnSpinUnlock'', ''FnSkFullsock'', ''FnTcpSock'', ''FnSkbEcnSetCe'',
      ''FnGetListenerSock'', ''FnSkcLookupTcp'', ''FnTcpCheckSyncookie'', ''FnSysctlGetName'',
      ''FnSysctlGetCurrentValue'', ''FnSysctlGetNewValue'', ''FnSysctlSetNewValue'',
      ''FnStrtol'', ''FnStrtoul'', ''FnSkStorageGet'', ''FnSkStorageDelete'', ''FnSendSignal'',
      ''FnTcpGenSyncookie'', ''FnSkbOutput'', ''FnProbeReadUser'', ''FnProbeReadKernel'',
      ''FnProbeReadUserStr'', ''FnProbeReadKernelStr'', ''FnTcpSendAck'',
      ''FnSendSignalThread'', ''FnJiffies64'', ''FnReadBranchRecords'',
      ''FnGetNsCurrentPidTgid'', ''FnXdpOutput'', ''FnGetNetnsCookie'',
      ''FnGetCurrentAncestorCgroupId'', ''FnSkAssign'', ''FnKtimeGetBootNs'', ''FnSeqPrintf'',
      ''FnSeqWrite'', ''FnSkCgroupId'', ''FnSkAncestorCgroupId'', ''FnRingbufOutput'',
      ''FnRingbufReserve'', ''FnRingbufSubmit'', ''FnRingbufDiscard'', ''FnRingbufQuery'',
      ''FnCsumLevel'', ''FnSkcToTcp6Sock'', ''FnSkcToTcpSock'', ''FnSkcToTcpTimewaitSock'',
      ''FnSkcToTcpRequestSock'', ''FnSkcToUdp6Sock'', ''FnGetTaskStack'', ''FnLoadHdrOpt'',
      ''FnStoreHdrOpt'', ''FnReserveHdrOpt'', ''FnInodeStorageGet'', ''FnInodeStorageDelete'',
      ''FnDPath'', ''FnCopyFromUser'', ''FnSnprintfBtf'', ''FnSeqPrintfBtf'',
      ''FnSkbCgroupClassid'', ''FnRedirectNeigh'', ''FnPerCpuPtr'', ''FnThisCpuPtr'',
      ''FnRedirectPeer'', ''FnTaskStorageGet'', ''FnTaskStorageDelete'',
      ''FnGetCurrentTaskBtf'', ''FnBprmOptsSet'', ''FnKtimeGetCoarseNs'', ''FnImaInodeHash'',
      ''FnSockFromFile'', ''FnCheckMtu'', ''FnForEachMapElem'', ''FnSnprintf'', ''FnSysBpf'',
      ''FnBtfFindByNameKind'', ''FnSysClose'', ''FnTimerInit'', ''FnTimerSetCallback'',
      ''FnTimerStart'', ''FnTimerCancel'', ''FnGetFuncIp'', ''FnGetAttachCookie'',
      ''FnTaskPtRegs'', ''FnGetBranchSnapshot'', ''FnTraceVprintk'', ''FnSkcToUnixSock'',
      ''FnKallsymsLookupName'', ''FnFindVma'', ''FnLoop'', ''FnStrncmp'', ''FnGetFuncArg'',
      ''FnGetFuncRet'', ''FnGetFuncArgCnt'', ''FnGetRetval'', ''FnSetRetval'',
      ''FnXdpGetBuffLen'', ''FnXdpLoadBytes'', ''FnXdpStoreBytes'', ''FnCopyFromUserTask'',
      ''FnSkbSetTstamp'', ''FnImaFileHash'', ''FnKptrXchg'', ''FnMapLookupPercpuElem'',
      ''FnSkcToMptcpSock'', ''FnDynptrFromMem'', ''FnRingbufReserveDynptr'',
      ''FnRingbufSubmitDynptr'', ''FnRingbufDiscardDynptr'', ''FnDynptrRead'',
      ''FnDynptrWrite'', ''FnDynptrData'', ''FnTcpRawGenSyncookieIpv4'',
      ''FnTcpRawGenSyncookieIpv6'', ''FnTcpRawCheckSyncookieIpv4'',
      ''FnTcpRawCheckSyncookieIpv6'', ''FnKtimeGetTaiNs'', ''FnUserRingbufDrain'',
      ''FnCgrpStorageGet'', ''FnCgrpStorageDelete'']"

definition WINDOWS :: "string list" where
  "WINDOWS =
     [''WindowsFnMapLookupElem'', ''WindowsFnMapUpdateElem'', ''WindowsFnMapDeleteElem'',
      ''WindowsFnMapLookupAndDeleteElem'', ''WindowsFnTailCall'', ''WindowsFnGetPrandomU32'',
      ''WindowsFnKtimeGetBootNs'', ''WindowsFnGetSmpProcessorId'', ''WindowsFnKtimeGetNs'',
      ''WindowsFnCsumDiff'', ''WindowsFnRingbufOutput'', ''WindowsFnTracePrintk2'',
      ''WindowsFnTracePrintk3'', ''WindowsFnTracePrintk4'', ''WindowsFnTracePrintk5'',
      ''WindowsFnMapPushElem'', ''WindowsFnMapPopElem'', ''WindowsFnMapPeekElem'',
      ''WindowsFnGetCurrentPidTgid'', ''WindowsFnGetCurrentLogonId'',
      ''WindowsFnIsCurrentAdmin'', ''WindowsFnMemcpyS'', ''WindowsFnMemcmpS'',
      ''WindowsFnMemset'', ''WindowsFnMemmoveS'', ''WindowsFnGetSocketCookie'',
      ''WindowsFnStrncpyS'', ''WindowsFnStrncatS'', ''WindowsFnStrnlenS'',
      ''WindowsFnKtimeGetBootMs'', ''WindowsFnKtimeGetMs'', ''WindowsFnPerfEventOutput'',
      ''WindowsFnGetCurrentProcessStartKey'', ''WindowsFnGetCurrentThreadCreateTime'']"

definition builtin_name :: "u32 \<Rightarrow> string" where
  "builtin_name fid =
     (case get_opt LINUX (unat fid) of
        Some n \<Rightarrow> n
      | None \<Rightarrow>
          (case (if fid < WINDOWS_FIRST then None else get_opt WINDOWS (unat (fid - WINDOWS_FIRST))) of
             Some n \<Rightarrow> n
           | None \<Rightarrow> ''BuiltinFunc('' @ show_nat (unat fid) @ '')''))"

end
