(* ===== verification/Asm.thy ===== *)
theory Asm
  imports Prelude Builtin
begin

text \<open>
  The BPF instruction model (\<^verbatim>\<open>src/cgroup/asm.rs\<close>): opcodes with the extra bits a decoded
  instruction carries, the instruction record, its wire encoding and decoding, and the text an
  instruction prints as. The lemmas say that decoding inverts encoding on every instruction a
  decode can produce, and that re-encoding a decoded program is a normal form.
\<close>

section \<open>Opcodes\<close>

definition INSTRUCTION_SIZE :: nat where "INSTRUCTION_SIZE = 8"

type_synonym register = u8

definition R0 :: register where "R0 = 0"
definition R1 :: register where "R1 = 1"
definition R2 :: register where "R2 = 2"
definition R3 :: register where "R3 = 3"
definition R4 :: register where "R4 = 4"
definition R5 :: register where "R5 = 5"
definition R6 :: register where "R6 = 6"
definition RFP :: register where "RFP = 10"

definition PSEUDO_MAP_FD :: register where "PSEUDO_MAP_FD = 1"
definition PSEUDO_MAP_VALUE :: register where "PSEUDO_MAP_VALUE = 2"
definition PSEUDO_CALL :: register where "PSEUDO_CALL = 1"
definition PSEUDO_KFUNC_CALL :: register where "PSEUDO_KFUNC_CALL = 2"
definition PSEUDO_MAY_GOTO :: register where "PSEUDO_MAY_GOTO = 0"

definition CLASS_MASK :: u32 where "CLASS_MASK = 0x07"

definition MODE_MASK :: u32 where "MODE_MASK = 0xe0"
definition MODE_IMM :: u32 where "MODE_IMM = 0x00"
definition MODE_ABS :: u32 where "MODE_ABS = 0x20"
definition MODE_IND :: u32 where "MODE_IND = 0x40"
definition MODE_MEM :: u32 where "MODE_MEM = 0x60"
definition MODE_MEMSX :: u32 where "MODE_MEMSX = 0x80"
definition MODE_ATOMIC :: u32 where "MODE_ATOMIC = 0xc0"
definition INVALID_MODE :: u32 where "INVALID_MODE = 0xff"

definition SIZE_MASK :: u32 where "SIZE_MASK = 0x18"
definition WORD :: u32 where "WORD = 0x00"
definition HALF :: u32 where "HALF = 0x08"
definition BYTE :: u32 where "BYTE = 0x10"
definition DWORD :: u32 where "DWORD = 0x18"
definition INVALID_SIZE :: u32 where "INVALID_SIZE = 0xff"

definition SOURCE_MASK :: u32 where "SOURCE_MASK = 0x08"
definition IMM_SOURCE :: u32 where "IMM_SOURCE = 0x00"
definition REG_SOURCE :: u32 where "REG_SOURCE = 0x08"
definition INVALID_SOURCE :: u32 where "INVALID_SOURCE = 0xffff"

definition ALU_MASK :: u32 where "ALU_MASK = 0x3ff0"
definition ADD :: u32 where "ADD = 0x00"
definition SUB :: u32 where "SUB = 0x10"
definition MUL :: u32 where "MUL = 0x20"
definition DIV :: u32 where "DIV = 0x30"
definition SDIV :: u32 where "SDIV = 0x130"
definition OR_OP :: u32 where "OR_OP = 0x40"
definition AND_OP :: u32 where "AND_OP = 0x50"
definition LSH :: u32 where "LSH = 0x60"
definition RSH :: u32 where "RSH = 0x70"
definition NEG :: u32 where "NEG = 0x80"
definition MOD :: u32 where "MOD = 0x90"
definition SMOD :: u32 where "SMOD = 0x190"
definition XOR_OP :: u32 where "XOR_OP = 0xa0"
definition MOV :: u32 where "MOV = 0xb0"
definition MOVSX8 :: u32 where "MOVSX8 = 0x1b0"
definition MOVSX16 :: u32 where "MOVSX16 = 0x2b0"
definition MOVSX32 :: u32 where "MOVSX32 = 0x3b0"
definition ARSH :: u32 where "ARSH = 0xc0"
definition SWAP :: u32 where "SWAP = 0xd0"
definition INVALID_ALU_OP :: u32 where "INVALID_ALU_OP = 0xffff"

definition JUMP_MASK :: u32 where "JUMP_MASK = 0xf0"
definition JA :: u32 where "JA = 0x00"
definition JEQ :: u32 where "JEQ = 0x10"
definition JGT :: u32 where "JGT = 0x20"
definition JGE :: u32 where "JGE = 0x30"
definition JSET :: u32 where "JSET = 0x40"
definition JNE :: u32 where "JNE = 0x50"
definition JSGT :: u32 where "JSGT = 0x60"
definition JSGE :: u32 where "JSGE = 0x70"
definition CALL :: u32 where "CALL = 0x80"
definition EXIT :: u32 where "EXIT = 0x90"
definition JLT :: u32 where "JLT = 0xa0"
definition JLE :: u32 where "JLE = 0xb0"
definition JSLT :: u32 where "JSLT = 0xc0"
definition JSLE :: u32 where "JSLE = 0xd0"
definition JCOND :: u32 where "JCOND = 0xe0"
definition INVALID_JUMP_OP :: u32 where "INVALID_JUMP_OP = 0xff"

definition ATOMIC_MASK :: u32 where "ATOMIC_MASK = 0x1ff00"
definition FETCH :: u32 where "FETCH = 0x100"
definition XCHG :: u32 where "XCHG = 0xe100"
definition CMPXCHG :: u32 where "CMPXCHG = 0xf100"
definition LOAD_ACQUIRE :: u32 where "LOAD_ACQUIRE = 0x10000"
definition STORE_RELEASE :: u32 where "STORE_RELEASE = 0x11000"
definition INVALID_ATOMIC :: u32 where "INVALID_ATOMIC = 0xffffffff"

definition INVALID_OPCODE :: u32 where "INVALID_OPCODE = 0xffff"

definition PLATFORM_SHIFT :: nat where "PLATFORM_SHIFT = 28"
definition PLATFORM_MASK :: u32 where "PLATFORM_MASK = 0x70000000"
definition WINDOWS_TAG :: u32 where "WINDOWS_TAG = 0x10000000"

lemmas reg_defs = R0_def R1_def R2_def R3_def R4_def R5_def R6_def RFP_def
lemmas mode_defs = MODE_MASK_def MODE_IMM_def MODE_ABS_def MODE_IND_def MODE_MEM_def
  MODE_MEMSX_def MODE_ATOMIC_def INVALID_MODE_def
lemmas size_defs = SIZE_MASK_def WORD_def HALF_def BYTE_def DWORD_def INVALID_SIZE_def
lemmas source_defs = SOURCE_MASK_def IMM_SOURCE_def REG_SOURCE_def INVALID_SOURCE_def
lemmas alu_defs = ALU_MASK_def ADD_def SUB_def MUL_def DIV_def SDIV_def OR_OP_def AND_OP_def
  LSH_def RSH_def NEG_def MOD_def SMOD_def XOR_OP_def MOV_def MOVSX8_def MOVSX16_def
  MOVSX32_def ARSH_def SWAP_def INVALID_ALU_OP_def
lemmas jump_defs = JUMP_MASK_def JA_def JEQ_def JGT_def JGE_def JSET_def JNE_def JSGT_def
  JSGE_def CALL_def EXIT_def JLT_def JLE_def JSLT_def JSLE_def JCOND_def INVALID_JUMP_OP_def
lemmas atomic_defs = ATOMIC_MASK_def FETCH_def XCHG_def CMPXCHG_def LOAD_ACQUIRE_def
  STORE_RELEASE_def INVALID_ATOMIC_def
lemmas const_defs = CLASS_MASK_def reg_defs mode_defs size_defs source_defs alu_defs jump_defs
  atomic_defs INVALID_OPCODE_def PLATFORM_SHIFT_def PLATFORM_MASK_def WINDOWS_TAG_def

datatype insn_class = Ld | LdX | St | StX | Alu | Jump | Jump32 | Alu64

fun class_name :: "insn_class \<Rightarrow> string" where
  "class_name Ld = ''Ld''"
| "class_name LdX = ''LdX''"
| "class_name St = ''St''"
| "class_name StX = ''StX''"
| "class_name Alu = ''ALU''"
| "class_name Jump = ''Jump''"
| "class_name Jump32 = ''Jump32''"
| "class_name Alu64 = ''ALU64''"

definition is_load_or_store :: "insn_class \<Rightarrow> bool" where
  "is_load_or_store c \<longleftrightarrow> c = Ld \<or> c = LdX \<or> c = St \<or> c = StX"

definition is_alu :: "insn_class \<Rightarrow> bool" where
  "is_alu c \<longleftrightarrow> c = Alu \<or> c = Alu64"

definition is_jump :: "insn_class \<Rightarrow> bool" where
  "is_jump c \<longleftrightarrow> c = Jump \<or> c = Jump32"

lemma class_kinds [simp]:
  "is_load_or_store Ld" "is_load_or_store LdX" "is_load_or_store St" "is_load_or_store StX"
  "\<not> is_load_or_store Alu" "\<not> is_load_or_store Jump" "\<not> is_load_or_store Jump32"
  "\<not> is_load_or_store Alu64"
  "is_alu Alu" "is_alu Alu64" "\<not> is_alu Ld" "\<not> is_alu LdX" "\<not> is_alu St" "\<not> is_alu StX"
  "\<not> is_alu Jump" "\<not> is_alu Jump32"
  "is_jump Jump" "is_jump Jump32" "\<not> is_jump Ld" "\<not> is_jump LdX" "\<not> is_jump St"
  "\<not> is_jump StX" "\<not> is_jump Alu" "\<not> is_jump Alu64"
  by (simp_all add: is_load_or_store_def is_alu_def is_jump_def)

text \<open>\<open>OpCode(u32)\<close>: its constructors and its accessors.\<close>

type_synonym opcode = u32

definition alu32 :: "u32 \<Rightarrow> u32 \<Rightarrow> opcode" where
  "alu32 op source = 0x04 OR op OR source"

definition alu64 :: "u32 \<Rightarrow> u32 \<Rightarrow> opcode" where
  "alu64 op source = 0x07 OR op OR source"

definition jump :: "u32 \<Rightarrow> u32 \<Rightarrow> opcode" where
  "jump op source = 0x05 OR op OR source"

definition load_x :: "u32 \<Rightarrow> u32 \<Rightarrow> opcode" where
  "load_x mode sz = 0x01 OR mode OR sz"

definition load :: "u32 \<Rightarrow> u32 \<Rightarrow> opcode" where
  "load mode sz = mode OR sz"

definition store_x :: "u32 \<Rightarrow> u32 \<Rightarrow> opcode" where
  "store_x mode sz = 0x03 OR mode OR sz"

definition op_class :: "opcode \<Rightarrow> insn_class" where
  "op_class oc =
     (let c = oc AND CLASS_MASK in
      if c = 0 then Ld else if c = 1 then LdX else if c = 2 then St else if c = 3 then StX
      else if c = 4 then Alu else if c = 5 then Jump else if c = 6 then Jump32 else Alu64)"

definition op_mode :: "opcode \<Rightarrow> u32" where
  "op_mode oc = (if is_load_or_store (op_class oc) then oc AND MODE_MASK else INVALID_MODE)"

definition op_size :: "opcode \<Rightarrow> u32" where
  "op_size oc = (if is_load_or_store (op_class oc) then oc AND SIZE_MASK else INVALID_SIZE)"

definition atomic_op :: "opcode \<Rightarrow> u32" where
  "atomic_op oc =
     (if op_class oc = StX \<and> op_mode oc = MODE_ATOMIC then oc AND ATOMIC_MASK
      else INVALID_ATOMIC)"

definition alu_op :: "opcode \<Rightarrow> u32" where
  "alu_op oc = (if is_alu (op_class oc) then oc AND ALU_MASK else INVALID_ALU_OP)"

definition op_source :: "opcode \<Rightarrow> u32" where
  "op_source oc =
     (if \<not> (is_jump (op_class oc) \<or> is_alu (op_class oc)) \<or> alu_op oc = SWAP
      then INVALID_SOURCE else oc AND SOURCE_MASK)"

definition jump_op :: "opcode \<Rightarrow> u32" where
  "jump_op oc =
     (if \<not> is_jump (op_class oc) then INVALID_JUMP_OP
      else (let op = oc AND JUMP_MASK in
        if op_class oc = Jump32 \<and> (op = EXIT \<or> op = CALL) then INVALID_JUMP_OP else op))"

definition with_alu_op :: "opcode \<Rightarrow> u32 \<Rightarrow> opcode" where
  "with_alu_op oc op = (oc AND NOT ALU_MASK) OR op"

definition is_dword_load :: "opcode \<Rightarrow> bool" where
  "is_dword_load oc \<longleftrightarrow> oc = load MODE_IMM DWORD"

section \<open>Opcode text\<close>

definition source_name :: "u32 \<Rightarrow> string" where
  "source_name source =
     (if source = IMM_SOURCE then ''Imm'' else if source = REG_SOURCE then ''Reg''
      else ''Invalid'')"

text \<open>A \<open>match\<close> on a constant that yields a name: the first equal key.\<close>

fun name_of :: "(u32 \<times> string) list \<Rightarrow> u32 \<Rightarrow> string option" where
  "name_of [] op = None"
| "name_of ((k, n) # rest) op = (if op = k then Some n else name_of rest op)"

definition alu_name :: "u32 \<Rightarrow> string" where
  "alu_name op =
     (case name_of
        [(ADD, ''Add''), (SUB, ''Sub''), (MUL, ''Mul''), (DIV, ''Div''), (OR_OP, ''Or''),
         (AND_OP, ''And''), (LSH, ''LSh''), (RSH, ''RSh''), (NEG, ''Neg''), (MOD, ''Mod''),
         (XOR_OP, ''Xor''), (MOV, ''Mov''), (ARSH, ''ArSh''), (SWAP, ''Swap''),
         (SDIV, ''SDiv''), (SMOD, ''SMod''), (MOVSX8, ''MovSX8''), (MOVSX16, ''MovSX16''),
         (MOVSX32, ''MovSX32''), (INVALID_ALU_OP, ''InvalidALUOp'')] op of
        Some n \<Rightarrow> n
      | None \<Rightarrow> ''ALUOp('' @ show_nat (unat op) @ '')'')"

definition jump_name :: "u32 \<Rightarrow> string" where
  "jump_name op =
     (case name_of
        [(JA, ''Ja''), (JEQ, ''JEq''), (JGT, ''JGT''), (JGE, ''JGE''), (JSET, ''JSet''),
         (JNE, ''JNE''), (JSGT, ''JSGT''), (JSGE, ''JSGE''), (CALL, ''Call''), (EXIT, ''Exit''),
         (JLT, ''JLT''), (JLE, ''JLE''), (JSLT, ''JSLT''), (JSLE, ''JSLE''), (JCOND, ''JCOND''),
         (INVALID_JUMP_OP, ''InvalidJumpOp'')] op of
        Some n \<Rightarrow> n
      | None \<Rightarrow> ''JumpOp('' @ show_nat (unat op) @ '')'')"

definition atomic_name :: "u32 \<Rightarrow> string" where
  "atomic_name op =
     (if op = 0x0000 \<or> op = 0x5000 \<or> op = 0x4000 \<or> op = 0xa000 then alu_name (drop_bit 8 op)
      else if op = 0x0100 \<or> op = 0x5100 \<or> op = 0x4100 \<or> op = 0xa100
        then ''Fetch'' @ alu_name (drop_bit 8 (op XOR FETCH))
      else if op = XCHG then ''Xchg''
      else if op = CMPXCHG then ''CmpXchg''
      else if op = LOAD_ACQUIRE then ''LdAcq''
      else if op = STORE_RELEASE then ''StRel''
      else ''AtomicOp(0x'' @ show_hex (unat op) @ '')'')"

definition write_load_or_store :: "opcode \<Rightarrow> string" where
  "write_load_or_store oc =
     class_name (op_class oc)
     @ (let mode = op_mode oc in
        if mode = MODE_IMM then ''Imm''
        else if mode = MODE_ABS then ''Abs''
        else if mode = MODE_IND then ''Ind''
        else if mode = MODE_MEM then ''Mem''
        else if mode = MODE_MEMSX then ''MemSX''
        else if mode = MODE_ATOMIC then ''Atomic''
        else ''Mode('' @ show_nat (unat mode) @ '')'')
     @ (if atomic_op oc \<noteq> INVALID_ATOMIC then atomic_name (atomic_op oc) else [])
     @ (let sz = op_size oc in
        if sz = DWORD then ''DW'' else if sz = WORD then ''W'' else if sz = HALF then ''H''
        else if sz = BYTE then ''B'' else [])"

definition write_alu :: "opcode \<Rightarrow> string" where
  "write_alu oc =
     (let op = alu_op oc; cls = op_class oc in
      (if op = SWAP \<and> cls = Alu64 then ''B'' else [])
      @ alu_name op
      @ (if op = SWAP
         then (if cls = Alu then (if oc AND SOURCE_MASK = 0 then ''LE'' else ''BE'') else [])
         else source_name (op_source oc) @ (if cls = Alu then ''32'' else [])))"

definition write_jump :: "opcode \<Rightarrow> string" where
  "write_jump oc =
     (let op = jump_op oc in
      jump_name op
      @ (if op_class oc = Jump32 then ''32'' else [])
      @ (if op \<noteq> EXIT \<and> op \<noteq> CALL \<and> op \<noteq> JA then source_name (op_source oc) else []))"

definition opcode_text :: "opcode \<Rightarrow> string" where
  "opcode_text oc =
     (case op_class oc of
        Ld \<Rightarrow> write_load_or_store oc | LdX \<Rightarrow> write_load_or_store oc
      | St \<Rightarrow> write_load_or_store oc | StX \<Rightarrow> write_load_or_store oc
      | Alu \<Rightarrow> write_alu oc | Alu64 \<Rightarrow> write_alu oc
      | Jump \<Rightarrow> write_jump oc | Jump32 \<Rightarrow> write_jump oc)"

section \<open>Instructions\<close>

record instruction =
  opcode :: opcode
  dst :: register
  src :: register
  offset :: i16
  imm :: i64

definition load_mem :: "register \<Rightarrow> register \<Rightarrow> i16 \<Rightarrow> u32 \<Rightarrow> instruction" where
  "load_mem d s off sz =
     \<lparr>opcode = load_x MODE_MEM sz, dst = d, src = s, offset = off, imm = 0\<rparr>"

definition alu32_imm :: "u32 \<Rightarrow> register \<Rightarrow> i32 \<Rightarrow> instruction" where
  "alu32_imm op d v =
     \<lparr>opcode = alu32 op IMM_SOURCE, dst = d, src = R0, offset = 0, imm = scast v\<rparr>"

definition alu32_reg :: "u32 \<Rightarrow> register \<Rightarrow> register \<Rightarrow> instruction" where
  "alu32_reg op d s =
     \<lparr>opcode = alu32 op REG_SOURCE, dst = d, src = s, offset = 0, imm = 0\<rparr>"

definition jump_imm :: "u32 \<Rightarrow> register \<Rightarrow> i32 \<Rightarrow> i16 \<Rightarrow> instruction" where
  "jump_imm op d v off =
     \<lparr>opcode = jump op IMM_SOURCE, dst = d, src = R0, offset = off, imm = scast v\<rparr>"

definition jump_reg :: "u32 \<Rightarrow> register \<Rightarrow> register \<Rightarrow> i16 \<Rightarrow> instruction" where
  "jump_reg op d s off =
     \<lparr>opcode = jump op REG_SOURCE, dst = d, src = s, offset = off, imm = 0\<rparr>"

definition exit_insn :: instruction where
  "exit_insn = \<lparr>opcode = jump EXIT IMM_SOURCE, dst = R0, src = R0, offset = 0, imm = 0\<rparr>"

definition width :: "instruction \<Rightarrow> nat" where
  "width i = (if is_dword_load (opcode i) then 2 else 1)"

definition is_builtin_call :: "instruction \<Rightarrow> bool" where
  "is_builtin_call i \<longleftrightarrow> jump_op (opcode i) = CALL \<and> src i = R0 \<and> dst i = R0"

definition is_load_from_map :: "instruction \<Rightarrow> bool" where
  "is_load_from_map i \<longleftrightarrow>
     is_dword_load (opcode i) \<and> (src i = PSEUDO_MAP_FD \<or> src i = PSEUDO_MAP_VALUE)"

definition low_u32 :: "i64 \<Rightarrow> u32" where
  "low_u32 v = ucast v"

definition low_i32 :: "i64 \<Rightarrow> i32" where
  "low_i32 v = low_u32 v"

definition high_u32 :: "i64 \<Rightarrow> u32" where
  "high_u32 v = low_u32 (signed_drop_bit 32 v)"

definition registers :: "register \<Rightarrow> register \<Rightarrow> u8" where
  "registers d s = push_bit 4 s OR (d AND 0x0f)"

subsection \<open>Encoding\<close>

datatype encode_cause =
    InvalidOpCode
  | OpCodeBits string
  | Unsupported string string
  | ExtendedOffset

text \<open>
  The opcode, offset and immediate that go on the wire, after the platform check of a helper
  call, the folding of the extended ALU operations and the removal of the atomic bits.
\<close>

definition alu_base :: "u32 \<Rightarrow> u32 \<times> i16" where
  "alu_base op =
     (if op = SDIV then (DIV, 1) else if op = SMOD then (MOD, 1)
      else if op = MOVSX8 then (MOV, 8) else if op = MOVSX16 then (MOV, 16)
      else if op = MOVSX32 then (MOV, 32) else (op, 0))"

definition wire_fields :: "instruction \<Rightarrow> (opcode \<times> i16 \<times> i32, encode_cause) result" where
  "wire_fields i =
     (let oc = opcode i; immediate = low_i32 (imm i) in
      if is_builtin_call i then
        (let fid = low_u32 (imm i); tag = fid AND PLATFORM_MASK in
         if tag = 0 then Inr (oc, offset i, fid AND NOT PLATFORM_MASK)
         else Inl (Unsupported (builtin_name fid) (if tag = WINDOWS_TAG then ''windows'' else [])))
      else if is_alu (op_class oc) then
        (let (base, wire_offset) = alu_base (alu_op oc) in
         if wire_offset \<noteq> 0 \<and> offset i \<noteq> 0 then Inl ExtendedOffset
         else Inr (with_alu_op oc base, wire_offset, immediate))
      else if atomic_op oc \<noteq> INVALID_ATOMIC then
        Inr (oc AND NOT ATOMIC_MASK, offset i, immediate)
      else Inr (oc, offset i, immediate))"

definition encode :: "instruction \<Rightarrow> (bytes, encode_cause) result" where
  "encode i =
     (if opcode i = INVALID_OPCODE then Inl InvalidOpCode
      else bindR (wire_fields i) (\<lambda>(oc, off, immediate).
        if unat oc \<ge> 256 then Inl (OpCodeBits (opcode_text oc))
        else Inr ([ucast oc, registers (dst i) (src i)] @ le16 off @ le32 immediate
          @ (if is_dword_load oc then le32 0 @ le32 (high_u32 (imm i)) else []))))"

subsection \<open>Decoding\<close>

datatype decode_cause =
    UnexpectedEof
  | MissingSecondHalf
  | NonZeroFields
  | InvalidConstant u32

datatype decode_error = DecodeError nat decode_cause

text \<open>The ALU operations a non-zero offset turns into signed and sign-extending ones.\<close>

definition alu_extended :: "u32 \<Rightarrow> i16 \<Rightarrow> u32 option" where
  "alu_extended op off =
     (if op = DIV \<and> off = 1 then Some SDIV
      else if op = MOD \<and> off = 1 then Some SMOD
      else if op = MOV \<and> off = 8 then Some MOVSX8
      else if op = MOV \<and> off = 16 then Some MOVSX16
      else if op = MOV \<and> off = 32 then Some MOVSX32
      else None)"

type_synonym raw_slot = "u8 \<times> u8 \<times> u8 \<times> u8 \<times> u8 \<times> u8 \<times> u8 \<times> u8"

definition slot :: "bytes \<Rightarrow> nat \<Rightarrow> raw_slot option" where
  "slot raw index =
     (case drop (index * INSTRUCTION_SIZE) raw of
        b0 # b1 # b2 # b3 # b4 # b5 # b6 # b7 # _ \<Rightarrow> Some (b0, b1, b2, b3, b4, b5, b6, b7)
      | _ \<Rightarrow> None)"

text \<open>
  The first slot, before the second half of a \<open>ld_imm64\<close> is read: the fields as they are on
  the wire, then the extra opcode bits that \<open>decode_one\<close> recovers from them.
\<close>

definition wire_insn :: "raw_slot \<Rightarrow> instruction" where
  "wire_insn s =
     (case s of (op, regs, o0, o1, i0, i1, i2, i3) \<Rightarrow>
       \<lparr>opcode = ucast op, dst = regs AND 0x0f, src = drop_bit 4 regs,
        offset = of_le16 o0 o1, imm = scast (of_le32 i0 i1 i2 i3)\<rparr>)"

definition refine_insn :: "instruction \<Rightarrow> (instruction, decode_cause) result" where
  "refine_insn i =
     (let oc = opcode i in
      if is_builtin_call i then
        (if 0 \<le> sint (imm i) \<and> drop_bit PLATFORM_SHIFT (low_u32 (imm i)) > 0
         then Inl (InvalidConstant (low_u32 (imm i))) else Inr i)
      else if is_alu (op_class oc) then
        (case alu_extended (alu_op oc) (offset i) of
           Some e \<Rightarrow> Inr (i\<lparr>opcode := with_alu_op oc e, offset := 0\<rparr>)
         | None \<Rightarrow> Inr i)
      else if op_class oc = StX \<and> op_mode oc = MODE_ATOMIC then
        Inr (i\<lparr>opcode := oc OR (low_u32 (push_bit 8 (imm i)) AND ATOMIC_MASK)\<rparr>)
      else Inr i)"

definition decode_slot :: "raw_slot \<Rightarrow> (instruction, decode_cause) result" where
  "decode_slot s = refine_insn (wire_insn s)"

definition decode_one :: "bytes \<Rightarrow> (instruction, decode_cause) result" where
  "decode_one raw =
     bindR (ok_or UnexpectedEof (slot raw 0)) (\<lambda>s.
     bindR (decode_slot s) (\<lambda>i.
       if \<not> is_dword_load (ucast (fst s)) then Inr i
       else bindR (ok_or MissingSecondHalf (slot raw 1)) (\<lambda>(z0, z1, z2, z3, h0, h1, h2, h3).
         if of_le32 z0 z1 z2 z3 \<noteq> 0 then Inl NonZeroFields
         else Inr (i\<lparr>imm := push_bit 32 (scast (of_le32 h0 h1 h2 h3))
                                  OR ucast (low_u32 (imm i))\<rparr>))))"

function decode_from :: "nat \<Rightarrow> bytes \<Rightarrow> (instruction list, decode_error) result" where
  "decode_from off raw =
     (if raw = [] then Inr []
      else case decode_one raw of
        Inl c \<Rightarrow> Inl (DecodeError off c)
      | Inr i \<Rightarrow>
          map_ok ((#) i)
            (decode_from (off + width i * INSTRUCTION_SIZE)
              (drop (width i * INSTRUCTION_SIZE) raw)))"
  by pat_completeness auto
termination
  by (relation "measure (\<lambda>(off, raw). length raw)")
     (auto simp: width_def INSTRUCTION_SIZE_def)

declare decode_from.simps [simp del]

definition decode :: "bytes \<Rightarrow> (instruction list, decode_error) result" where
  "decode raw = decode_from 0 raw"

section \<open>Decoding inverts encoding\<close>

text \<open>
  The form of an instruction that came out of a decode, up to the offset of an ALU operation
  that has none on the wire: nibble-sized registers, a sign-extended immediate, and extra opcode
  bits only where decoding puts them.
\<close>

definition decoded_form :: "instruction \<Rightarrow> bool" where
  "decoded_form i \<longleftrightarrow>
     (let oc = opcode i in
      dst i < 16 \<and> src i < 16
      \<and> (is_dword_load oc \<or> imm i = scast (low_i32 (imm i)))
      \<and> (if is_alu (op_class oc) then
           offset i = 0 \<and> unat (with_alu_op oc (fst (alu_base (alu_op oc)))) < 256
         else if op_class oc = StX \<and> op_mode oc = MODE_ATOMIC then
           unat (oc AND NOT ATOMIC_MASK) < 256
           \<and> oc AND ATOMIC_MASK = low_u32 (push_bit 8 (imm i)) AND ATOMIC_MASK
         else unat oc < 256))"

lemma nibble_mask: "(0x0f :: u8) = mask 4"
  by (simp add: mask_eq_exp_minus_1)

lemma take_bit_nibble: "(r :: u8) < 16 \<Longrightarrow> take_bit 4 r = r"
  by (simp add: word_less_nat_alt word_unat_eq_iff unsigned_take_bit_eq take_bit_nat_eq_self)

lemma registers_dst: "d < 16 \<Longrightarrow> registers d s AND 0x0f = d"
proof -
  assume "d < 16"
  moreover have "registers d s AND 0x0f = take_bit 4 d"
    unfolding registers_def nibble_mask by (rule bit_word_eqI) (auto simp: bit_simps)
  ultimately show ?thesis by (simp add: take_bit_nibble)
qed

lemma registers_src: "s < 16 \<Longrightarrow> drop_bit 4 (registers d s) = s"
proof -
  assume "s < 16"
  moreover have "drop_bit 4 (registers d s) = take_bit 4 s"
    unfolding registers_def nibble_mask by (rule bit_word_eqI) (auto simp: bit_simps)
  ultimately show ?thesis by (simp add: take_bit_nibble)
qed

lemma ucast_ucast_small: "unat (oc :: u32) < 256 \<Longrightarrow> ucast (ucast oc :: u8) = oc"
  by (simp add: word_unat_eq_iff unsigned_ucast_eq unsigned_take_bit_eq
      take_bit_nat_eq_self)

lemma and_not_or_self: "oc AND m = x \<Longrightarrow> (oc AND NOT m) OR x = (oc :: u32)"
  by (auto intro!: bit_word_eqI simp: bit_simps)

lemma op_class_with_alu_op:
  "op AND CLASS_MASK = 0 \<Longrightarrow> op_class (with_alu_op oc op) = op_class oc"
proof -
  assume "op AND CLASS_MASK = 0"
  have "NOT ALU_MASK AND CLASS_MASK = CLASS_MASK"
    by (simp add: ALU_MASK_def CLASS_MASK_def)
  with \<open>op AND CLASS_MASK = 0\<close> have "with_alu_op oc op AND CLASS_MASK = oc AND CLASS_MASK"
    by (simp add: with_alu_op_def bit.conj_disj_distrib2 and.assoc)
  then show ?thesis by (simp add: op_class_def)
qed


lemma op_mode_and_not_atomic:
  "op_class (oc AND NOT ATOMIC_MASK) = op_class oc"
  "op_mode (oc AND NOT ATOMIC_MASK) = op_mode oc"
proof -
  have c: "NOT ATOMIC_MASK AND CLASS_MASK = CLASS_MASK"
    and m: "NOT ATOMIC_MASK AND MODE_MASK = MODE_MASK"
    by (simp_all add: ATOMIC_MASK_def CLASS_MASK_def MODE_MASK_def)
  show cls: "op_class (oc AND NOT ATOMIC_MASK) = op_class oc"
    by (simp add: op_class_def and.assoc c)
  show "op_mode (oc AND NOT ATOMIC_MASK) = op_mode oc"
    by (simp add: op_mode_def cls and.assoc m)
qed

lemma alu_op_mask: "is_alu (op_class oc) \<Longrightarrow> alu_op oc = oc AND ALU_MASK"
  by (simp add: alu_op_def)

lemma alu_base_class: "is_alu (op_class oc) \<Longrightarrow> fst (alu_base (alu_op oc)) AND CLASS_MASK = 0"
  by (auto simp: alu_base_def alu_op_mask and.assoc const_defs)

lemma alu_base_mask:
  "is_alu (op_class oc) \<Longrightarrow>
   fst (alu_base (alu_op oc)) AND ALU_MASK = fst (alu_base (alu_op oc))"
  by (auto simp: alu_base_def alu_op_mask and.assoc const_defs)

lemma alu_op_with_alu_op:
  assumes "is_alu (op_class oc)" and "op AND CLASS_MASK = 0" and "op AND ALU_MASK = op"
  shows "alu_op (with_alu_op oc op) = op"
proof -
  have "(oc AND NOT ALU_MASK) AND ALU_MASK = 0"
    by (simp add: and.assoc)
  with assms show ?thesis
    by (simp add: alu_op_mask op_class_with_alu_op) (simp add: with_alu_op_def bit.conj_disj_distrib2)
qed

lemma with_alu_op_twice:
  "op AND ALU_MASK = op \<Longrightarrow> with_alu_op (with_alu_op oc op) op' = with_alu_op oc op'"
proof -
  assume "op AND ALU_MASK = op"
  then have "op AND NOT ALU_MASK = 0"
    by (metis and.assoc and.right_neutral bit.conj_cancel_right bit.conj_zero_right)
  then show ?thesis
    by (simp add: with_alu_op_def bit.conj_disj_distrib2 and.assoc)
qed

lemma with_alu_op_self: "is_alu (op_class oc) \<Longrightarrow> with_alu_op oc (alu_op oc) = oc"
  by (simp add: with_alu_op_def alu_op_mask and_not_or_self)

lemma platform_untagged:
  assumes "fid AND PLATFORM_MASK = 0" and "0 \<le> sint (scast fid :: i64)"
  shows "drop_bit PLATFORM_SHIFT fid = 0"
proof -
  have "sint (scast fid :: i64) = sint fid"
    using sint_lt [of fid] sint_ge [of fid]
    by (simp add: signed_scast_eq signed_take_bit_int_eq_self)
  with assms(2) have "\<not> bit fid 31"
    using bit_last_iff [of fid] by simp
  moreover have "\<not> bit fid n" if "n \<in> {28, 29, 30}" for n
  proof -
    have "bit PLATFORM_MASK n" using that by (auto simp: PLATFORM_MASK_def)
    then show ?thesis using assms(1) by (metis bit_0_eq bit_and_iff bot_apply bot_bool_def)
  qed
  ultimately have "\<not> bit fid n" if "28 \<le> n" for n
    using that bit_imp_le_length [of fid n] by (cases "n \<in> {28, 29, 30, 31}") auto
  then show ?thesis
    by (auto intro!: bit_word_eqI simp: bit_simps PLATFORM_SHIFT_def)
qed

lemma and_not_mask_self: "fid AND m = 0 \<Longrightarrow> fid AND NOT m = (fid :: u32)"
  using and_not_or_self [of fid m 0] by simp


lemma wire_insn_le:
  assumes "d < 16" and "r < 16" and "unat oc < 256"
  shows "wire_insn (ucast oc, registers d r, ucast off, ucast (drop_bit 8 off),
      ucast (im :: i32), ucast (drop_bit 8 im), ucast (drop_bit 16 im), ucast (drop_bit 24 im)) =
    \<lparr>opcode = oc, dst = d, src = r, offset = off, imm = scast im\<rparr>"
  using assms
  by (simp add: wire_insn_def of_le16_le16 of_le32_le32 ucast_ucast_small registers_dst registers_src)

lemma is_builtin_call_imm [simp]: "is_builtin_call (i\<lparr>imm := c\<rparr>) = is_builtin_call i"
  by (simp add: is_builtin_call_def)

lemma not_builtin_call:
  "op_class (opcode i) \<notin> {Jump, Jump32} \<Longrightarrow> \<not> is_builtin_call i"
  by (simp add: is_builtin_call_def jump_op_def is_jump_def const_defs)

lemma low_u32_scast [simp]: "low_u32 (scast (w :: i32)) = w"
  by (simp add: low_u32_def)

lemma refine_call:
  assumes "is_builtin_call i" and "wire_fields i = Inr (oc, off, im)"
  shows "refine_insn (i\<lparr>opcode := oc, offset := off, imm := scast im\<rparr>)
    = Inr (i\<lparr>imm := scast (low_i32 (imm i))\<rparr>)"
proof -
  from assms have tag: "low_u32 (imm i) AND PLATFORM_MASK = 0"
    and eqs: "oc = opcode i" "off = offset i" "im = low_u32 (imm i)"
    by (auto simp: wire_fields_def Let_def and_not_mask_self split: if_splits)
  have j: "i\<lparr>opcode := oc, offset := off, imm := scast im\<rparr> = i\<lparr>imm := scast (low_i32 (imm i))\<rparr>"
    by (simp add: eqs low_i32_def)
  show ?thesis
    unfolding j using assms(1) platform_untagged [OF tag]
    by (auto simp: refine_insn_def low_i32_def)
qed

lemma alu_base_extended:
  "alu_base op = (b, w) \<Longrightarrow> alu_extended b w = (if w = 0 then None else Some op)"
  by (auto simp: alu_base_def alu_extended_def const_defs split: if_splits)

lemma alu_base_zero: "alu_base op = (b, 0) \<Longrightarrow> b = op"
  by (auto simp: alu_base_def split: if_splits)

lemma refine_alu:
  assumes "is_alu (op_class (opcode i))" and "offset i = 0"
    and "wire_fields i = Inr (oc, off, im)"
  shows "refine_insn (i\<lparr>opcode := oc, offset := off, imm := scast im\<rparr>)
    = Inr (i\<lparr>imm := scast (low_i32 (imm i))\<rparr>)"
proof -
  let ?op = "alu_op (opcode i)"
  obtain b w where bw: "alu_base ?op = (b, w)" by fastforce
  have cls: "b AND CLASS_MASK = 0" and msk: "b AND ALU_MASK = b"
    using alu_base_class [OF assms(1)] alu_base_mask [OF assms(1)] by (simp_all add: bw)
  have "\<not> is_builtin_call i"
    using assms(1) by (intro not_builtin_call) (auto simp: is_alu_def)
  with assms have eqs: "oc = with_alu_op (opcode i) b" "off = w" "im = low_i32 (imm i)"
    by (auto simp: wire_fields_def Let_def bw split: if_splits)
  have kinds: "op_class oc = op_class (opcode i)" "alu_op oc = b"
    using assms(1) by (simp_all add: eqs op_class_with_alu_op cls alu_op_with_alu_op msk)
  have same: "with_alu_op oc ?op = opcode i"
    using assms(1) by (simp add: eqs with_alu_op_twice [OF msk] with_alu_op_self)
  moreover have "oc = opcode i" if "w = 0"
    using alu_base_zero [of ?op b] that bw assms(1) by (simp add: eqs with_alu_op_self)
  moreover have "\<not> is_builtin_call j" if "opcode j = oc" for j
    using that kinds assms(1) by (intro not_builtin_call) (auto simp: is_alu_def)
  ultimately show ?thesis
    using kinds assms(1,2) eqs(2,3)
    by (simp add: refine_insn_def alu_base_extended [OF bw])
qed

lemma refine_atomic:
  assumes "op_class (opcode i) = StX" and "op_mode (opcode i) = MODE_ATOMIC"
    and "imm i = scast (low_i32 (imm i))"
    and "opcode i AND ATOMIC_MASK = low_u32 (push_bit 8 (imm i)) AND ATOMIC_MASK"
    and "wire_fields i = Inr (oc, off, im)"
  shows "refine_insn (i\<lparr>opcode := oc, offset := off, imm := scast im\<rparr>)
    = Inr (i\<lparr>imm := scast (low_i32 (imm i))\<rparr>)"
proof -
  have "bit INVALID_ATOMIC 0" "\<not> bit ATOMIC_MASK 0"
    by (simp_all add: const_defs)
  then have "atomic_op (opcode i) \<noteq> INVALID_ATOMIC"
    using assms(1,2) by (auto simp: atomic_op_def bit_and_iff dest: arg_cong [where f = "\<lambda>w. bit w 0"])
  moreover have "\<not> is_builtin_call i" "\<not> is_alu StX"
    using assms(1) by (auto intro!: not_builtin_call simp: is_alu_def)
  ultimately have eqs: "oc = opcode i AND NOT ATOMIC_MASK" "off = offset i" "im = low_i32 (imm i)"
    using assms(1,5) by (auto simp: wire_fields_def Let_def)
  have "\<not> is_builtin_call j" if "opcode j = oc" for j
    using assms(1) that by (intro not_builtin_call) (simp add: eqs op_mode_and_not_atomic)
  moreover have "oc OR (low_u32 (push_bit 8 (scast (low_i32 (imm i)))) AND ATOMIC_MASK) = opcode i"
    using and_not_or_self [OF assms(4)] by (simp add: eqs assms(3) [symmetric])
  ultimately show ?thesis
    using assms(1,2) \<open>\<not> is_alu StX\<close> eqs
    by (simp add: refine_insn_def op_mode_and_not_atomic)
qed

lemma refine_plain:
  assumes "\<not> is_builtin_call i" and "\<not> is_alu (op_class (opcode i))"
    and "\<not> (op_class (opcode i) = StX \<and> op_mode (opcode i) = MODE_ATOMIC)"
    and "wire_fields i = Inr (oc, off, im)"
  shows "refine_insn (i\<lparr>opcode := oc, offset := off, imm := scast im\<rparr>)
    = Inr (i\<lparr>imm := scast (low_i32 (imm i))\<rparr>)"
proof -
  have "atomic_op (opcode i) = INVALID_ATOMIC"
    using assms(3) by (auto simp: atomic_op_def)
  with assms have eqs: "oc = opcode i" "off = offset i" "im = low_i32 (imm i)"
    by (auto simp: wire_fields_def Let_def)
  have "i\<lparr>opcode := oc, offset := off, imm := scast im\<rparr> = i\<lparr>imm := scast (low_i32 (imm i))\<rparr>"
    by (simp add: eqs)
  then show ?thesis
    using assms by (auto simp: refine_insn_def Let_def)
qed

lemma refine_wire:
  assumes "decoded_form i" and "wire_fields i = Inr (oc, off, im)"
  shows "refine_insn (i\<lparr>opcode := oc, offset := off, imm := scast im\<rparr>)
    = Inr (i\<lparr>imm := scast (low_i32 (imm i))\<rparr>)"
proof -
  have "\<not> is_dword_load (opcode i)" if "op_class (opcode i) = StX"
    using that by (auto simp: is_dword_load_def load_def op_class_def const_defs)
  then show ?thesis
    using assms refine_call refine_alu refine_atomic refine_plain
    by (simp add: decoded_form_def Let_def is_alu_def split: if_splits) blast+
qed


lemma slot_0 [simp]: "slot (b0 # b1 # b2 # b3 # b4 # b5 # b6 # b7 # r) 0 = Some (b0, b1, b2, b3, b4, b5, b6, b7)"
  by (simp add: slot_def)

lemma slot_1 [simp]:
  "slot (a0 # a1 # a2 # a3 # a4 # a5 # a6 # a7 # b0 # b1 # b2 # b3 # b4 # b5 # b6 # b7 # r) (Suc 0)
   = Some (b0, b1, b2, b3, b4, b5, b6, b7)"
  by (simp add: slot_def INSTRUCTION_SIZE_def eval_nat_numeral)

lemma join_halves: "push_bit 32 (scast (high_u32 c)) OR ucast (low_u32 c) = (c :: i64)"
  unfolding high_u32_def low_u32_def
  by (rule bit_word_eqI) (auto simp: bit_simps)

lemma wire_dword:
  assumes "wire_fields i = Inr (oc, off, im)"
  shows "is_dword_load oc = is_dword_load (opcode i)"
proof (cases "oc = opcode i")
  case False
  have "op_class (load MODE_IMM DWORD) = Ld" by (simp add: load_def op_class_def const_defs)
  moreover have "op_class oc = op_class (opcode i) \<and> op_class oc \<noteq> Ld"
    using assms False alu_base_class [of "opcode i"]
    by (auto simp: wire_fields_def Let_def op_class_with_alu_op op_mode_and_not_atomic is_alu_def
        atomic_op_def split: if_splits prod.splits)
  ultimately show ?thesis by (auto simp: is_dword_load_def)
qed simp

lemma encode_length: "encode i = Inr bs \<Longrightarrow> length bs = width i * INSTRUCTION_SIZE"
  by (auto simp: encode_def result_simps width_def INSTRUCTION_SIZE_def le32_def le16_def
      dest: wire_dword split: if_splits)

lemma decode_one_encode:
  assumes "decoded_form i" and "encode i = Inr bs"
  shows "decode_one (bs @ rest) = Inr i"
proof -
  from assms(2) obtain oc off im where wire: "wire_fields i = Inr (oc, off, im)"
    and small: "unat oc < 256"
    and bs: "bs = [ucast oc, registers (dst i) (src i)] @ le16 off @ le32 im
      @ (if is_dword_load oc then le32 0 @ le32 (high_u32 (imm i)) else [])"
    by (auto simp: encode_def result_simps split: if_splits)
  have regs: "dst i < 16" "src i < 16"
    using assms(1) by (simp_all add: decoded_form_def Let_def)
  have slot: "decode_slot (ucast oc, registers (dst i) (src i), ucast off, ucast (drop_bit 8 off),
      ucast im, ucast (drop_bit 8 im), ucast (drop_bit 16 im), ucast (drop_bit 24 im)) =
    Inr (i\<lparr>imm := scast (low_i32 (imm i))\<rparr>)"
    unfolding decode_slot_def wire_insn_le [OF regs small]
    using refine_wire [OF assms(1) wire] by (cases i) simp
  show ?thesis
  proof (cases "is_dword_load oc")
    case True
    then show ?thesis
      by (simp add: bs decode_one_def le16_def le32_def slot ucast_ucast_small [OF small]
          of_le32_le32 join_halves low_i32_def) (simp add: of_le32_def join_halves)
  next
    case False
    then have "imm i = scast (low_i32 (imm i))"
      using assms(1) wire_dword [OF wire] by (simp add: decoded_form_def Let_def)
    then show ?thesis
      using False by (simp add: bs decode_one_def le16_def le32_def slot ucast_ucast_small [OF small])
  qed
qed


section \<open>Encoding normalises what was decoded\<close>

text \<open>
  A decode keeps the offset of an ALU operation that has no extended form, and the encoder
  writes zero for it. \<open>canon\<close> drops it: the one thing a decode and an encode lose.
\<close>

definition canon :: "instruction \<Rightarrow> instruction" where
  "canon i = (if is_alu (op_class (opcode i)) then i\<lparr>offset := 0\<rparr> else i)"

lemma canon_fields [simp]:
  "opcode (canon i) = opcode i" "dst (canon i) = dst i" "src (canon i) = src i"
  "imm (canon i) = imm i"
  by (simp_all add: canon_def)

lemma width_canon [simp]: "width (canon i) = width i"
  by (simp add: width_def)

lemma is_builtin_call_canon [simp]: "is_builtin_call (canon i) = is_builtin_call i"
  by (simp add: is_builtin_call_def)

lemma unat_u8_less: "unat (b :: u8) < 256"
  using unsigned_less [of b, where 'a = nat] by simp

lemma nibble_less: "(r AND 0x0f :: u8) < 16" "drop_bit 4 (r :: u8) < 16"
proof -
  show "(r AND 0x0f :: u8) < 16"
    using word_and_le1 [of r 15] by (simp add: word_le_nat_alt word_less_nat_alt)
  have "unat r < 256" by (rule unat_u8_less)
  then show "drop_bit 4 (r :: u8) < 16"
    by (simp add: word_less_nat_alt drop_bit_eq_div unat_div_distrib)
qed

lemma ucast_u8_small: "unat (ucast (b :: u8) :: u32) < 256"
  using unat_u8_less [of b] by (simp add: unsigned_ucast_eq unsigned_take_bit_eq take_bit_nat_eq_self)

lemma wire_insn_form:
  "dst (wire_insn s) < 16" "src (wire_insn s) < 16" "unat (opcode (wire_insn s)) < 256"
  "imm (wire_insn s) = scast (low_i32 (imm (wire_insn s)))"
  by (auto simp: wire_insn_def low_i32_def nibble_less ucast_u8_small split: prod.splits)

lemma alu_extended_base:
  "alu_extended op off = Some e \<Longrightarrow>
     alu_base e = (op, off) \<and> e AND CLASS_MASK = 0 \<and> e AND ALU_MASK = e"
  by (auto simp: alu_extended_def alu_base_def const_defs split: if_splits)



lemma alu_base_small:
  assumes "is_alu (op_class oc)" and "unat oc < 256"
  shows "alu_base (alu_op oc) = (alu_op oc, 0)"
proof -
  have "unat (alu_op oc) \<le> unat oc"
    using assms(1) word_and_le2 [of oc ALU_MASK] by (simp add: alu_op_mask word_le_nat_alt)
  with assms(2) have "unat (alu_op oc) < 256" by simp
  then show ?thesis by (auto simp: alu_base_def const_defs)
qed

lemma canon_refine_alu:
  assumes alu: "is_alu (op_class (opcode w))" and small: "unat (opcode w) < 256"
    and i: "refine_insn w = Inr i"
  shows "op_class (opcode i) = op_class (opcode w)
    \<and> with_alu_op (opcode i) (fst (alu_base (alu_op (opcode i)))) = opcode w
    \<and> dst i = dst w \<and> src i = src w \<and> imm i = imm w
    \<and> (snd (alu_base (alu_op (opcode i))) \<noteq> 0 \<longrightarrow> offset i = 0)"
proof (cases "alu_extended (alu_op (opcode w)) (offset w)")
  case None
  with alu i have "i = w"
    by (auto simp: refine_insn_def Let_def not_builtin_call is_alu_def split: if_splits)
  with alu small show ?thesis
    by (simp add: alu_base_small with_alu_op_self)
next
  case (Some e)
  with alu i have "i = w\<lparr>opcode := with_alu_op (opcode w) e, offset := 0\<rparr>"
    by (auto simp: refine_insn_def Let_def not_builtin_call is_alu_def split: if_splits)
  with alu alu_extended_base [OF Some] show ?thesis
    by (simp add: op_class_with_alu_op alu_op_with_alu_op with_alu_op_twice with_alu_op_self)
qed

lemma atomic_mask_bits: "ATOMIC_MASK = push_bit 8 (mask 9)"
  by (simp add: ATOMIC_MASK_def mask_eq_exp_minus_1 push_bit_eq_mult)

lemma atomic_bits_small: "unat oc < 256 \<Longrightarrow> oc AND ATOMIC_MASK = 0" for oc :: u32
proof -
  assume "unat oc < 256"
  then have "oc = ucast (ucast oc :: u8)" by (simp add: ucast_ucast_small)
  moreover have "ucast (b :: u8) AND ATOMIC_MASK = 0" for b
    unfolding atomic_mask_bits
    by (rule bit_word_eqI) (auto simp: bit_simps dest: bit_imp_le_length)
  ultimately show ?thesis by metis
qed


lemma op_class_or_atomic:
  "op_class (oc OR (x AND ATOMIC_MASK)) = op_class oc"
  "op_mode (oc OR (x AND ATOMIC_MASK)) = op_mode oc"
proof -
  have c: "(x AND ATOMIC_MASK) AND CLASS_MASK = 0" and m: "(x AND ATOMIC_MASK) AND MODE_MASK = 0"
    by (simp_all add: and.assoc ATOMIC_MASK_def CLASS_MASK_def MODE_MASK_def)
  show cls: "op_class (oc OR (x AND ATOMIC_MASK)) = op_class oc"
    by (simp add: op_class_def bit.conj_disj_distrib2 c)
  show "op_mode (oc OR (x AND ATOMIC_MASK)) = op_mode oc"
    by (simp add: op_mode_def cls bit.conj_disj_distrib2 m)
qed

lemma refine_form:
  assumes i: "refine_insn w = Inr i" and small: "unat (opcode w) < 256"
    and w: "dst w < 16" "src w < 16" "imm w = scast (low_i32 (imm w))"
  shows "decoded_form (canon i) \<and> encode (canon i) = encode i
    \<and> is_dword_load (opcode i) = is_dword_load (opcode w)
    \<and> (is_dword_load (opcode w) \<longrightarrow> i = w)"
proof -
  have ld: "op_class (opcode w) = Ld" if "is_dword_load (opcode w)"
    using that by (auto simp: is_dword_load_def load_def op_class_def const_defs)
  consider (alu) "is_alu (op_class (opcode w))"
    | (atomic) "op_class (opcode w) = StX" "op_mode (opcode w) = MODE_ATOMIC"
    | (plain) "\<not> is_alu (op_class (opcode w))"
        "\<not> (op_class (opcode w) = StX \<and> op_mode (opcode w) = MODE_ATOMIC)"
    by blast
  then show ?thesis
  proof cases
    case alu
    note f = canon_refine_alu [OF alu small i]
    obtain b o' where b: "alu_base (alu_op (opcode i)) = (b, o')" by fastforce
    have "\<not> is_dword_load (opcode i)" "\<not> is_dword_load (opcode w)"
      using f alu ld by (auto simp: is_dword_load_def is_alu_def load_def op_class_def const_defs)
    moreover have "wire_fields (canon i) = wire_fields i"
      using f alu b by (auto simp: wire_fields_def canon_def not_builtin_call is_alu_def Let_def)
    ultimately show ?thesis
      using f alu small w
      by (simp add: decoded_form_def encode_def cong: if_cong) (simp add: canon_def)
  next
    case atomic
    have ii: "i = w\<lparr>opcode := opcode w OR (low_u32 (push_bit 8 (imm w)) AND ATOMIC_MASK)\<rparr>"
      using atomic i by (auto simp: refine_insn_def Let_def not_builtin_call is_alu_def)
    have cls: "op_class (opcode i) = StX" "op_mode (opcode i) = MODE_ATOMIC"
      using atomic by (simp_all add: ii op_class_or_atomic)
    have "opcode i AND NOT ATOMIC_MASK = opcode w"
      using and_not_mask_self [OF atomic_bits_small [OF small]]
      by (simp add: ii bit.conj_disj_distrib2 and.assoc)
    moreover have "opcode i AND ATOMIC_MASK = low_u32 (push_bit 8 (imm i)) AND ATOMIC_MASK"
      using atomic_bits_small [OF small] by (simp add: ii bit.conj_disj_distrib2 and.assoc)
    moreover have "\<not> is_dword_load (opcode i)" "\<not> is_dword_load (opcode w)"
      using cls atomic ld by (auto simp: is_dword_load_def load_def op_class_def const_defs)
    ultimately show ?thesis
      using cls w small by (simp add: decoded_form_def canon_def is_alu_def) (simp add: ii)
  next
    case plain
    then have "i = w"
      using i by (auto simp: refine_insn_def Let_def split: if_splits)
    with plain w small show ?thesis
      by (auto simp: decoded_form_def canon_def)
  qed
qed

lemma decode_one_form:
  assumes "decode_one raw = Inr i"
  shows "decoded_form (canon i) \<and> encode (canon i) = encode i"
proof -
  from assms obtain s j where j: "refine_insn (wire_insn s) = Inr j"
    and rest: "(if \<not> is_dword_load (ucast (fst s)) then Inr j
       else bindR (ok_or MissingSecondHalf (slot raw 1)) (\<lambda>(z0, z1, z2, z3, h0, h1, h2, h3).
         if of_le32 z0 z1 z2 z3 \<noteq> 0 then Inl NonZeroFields
         else Inr (j\<lparr>imm := push_bit 32 (scast (of_le32 h0 h1 h2 h3))
                                  OR ucast (low_u32 (imm j))\<rparr>))) = Inr i"
    by (auto simp only: decode_one_def decode_slot_def result_simps)
  then have i: "if is_dword_load (ucast (fst s)) then \<exists>c. i = j\<lparr>imm := c\<rparr> else i = j"
    by (auto simp: result_simps split: if_splits)
  note f = refine_form [OF j wire_insn_form(3) wire_insn_form(1,2,4)]
  have oc: "opcode (wire_insn s) = ucast (fst s)"
    by (auto simp: wire_insn_def split: prod.splits)
  show ?thesis
  proof (cases "is_dword_load (ucast (fst s))")
    case False
    with i f show ?thesis by simp
  next
    case True
    then have "op_class (opcode j) = Ld" and "unat (opcode j) < 256" and "is_dword_load (opcode j)"
      using f oc wire_insn_form(3) [of s]
      by (auto simp: is_dword_load_def load_def op_class_def const_defs)
    with True i f wire_insn_form(1,2) [of s] oc show ?thesis
      by (auto simp: decoded_form_def canon_def is_alu_def)
  qed
qed


lemma decode_from_Nil [simp]: "decode_from off [] = Inr []"
  by (simp add: decode_from.simps)

lemma decode_encode:
  assumes "traverse encode is = Inr bss" and "\<forall>i \<in> set is. decoded_form i"
  shows "decode_from off (concat bss) = Inr is"
  using assms
proof (induction "is" arbitrary: bss off)
  case (Cons i "is")
  then obtain bs bss' where bs: "encode i = Inr bs" "bss = bs # bss'"
      "traverse encode is = Inr bss'"
    by (auto simp: result_simps)
  have len: "length bs = width i * INSTRUCTION_SIZE" by (rule encode_length [OF bs(1)])
  then have "bs \<noteq> []" by (auto simp: width_def INSTRUCTION_SIZE_def split: if_splits)
  moreover have "decode_one (bs @ concat bss') = Inr i"
    using Cons.prems(2) by (simp add: decode_one_encode [OF _ bs(1)])
  ultimately show ?case
    using Cons.IH [OF bs(3)] Cons.prems(2) by (simp add: bs decode_from.simps len)
qed simp

lemma decode_from_form:
  "decode_from off raw = Inr is \<Longrightarrow> i \<in> set is \<Longrightarrow>
     decoded_form (canon i) \<and> encode (canon i) = encode i"
proof (induction off raw arbitrary: "is" rule: decode_from.induct)
  case (1 off raw)
  show ?case
  proof (cases "raw = []")
    case True
    with "1.prems" show ?thesis by simp
  next
    case False
    with "1.prems"(1) obtain j js where j: "decode_one raw = Inr j" and "is = j # js"
      and js: "decode_from (off + width j * INSTRUCTION_SIZE) (drop (width j * INSTRUCTION_SIZE) raw) = Inr js"
      by (subst (asm) decode_from.simps) (auto simp: result_simps split: sum.splits)
    with "1.prems"(2) "1.IH" [OF False j js] decode_one_form [OF j] show ?thesis by auto
  qed
qed

text \<open>Encoding what was decoded is a normal form: decoding it again changes only \<open>canon\<close>.\<close>

lemma decode_encode_decode:
  assumes "decode raw = Inr is" and "traverse encode is = Inr bss"
  shows "decode (concat bss) = Inr (map canon is) \<and> traverse encode (map canon is) = Inr bss"
proof -
  have form: "decoded_form (canon i)" "encode (canon i) = encode i" if "i \<in> set is" for i
    using decode_from_form assms(1) that by (auto simp: decode_def)
  have "traverse encode (map canon is) = traverse encode is"
    using form(2) by (induction "is") auto
  with assms(2) have tr: "traverse encode (map canon is) = Inr bss" by simp
  moreover have "decode (concat bss) = Inr (map canon is)"
    unfolding decode_def using decode_encode [OF tr] form(1) by auto
  ultimately show ?thesis by simp
qed

end
