(* ===== verification/Ebpf.thy ===== *)
theory Ebpf
  imports Asm
begin

text \<open>
  The device filter builder of \<open>src/src/cgroup/ebpf.rs\<close>: the context loads, one block per
  device rule and the resolution of the jumps between the blocks. The device rule itself is
  \<open>DeviceRule\<close> of \<open>src/src/cgroup/api.rs\<close>.
\<close>

section \<open>Device rules\<close>

record device_rule =
  allow :: bool
  kind :: string
  major :: "int option"
  minor :: "int option"
  access :: string

definition number_text :: "int option \<Rightarrow> string" where
  "number_text v = (case v of None \<Rightarrow> ''<nil>'' | Some n \<Rightarrow> show_int n)"

definition go_struct_text :: "device_rule \<Rightarrow> string" where
  "go_struct_text rule =
     ''{Allow:'' @ (if allow rule then ''true'' else ''false'') @ '' Type:'' @ kind rule
     @ '' Major:'' @ number_text (major rule) @ '' Minor:'' @ number_text (minor rule)
     @ '' Access:'' @ access rule @ ''}''"

definition DEV_BLOCK :: i32 where "DEV_BLOCK = 1"
definition DEV_CHAR :: i32 where "DEV_CHAR = 2"
definition ACC_MKNOD :: i32 where "ACC_MKNOD = 1"
definition ACC_READ :: i32 where "ACC_READ = 2"
definition ACC_WRITE :: i32 where "ACC_WRITE = 4"
definition INIT_LEN :: nat where "INIT_LEN = 5"

lemmas dev_defs = DEV_BLOCK_def DEV_CHAR_def ACC_MKNOD_def ACC_READ_def ACC_WRITE_def

section \<open>The program being built\<close>

text \<open>
  A step is an instruction with the flag \<open>to_next_block\<close>; the jump offset of a flagged step is
  set when the program is laid out.
\<close>

record step =
  instruction :: instruction
  to_next_block :: bool

definition plain :: "instruction \<Rightarrow> step" where
  "plain i = \<lparr>instruction = i, to_next_block = False\<rparr>"

definition jump_step :: "instruction \<Rightarrow> step" where
  "jump_step i = \<lparr>instruction = i, to_next_block = True\<rparr>"

record program =
  init :: "instruction list"
  blocks :: "step list list"
  has_wild_card :: bool
  finalized :: bool

datatype rule_error =
    Finalized
  | InvalidType string
  | NoMajor
  | NoMinor
  | InvalidMajor int
  | InvalidMinor int
  | UnknownAccess char
  | NoOriginal

definition new_program :: program where
  "new_program =
     \<lparr>init = [load_mem R2 R1 0 HALF, load_mem R3 R1 0 WORD, alu32_imm RSH R3 16,
              load_mem R4 R1 4 WORD, load_mem R5 R1 8 WORD],
      blocks = [], has_wild_card = False, finalized = False\<rparr>"

definition instruction_count :: "program \<Rightarrow> nat" where
  "instruction_count p = INIT_LEN + sum_list (map length (blocks p))"

section \<open>Appending a rule\<close>

definition access_bit :: "char \<Rightarrow> (i32, rule_error) result" where
  "access_bit letter =
     (if letter = CHR ''r'' then Inr ACC_READ
      else if letter = CHR ''w'' then Inr ACC_WRITE
      else if letter = CHR ''m'' then Inr ACC_MKNOD
      else Inl (UnknownAccess letter))"

fun access_mask :: "i32 \<Rightarrow> string \<Rightarrow> (i32, rule_error) result" where
  "access_mask acc [] = Inr acc"
| "access_mask acc (l # ls) = bindR (access_bit l) (\<lambda>b. access_mask (acc OR b) ls)"

definition device_type :: "string \<Rightarrow> (i32 option, rule_error) result" where
  "device_type k =
     (if k = ''c'' then Inr (Some DEV_CHAR)
      else if k = ''b'' then Inr (Some DEV_BLOCK)
      else if k = ''a'' then Inr None
      else Inl (InvalidType k))"

definition U32_MAX :: int where "U32_MAX = 4294967295"

text \<open>
  The block of a rule, from the device type (\<open>None\<close> for \<open>a\<close>), the access mask and the two
  numbers, a negative one being the wildcard.
\<close>

definition type_check :: "i32 option \<Rightarrow> step list" where
  "type_check t = (case t of None \<Rightarrow> [] | Some v \<Rightarrow> [jump_step (jump_imm JNE R2 v (-1))])"

definition access_check :: "i32 \<Rightarrow> step list" where
  "access_check acc =
     (if acc \<noteq> ACC_READ OR ACC_WRITE OR ACC_MKNOD
      then [plain (alu32_reg MOV R6 R3), plain (alu32_imm AND_OP R6 acc),
            jump_step (jump_reg JNE R6 R3 (-1))]
      else [])"

definition number_check :: "register \<Rightarrow> int \<Rightarrow> step list" where
  "number_check r n =
     (if n \<ge> 0 then [jump_step (jump_imm JNE r (low_i32 (word_of_int n)) (-1))] else [])"

definition verdict_steps :: "bool \<Rightarrow> step list" where
  "verdict_steps b = [plain (alu32_imm MOV R0 (if b then 1 else 0)), plain exit_insn]"

definition rule_block :: "i32 option \<Rightarrow> i32 \<Rightarrow> int \<Rightarrow> int \<Rightarrow> bool \<Rightarrow> step list" where
  "rule_block t acc ma mi verdict =
     type_check t @ access_check acc @ number_check R4 ma @ number_check R5 mi
     @ verdict_steps verdict"

definition matches_all :: "i32 option \<Rightarrow> i32 \<Rightarrow> int \<Rightarrow> int \<Rightarrow> bool" where
  "matches_all t acc ma mi \<longleftrightarrow>
     t = None \<and> acc = ACC_READ OR ACC_WRITE OR ACC_MKNOD \<and> ma < 0 \<and> mi < 0"

text \<open>The checks of a rule, in the order the code makes them.\<close>

definition rule_fields :: "device_rule \<Rightarrow> (i32 option \<times> i32 \<times> int \<times> int, rule_error) result" where
  "rule_fields rule =
     bindR (device_type (kind rule)) (\<lambda>t.
     bindR (ok_or NoMajor (major rule)) (\<lambda>ma.
     bindR (ok_or NoMinor (minor rule)) (\<lambda>mi.
       if ma > U32_MAX then Inl (InvalidMajor ma)
       else if mi > U32_MAX then Inl (InvalidMinor mi)
       else bindR (access_mask 0 (access rule)) (\<lambda>acc. Inr (t, acc, ma, mi)))))"

definition append_device :: "program \<Rightarrow> device_rule \<Rightarrow> (program, rule_error) result" where
  "append_device p rule =
     (if finalized p then Inl Finalized
      else if has_wild_card p then Inr p
      else bindR (rule_fields rule) (\<lambda>(t, acc, ma, mi).
        Inr (p\<lparr>has_wild_card := has_wild_card p \<or> matches_all t acc ma mi,
               blocks := blocks p @ [rule_block t acc ma mi (allow rule)]\<rparr>)))"

fun append_devices :: "program \<Rightarrow> device_rule list \<Rightarrow> (program, rule_error) result" where
  "append_devices p [] = Inr p"
| "append_devices p (r # rs) = bindR (append_device p r) (\<lambda>q. append_devices q rs)"

section \<open>Layout\<close>

text \<open>\<open>jump_offset\<close> works on \<open>usize\<close>, 64 bits on the release targets.\<close>

definition jump_offset :: "nat \<Rightarrow> nat \<Rightarrow> i16" where
  "jump_offset target position =
     ucast (word_of_nat target - word_of_nat position - 1 :: u64)"

fun place_block :: "nat \<Rightarrow> nat \<Rightarrow> step list \<Rightarrow> instruction list" where
  "place_block next_start position [] = []"
| "place_block next_start position (s # ss) =
     (let i = (if to_next_block s
               then instruction s\<lparr>offset := jump_offset next_start position\<rparr>
               else instruction s)
      in i # place_block next_start (position + width i) ss)"

definition slots :: "instruction list \<Rightarrow> nat" where
  "slots is = sum_list (map width is)"

definition block_slots :: "step list \<Rightarrow> nat" where
  "block_slots b = sum_list (map (\<lambda>s. width (instruction s)) b)"

text \<open>
  The code computes every \<open>next_start\<close> first and then places the steps with a running position;
  the width of an instruction does not depend on its offset, so a block is placed at the sum of
  the widths before it.
\<close>

fun next_starts :: "nat \<Rightarrow> step list list \<Rightarrow> nat list" where
  "next_starts cursor [] = []"
| "next_starts cursor (b # bs) =
     (cursor + block_slots b) # next_starts (cursor + block_slots b) bs"

fun place_blocks :: "nat \<Rightarrow> (step list \<times> nat) list \<Rightarrow> instruction list" where
  "place_blocks position [] = []"
| "place_blocks position ((b, next_start) # rest) =
     (let placed = place_block next_start position b
      in placed @ place_blocks (position + slots placed) rest)"

definition layout :: "program \<Rightarrow> instruction list \<Rightarrow> instruction list \<Rightarrow> instruction list" where
  "layout p head tail =
     (let position = slots (head @ init p)
      in head @ init p
         @ place_blocks position (zip (blocks p) (next_starts position (blocks p)))
         @ tail)"

definition finalize :: "program \<Rightarrow> instruction list \<Rightarrow> instruction list \<times> program" where
  "finalize p original =
     (let q = p\<lparr>finalized := True\<rparr> in (layout q [] original, q))"

definition prepend_device_filter ::
  "device_rule list \<Rightarrow> instruction list \<Rightarrow> (instruction list, rule_error) result" where
  "prepend_device_filter rules original =
     (if original = [] then Inl NoOriginal
      else map_ok (\<lambda>p. fst (finalize p original)) (append_devices new_program (rev rules)))"

end
