(* ===== verification/Bpfinterp.thy ===== *)
theory Bpfinterp
  imports Ebpf
begin

text \<open>
  The device filter interpreter of \<open>src/src/cgroup/bpfinterp.rs\<close>: what a filter program
  answers for a request. A panic of the interpreter is \<open>None\<close>. The loop has the bound of the
  source, ten times the number of instructions and one more.
\<close>

section \<open>Requests\<close>

record dev_request =
  req_kind :: u32
  req_access :: u32
  req_major :: u32
  req_minor :: u32

definition char_request :: "u32 \<Rightarrow> u32 \<Rightarrow> u32 \<Rightarrow> dev_request" where
  "char_request ma mi acc =
     \<lparr>req_kind = DEV_CHAR, req_access = acc, req_major = ma, req_minor = mi\<rparr>"

definition block_request :: "u32 \<Rightarrow> u32 \<Rightarrow> u32 \<Rightarrow> dev_request" where
  "block_request ma mi acc =
     \<lparr>req_kind = DEV_BLOCK, req_access = acc, req_major = ma, req_minor = mi\<rparr>"

definition request_context :: "dev_request \<Rightarrow> bytes" where
  "request_context q =
     le32 (push_bit 16 (req_access q) OR req_kind q) @ le32 (req_major q) @ le32 (req_minor q)"

section \<open>One instruction\<close>

text \<open>
  The eleven registers are a list; an index beyond them panics, as does a load outside the
  twelve bytes of the context.
\<close>

type_synonym registers = "u64 list"

definition set_reg :: "registers \<Rightarrow> nat \<Rightarrow> u64 \<Rightarrow> registers option" where
  "set_reg rs n v = (if n < length rs then Some (rs[n := v]) else None)"

definition load_ctx :: "bytes \<Rightarrow> u32 \<Rightarrow> i16 \<Rightarrow> u64 option" where
  "load_ctx ctx sz off =
     (if sint off < 0 \<or> nat (sint off) > length ctx then None
      else let at = drop (nat (sint off)) ctx in
        if sz = WORD then
          (case at of b0 # b1 # b2 # b3 # _ \<Rightarrow> Some (ucast (of_le32 b0 b1 b2 b3)) | _ \<Rightarrow> None)
        else if sz = HALF then
          (case at of b0 # b1 # _ \<Rightarrow> Some (ucast (of_le16 b0 b1)) | _ \<Rightarrow> None)
        else if sz = BYTE then
          (case at of b0 # _ \<Rightarrow> Some (ucast b0) | _ \<Rightarrow> None)
        else None)"

definition trunc32 :: "u64 \<Rightarrow> u64" where
  "trunc32 v = ucast (ucast v :: u32)"

definition alu_value :: "bool \<Rightarrow> u32 \<Rightarrow> u64 \<Rightarrow> u64 \<Rightarrow> u64 option" where
  "alu_value is32 op value source =
     map_option (\<lambda>v. if is32 then trunc32 v else v)
       (if op = MOV then Some source
        else if op = AND_OP then Some (value AND source)
        else if op = OR_OP then Some (value OR source)
        else if op = LSH then Some (push_bit (unat (source AND 63)) value)
        else if op = RSH then
          Some (if is32 then ucast (drop_bit (unat (source AND 31)) (ucast value :: u32))
                else drop_bit (unat (source AND 63)) value)
        else None)"

definition jump_taken :: "u32 \<Rightarrow> u64 \<Rightarrow> u64 \<Rightarrow> bool option" where
  "jump_taken op left right =
     (if op = JEQ then Some (left = right)
      else if op = JNE then Some (left \<noteq> right)
      else if op = JGT then Some (left > right)
      else if op = JGE then Some (left \<ge> right)
      else if op = JLT then Some (left < right)
      else if op = JLE then Some (left \<le> right)
      else if op = JSET then Some (left AND right \<noteq> 0)
      else None)"

datatype outcome = Return u64 | Continue registers int

definition operand :: "registers \<Rightarrow> instruction \<Rightarrow> u64 option" where
  "operand rs i =
     (if op_source (opcode i) = REG_SOURCE then get_opt rs (unat (src i)) else Some (imm i))"

definition load_step :: "bytes \<Rightarrow> registers \<Rightarrow> instruction \<Rightarrow> outcome option" where
  "load_step ctx rs i =
     (if src i \<noteq> R1 then None
      else Option.bind (load_ctx ctx (op_size (opcode i)) (offset i)) (\<lambda>v.
           map_option (\<lambda>rs'. Continue rs' 0) (set_reg rs (unat (dst i)) v)))"

definition alu_step :: "registers \<Rightarrow> instruction \<Rightarrow> outcome option" where
  "alu_step rs i =
     Option.bind (operand rs i) (\<lambda>source.
     Option.bind (get_opt rs (unat (dst i))) (\<lambda>value.
     Option.bind (alu_value (op_class (opcode i) = Alu) (alu_op (opcode i)) value source) (\<lambda>v.
       map_option (\<lambda>rs'. Continue rs' 0) (set_reg rs (unat (dst i)) v))))"

definition jump_exec :: "registers \<Rightarrow> instruction \<Rightarrow> outcome option" where
  "jump_exec rs i =
     (if jump_op (opcode i) = EXIT then map_option Return (get_opt rs (unat R0))
      else if jump_op (opcode i) = JA then Some (Continue rs (sint (offset i)))
      else Option.bind (get_opt rs (unat (dst i))) (\<lambda>left.
           Option.bind (operand rs i) (\<lambda>right.
             let narrow = (if op_class (opcode i) = Jump32 then trunc32 else (\<lambda>v. v)) in
             map_option (\<lambda>taken. Continue rs (if taken then sint (offset i) else 0))
               (jump_taken (jump_op (opcode i)) (narrow left) (narrow right)))))"

text \<open>The jump distance an instruction asks for, or the verdict it returns.\<close>

definition exec_insn :: "bytes \<Rightarrow> registers \<Rightarrow> instruction \<Rightarrow> outcome option" where
  "exec_insn ctx rs i =
     (case op_class (opcode i) of
        LdX \<Rightarrow> load_step ctx rs i
      | Alu \<Rightarrow> alu_step rs i
      | Alu64 \<Rightarrow> alu_step rs i
      | Jump \<Rightarrow> jump_exec rs i
      | Jump32 \<Rightarrow> jump_exec rs i
      | _ \<Rightarrow> None)"

section \<open>The loop\<close>

definition fetch :: "instruction list \<Rightarrow> int \<Rightarrow> instruction option" where
  "fetch is pc = (if 0 \<le> pc \<and> pc < int (length is) then Some (is ! nat pc) else None)"

fun run_loop :: "nat \<Rightarrow> instruction list \<Rightarrow> bytes \<Rightarrow> registers \<Rightarrow> int \<Rightarrow> u64 option" where
  "run_loop 0 is ctx rs pc = None"
| "run_loop (Suc n) is ctx rs pc =
     Option.bind (fetch is pc) (\<lambda>i.
     Option.bind (exec_insn ctx rs i) (\<lambda>out.
       case out of
         Return v \<Rightarrow> Some v
       | Continue rs' d \<Rightarrow> run_loop n is ctx rs' (pc + d + 1)))"

definition run_insns :: "instruction list \<Rightarrow> dev_request \<Rightarrow> u64 option" where
  "run_insns is q =
     run_loop (10 * length is + 1) is (request_context q) (replicate 11 0) 0"

definition run_device_filter :: "bytes \<Rightarrow> dev_request \<Rightarrow> u64 option" where
  "run_device_filter raw q =
     (case decode raw of Inl e \<Rightarrow> None | Inr is \<Rightarrow> run_insns is q)"

section \<open>What the builder's instructions do\<close>

lemma R_nat [simp]:
  "unat R0 = 0" "unat R1 = 1" "unat R2 = 2" "unat R3 = 3" "unat R4 = 4" "unat R5 = 5" "unat R6 = 6"
  by (simp_all add: const_defs)

lemma ucast_32_64_32 [simp]: "ucast (ucast (w :: u32) :: u64) = w"
  by (rule bit_word_eqI) (simp add: bit_simps)

lemmas exec_defs = exec_insn_def op_class_def jump_def const_defs jump_exec_def jump_op_def
  op_source_def operand_def get_opt_def jump_taken_def alu_step_def alu_op_def alu_value_def
  set_reg_def trunc32_def

lemma exec_jne_imm:
  "unat r < length rs \<Longrightarrow>
   exec_insn ctx rs (jump_imm JNE r v off) =
     Some (Continue rs (if rs ! unat r \<noteq> scast v then sint off else 0))"
  by (simp add: exec_defs jump_imm_def)

lemma exec_jne_reg:
  "unat r < length rs \<Longrightarrow> unat s < length rs \<Longrightarrow>
   exec_insn ctx rs (jump_reg JNE r s off) =
     Some (Continue rs (if rs ! unat r \<noteq> rs ! unat s then sint off else 0))"
  by (simp add: exec_defs jump_reg_def)

lemma exec_exit: "0 < length rs \<Longrightarrow> exec_insn ctx rs exit_insn = Some (Return (rs ! 0))"
  by (simp add: exec_defs exit_insn_def)

lemma exec_mov_imm:
  "unat r < length rs \<Longrightarrow>
   exec_insn ctx rs (alu32_imm MOV r v) = Some (Continue (rs[unat r := ucast v]) 0)"
  by (simp add: exec_defs alu32_imm_def alu32_def)

lemma exec_mov_reg:
  "unat r < length rs \<Longrightarrow> unat s < length rs \<Longrightarrow>
   exec_insn ctx rs (alu32_reg MOV r s) = Some (Continue (rs[unat r := trunc32 (rs ! unat s)]) 0)"
  by (simp add: exec_defs alu32_reg_def alu32_def)

lemma exec_and_imm:
  "unat r < length rs \<Longrightarrow>
   exec_insn ctx rs (alu32_imm AND_OP r v) =
     Some (Continue (rs[unat r := trunc32 (rs ! unat r AND scast v)]) 0)"
  by (simp add: exec_defs alu32_imm_def alu32_def)

lemma exec_rsh_imm:
  "unat r < length rs \<Longrightarrow>
   exec_insn ctx rs (alu32_imm RSH r 16) =
     Some (Continue (rs[unat r := ucast (drop_bit 16 (ucast (rs ! unat r) :: u32))]) 0)"
  by (simp add: exec_defs alu32_imm_def alu32_def)

lemma exec_load:
  "unat r < length rs \<Longrightarrow> sz = WORD \<or> sz = HALF \<Longrightarrow> load_ctx ctx sz off = Some v \<Longrightarrow>
   exec_insn ctx rs (load_mem r R1 off sz) = Some (Continue (rs[unat r := v]) 0)"
  by (auto simp: exec_defs load_step_def load_mem_def load_x_def op_size_def)

section \<open>Code inside a program\<close>

definition code_at :: "instruction list \<Rightarrow> int \<Rightarrow> instruction list \<Rightarrow> bool" where
  "code_at code p is \<longleftrightarrow> 0 \<le> p \<and> (\<forall>j < length is. fetch code (p + int j) = Some (is ! j))"

lemma code_at_append:
  "code_at code p (xs @ ys) \<longleftrightarrow> code_at code p xs \<and> code_at code (p + int (length xs)) ys"
proof
  assume *: "code_at code p (xs @ ys)"
  have "fetch code (p + int (length xs) + int j) = Some (ys ! j)" if "j < length ys" for j
    using * that spec [of "\<lambda>j. j < length (xs @ ys) \<longrightarrow> fetch code (p + int j) = Some ((xs @ ys) ! j)"
        "length xs + j"]
    by (simp add: code_at_def add.assoc)
  moreover have "fetch code (p + int j) = Some (xs ! j)" if "j < length xs" for j
    using * that by (auto simp: code_at_def nth_append)
  ultimately show "code_at code p xs \<and> code_at code (p + int (length xs)) ys"
    using * by (simp add: code_at_def)
next
  assume *: "code_at code p xs \<and> code_at code (p + int (length xs)) ys"
  have "fetch code (p + int j) = Some ((xs @ ys) ! j)" if "j < length (xs @ ys)" for j
  proof (cases "j < length xs")
    case False
    then obtain i where "j = length xs + i" by (metis le_add_diff_inverse not_less)
    with * that show ?thesis by (simp add: code_at_def nth_append add.assoc [symmetric])
  qed (use * in \<open>auto simp: code_at_def nth_append\<close>)
  with * show "code_at code p (xs @ ys)" by (simp add: code_at_def)
qed

lemma code_at_Nil [simp]: "code_at code p [] \<longleftrightarrow> 0 \<le> p"
  by (simp add: code_at_def)

lemma code_at_Cons:
  "code_at code p (i # is) \<longleftrightarrow> 0 \<le> p \<and> fetch code p = Some i \<and> code_at code (p + 1) is"
  using code_at_append [of code p "[i]" "is"] by (auto simp: code_at_def)

lemma code_at_whole: "code_at (pre @ is @ post) (int (length pre)) is"
  by (auto simp: code_at_def fetch_def nth_append nat_add_distrib)

lemma run_loop_fetch:
  "fetch is pc = Some i \<Longrightarrow> exec_insn ctx rs i = Some (Continue rs' d) \<Longrightarrow>
   run_loop (Suc n) is ctx rs pc = run_loop n is ctx rs' (pc + d + 1)"
  by simp

lemma run_loop_return:
  "fetch is pc = Some i \<Longrightarrow> exec_insn ctx rs i = Some (Return v) \<Longrightarrow>
   run_loop (Suc n) is ctx rs pc = Some v"
  by simp

lemma run_loop_more_fuel:
  "run_loop n is ctx rs pc = Some v \<Longrightarrow> n \<le> m \<Longrightarrow> run_loop m is ctx rs pc = Some v"
proof (induction n arbitrary: m rs pc)
  case (Suc n)
  then obtain m' where "m = Suc m'" by (cases m) auto
  with Suc show ?case
    by (auto simp: bind_eq_Some_conv split: outcome.splits)
qed simp

text \<open>A program run after others behaves as it does alone.\<close>

lemma run_loop_after:
  "run_loop n is ctx rs pc = Some v \<Longrightarrow>
   run_loop n (pre @ is) ctx rs (int (length pre) + pc) = Some v"
proof (induction n arbitrary: rs pc)
  case (Suc n)
  have "fetch (pre @ is) (int (length pre) + pc) = fetch is pc" if "fetch is pc \<noteq> None"
    using that by (auto simp: fetch_def nth_append nat_add_distrib split: if_splits)
  with Suc show ?case
    by (auto simp: bind_eq_Some_conv add.assoc split: outcome.splits)
qed simp


section \<open>A rule block on a request\<close>

text \<open>
  A request of the kernel: a char or block device, and access bits among read, write and mknod.
\<close>

definition valid_request :: "dev_request \<Rightarrow> bool" where
  "valid_request q \<longleftrightarrow> req_kind q \<in> {DEV_CHAR, DEV_BLOCK} \<and> req_access q < 8"

text \<open>The registers once the context is loaded; the blocks keep this.\<close>

definition ctx_regs :: "dev_request \<Rightarrow> registers \<Rightarrow> bool" where
  "ctx_regs q rs \<longleftrightarrow> length rs = 11 \<and> rs ! 1 = 0 \<and> rs ! 10 = 0
     \<and> rs ! 2 = ucast (req_kind q) \<and> rs ! 3 = ucast (req_access q)
     \<and> rs ! 4 = ucast (req_major q) \<and> rs ! 5 = ucast (req_minor q)"

lemma ctx_regs_scratch [simp]: "ctx_regs q (rs[6 := v]) = ctx_regs q rs"
  by (simp add: ctx_regs_def)

lemma jump_offset_small: "d < 32768 \<Longrightarrow> sint (jump_offset (p + Suc d) p) = int d"
proof -
  assume d: "d < 32768"
  have "(word_of_nat (p + Suc d) - word_of_nat p - 1 :: u64) = word_of_nat d" by simp
  then have "jump_offset (p + Suc d) p = word_of_nat d"
    using d unfolding jump_offset_def by (simp add: unsigned_of_nat take_bit_nat_eq_self)
  with d show ?thesis
    by (simp add: signed_of_nat signed_take_bit_int_eq_self)
qed


definition check_run :: "dev_request \<Rightarrow> step list \<Rightarrow> bool \<Rightarrow> bool" where
  "check_run q steps c \<longleftrightarrow>
     (\<forall>code ctx p sp d rs.
        ctx_regs q rs \<and> length steps \<le> d \<and> d < 32768
        \<and> code_at code p (place_block (sp + d) sp steps) \<longrightarrow>
        (\<exists>k rs'. k \<le> length steps \<and> ctx_regs q rs'
           \<and> (\<forall>n. run_loop (k + n) code ctx rs p =
                run_loop n code ctx rs' (p + int (if c then length steps else d)))))"

lemma check_runI:
  assumes "\<And>code ctx p sp d rs. ctx_regs q rs \<Longrightarrow> length steps \<le> d \<Longrightarrow> d < 32768 \<Longrightarrow>
      code_at code p (place_block (sp + d) sp steps) \<Longrightarrow>
      \<exists>k rs'. k \<le> length steps \<and> ctx_regs q rs'
        \<and> (\<forall>n. run_loop (k + n) code ctx rs p =
             run_loop n code ctx rs' (p + int (if c then length steps else d)))"
  shows "check_run q steps c"
  using assms unfolding check_run_def by blast

lemma check_runE:
  assumes "check_run q steps c" and "ctx_regs q rs" and "length steps \<le> d" and "d < 32768"
    and "code_at code p (place_block (sp + d) sp steps)"
  obtains k rs' where "k \<le> length steps" and "ctx_regs q rs'"
    and "\<And>n. run_loop (k + n) code ctx rs p =
      run_loop n code ctx rs' (p + int (if c then length steps else d))"
proof -
  have "\<exists>k rs'. k \<le> length steps \<and> ctx_regs q rs'
      \<and> (\<forall>n. run_loop (k + n) code ctx rs p =
           run_loop n code ctx rs' (p + int (if c then length steps else d)))"
    by (rule assms(1) [unfolded check_run_def, rule_format, where sp = sp]) (intro conjI assms(2-5))
  then show thesis using that by blast
qed

lemma width_builder [simp]:
  "width (jump_imm op r v off) = 1" "width (jump_reg op r s off) = 1"
  "width (alu32_imm op r v) = 1" "width (alu32_reg op r s) = 1" "width exit_insn = 1"
  "width (load_mem r s off sz) = 1"
proof -
  have "bit (jump op s) 0" "bit (load_x op s) 0" "bit (alu32 op s) 2" for op s
    by (simp_all add: jump_def load_x_def alu32_def bit_or_iff)
  moreover have "\<not> bit (load MODE_IMM DWORD) 0" "\<not> bit (load MODE_IMM DWORD) 2"
    by (simp_all add: load_def const_defs)
  ultimately have "\<not> is_dword_load (jump op s)" "\<not> is_dword_load (load_x op s)"
      "\<not> is_dword_load (alu32 op s)" for op s
    unfolding is_dword_load_def by metis+
  then show
    "width (jump_imm op r v off) = 1" "width (jump_reg op r s off) = 1"
    "width (alu32_imm op r v) = 1" "width (alu32_reg op r s) = 1" "width exit_insn = 1"
    "width (load_mem r s off sz) = 1"
    by (simp_all add: width_def jump_imm_def jump_reg_def alu32_imm_def alu32_reg_def exit_insn_def
        load_mem_def)
qed

lemma set_offset [simp]:
  "(jump_imm op r v off)\<lparr>offset := off'\<rparr> = jump_imm op r v off'"
  "(jump_reg op r s off)\<lparr>offset := off'\<rparr> = jump_reg op r s off'"
  by (simp_all add: jump_imm_def jump_reg_def)

lemma width_offset [simp]: "width (i\<lparr>offset := off\<rparr>) = width i"
  by (simp add: width_def)

lemma place_block_append:
  "place_block ns sp (xs @ ys) = place_block ns sp xs @ place_block ns (sp + block_slots xs) ys"
  by (induction xs arbitrary: sp) (simp_all add: block_slots_def Let_def add.assoc)

lemma length_place_block [simp]: "length (place_block ns sp xs) = length xs"
  by (induction xs arbitrary: sp) (simp_all add: Let_def)

lemma check_run_append:
  assumes xs: "check_run q xs c1" and ys: "check_run q ys c2"
    and slots: "block_slots xs = length xs"
  shows "check_run q (xs @ ys) (c1 \<and> c2)"
proof (rule check_runI)
  fix code ctx p sp d rs
  assume regs: "ctx_regs q rs" and len: "length (xs @ ys) \<le> d" and d: "d < 32768"
    and code: "code_at code p (place_block (sp + d) sp (xs @ ys))"
  define e where "e = d - length xs"
  have e: "sp + d = (sp + length xs) + e" "length ys \<le> e" "e < 32768" "length xs + e = d"
    using len d by (auto simp: e_def)
  from code slots have cx: "code_at code p (place_block (sp + d) sp xs)"
    and cy: "code_at code (p + int (length xs)) (place_block (sp + d) (sp + length xs) ys)"
    by (simp_all add: place_block_append code_at_append)
  have lx: "length xs \<le> d" using len by simp
  obtain k rs' where k: "k \<le> length xs" "ctx_regs q rs'"
    and run: "\<And>n. run_loop (k + n) code ctx rs p =
      run_loop n code ctx rs' (p + int (if c1 then length xs else d))"
    by (rule check_runE [OF xs regs lx d cx, where ctx = ctx]) (rule that, assumption+)
  show "\<exists>k rs'. k \<le> length (xs @ ys) \<and> ctx_regs q rs' \<and>
      (\<forall>n. run_loop (k + n) code ctx rs p =
         run_loop n code ctx rs' (p + int (if c1 \<and> c2 then length (xs @ ys) else d)))"
  proof (cases c1)
    case False
    with k run show ?thesis by (intro exI [of _ k] exI [of _ rs']) simp
  next
    case True
    obtain k' rs'' where k': "k' \<le> length ys" "ctx_regs q rs''"
      and run': "\<And>n. run_loop (k' + n) code ctx rs' (p + int (length xs)) =
        run_loop n code ctx rs'' (p + int (length xs) + int (if c2 then length ys else e))"
      by (rule check_runE [OF ys k(2) e(2,3) cy [unfolded e(1)], where ctx = ctx]) (rule that, assumption+)
    have "run_loop (k + k' + n) code ctx rs p =
        run_loop n code ctx rs'' (p + int (if c2 then length (xs @ ys) else d))" for n
      using run [of "k' + n"] run' [of n] True by (auto simp: add.assoc e(4) [symmetric])
    with True k k' show ?thesis
      by (intro exI [of _ "k + k'"] exI [of _ rs'']) simp
  qed
qed


lemma check_run_Nil: "check_run q [] True"
  by (rule check_runI) (intro exI [of _ 0], auto)

lemma jump_at:
  assumes "ctx_regs q rs" and "fetch code p = Some i" and "Suc 0 \<le> d" and "d < 32768"
    and "exec_insn ctx rs i = Some (Continue rs (if c then 0 else sint (jump_offset (sp + d) sp)))"
  shows "\<exists>k rs'. k \<le> Suc 0 \<and> ctx_regs q rs'
        \<and> (\<forall>n. run_loop (k + n) code ctx rs p =
             run_loop n code ctx rs' (p + int (if c then Suc 0 else d)))"
proof -
  obtain e where e: "d = Suc e" using assms(3) by (cases d) auto
  then have "sint (jump_offset (sp + d) sp) = int e"
    using jump_offset_small [of e sp] assms(4) by simp
  then show ?thesis
    using assms e by (intro exI [of _ 1] exI [of _ rs]) (simp add: algebra_simps)
qed

lemma check_run_jump:
  assumes "\<And>ctx rs off. ctx_regs q rs \<Longrightarrow>
      exec_insn ctx rs (i\<lparr>offset := off\<rparr>) = Some (Continue rs (if c then 0 else sint off))"
  shows "check_run q [jump_step i] c"
proof (rule check_runI)
  fix code ctx p sp d rs
  assume "ctx_regs q rs" "length [jump_step i] \<le> d" "d < 32768"
    and code: "code_at code p (place_block (sp + d) sp [jump_step i])"
  then have "\<exists>k rs'. k \<le> Suc 0 \<and> ctx_regs q rs'
        \<and> (\<forall>n. run_loop (k + n) code ctx rs p =
             run_loop n code ctx rs' (p + int (if c then Suc 0 else d)))"
    by (intro jump_at [where sp = sp]) (auto simp: assms jump_step_def code_at_Cons Let_def)
  then show "\<exists>k rs'. k \<le> length [jump_step i] \<and> ctx_regs q rs'
        \<and> (\<forall>n. run_loop (k + n) code ctx rs p =
             run_loop n code ctx rs' (p + int (if c then length [jump_step i] else d)))"
    by (cases c) simp_all
qed

text \<open>What the checks of a block decide.\<close>

definition type_matches :: "i32 option \<Rightarrow> dev_request \<Rightarrow> bool" where
  "type_matches t q \<longleftrightarrow> t = None \<or> t = Some (req_kind q)"

definition access_matches :: "i32 \<Rightarrow> dev_request \<Rightarrow> bool" where
  "access_matches acc q \<longleftrightarrow> req_access q AND acc = req_access q"

text \<open>
  The immediate of a comparison is a sign-extended 32-bit number, so that a number from \<open>2^31\<close>
  on equals no register that was loaded as 32 bits.
\<close>

definition number_matches :: "int \<Rightarrow> u32 \<Rightarrow> bool" where
  "number_matches n v \<longleftrightarrow> n < 0 \<or> n < 2147483648 \<and> uint v = n"

lemma sign_extended_eq:
  "(ucast (v :: u32) :: u64) = scast (w :: i32) \<longleftrightarrow> v = w \<and> \<not> bit w 31"
proof
  assume eq: "(ucast v :: u64) = scast w"
  have "v = w" using arg_cong [OF eq, of "ucast :: u64 \<Rightarrow> u32"] by simp
  moreover have "bit (ucast v :: u64) 40 = bit (scast w :: u64) 40" by (simp add: eq)
  moreover have "\<not> bit w 40" using bit_imp_le_length [of w 40] by auto
  ultimately show "v = w \<and> \<not> bit w 31" by (simp add: bit_simps)
next
  assume *: "v = w \<and> \<not> bit w 31"
  have m: "bit w (min 31 n) = bit w n" for n
    using * bit_imp_le_length [of w n] by (cases "n \<le> 31") (auto simp: min_def le_less less_Suc_eq)
  show "(ucast v :: u64) = scast w"
    by (rule bit_word_eqI) (use * in \<open>simp add: bit_unsigned_iff bit_signed_iff m\<close>)
qed

lemma low_number:
  assumes "0 \<le> n" and "n \<le> U32_MAX"
  shows "uint (low_i32 (word_of_int n)) = n"
    and "bit (low_i32 (word_of_int n)) 31 \<longleftrightarrow> 2147483648 \<le> n"
proof -
  have low: "low_i32 (word_of_int n) = (word_of_int n :: i32)"
    by (simp add: low_i32_def low_u32_def unsigned_of_int take_bit_int_eq_self_iff)
       (simp add: word_of_int_eq_iff)
  show u: "uint (low_i32 (word_of_int n)) = n"
    using assms unfolding low
    by (simp add: unsigned_of_int take_bit_int_eq_self U32_MAX_def)
  have "bit (low_i32 (word_of_int n)) 31 \<longleftrightarrow> bit n 31"
    unfolding low by (simp add: bit_simps)
  also have "\<dots> \<longleftrightarrow> odd (n div 2147483648)"
    by (simp add: bit_iff_odd)
  also have "n div 2147483648 = (if n < 2147483648 then 0 else 1)"
    using assms by (auto simp: U32_MAX_def div_pos_pos_trivial intro!: int_div_pos_eq [where r = "n - 2147483648"])
  finally show "bit (low_i32 (word_of_int n)) 31 \<longleftrightarrow> 2147483648 \<le> n"
    by (auto split: if_splits)
qed

lemma check_run_type:
  assumes "t \<in> {None, Some DEV_CHAR, Some DEV_BLOCK}"
  shows "check_run q (type_check t) (type_matches t q)"
proof (cases t)
  case None
  then show ?thesis using check_run_Nil by (simp add: type_check_def type_matches_def)
next
  case (Some v)
  have "check_run q [jump_step (jump_imm JNE R2 v (-1))] (v = req_kind q)"
  proof (rule check_run_jump)
    fix ctx rs off
    assume "ctx_regs q rs"
    have "(ucast (req_kind q) :: u64) = scast v \<longleftrightarrow> v = req_kind q"
      using assms Some by (auto simp: sign_extended_eq dev_defs)
    with \<open>ctx_regs q rs\<close> show "exec_insn ctx rs ((jump_imm JNE R2 v (-1))\<lparr>offset := off\<rparr>)
        = Some (Continue rs (if v = req_kind q then 0 else sint off))"
      by (simp add: exec_jne_imm ctx_regs_def)
  qed
  with Some show ?thesis by (auto simp: type_check_def type_matches_def)
qed

lemma check_run_number:
  assumes "n \<le> U32_MAX"
    and reg: "\<And>rs. ctx_regs q rs \<Longrightarrow> unat r < length rs \<and> rs ! unat r = ucast v"
  shows "check_run q (number_check r n) (number_matches n v)"
proof (cases "0 \<le> n")
  case False
  then show ?thesis using check_run_Nil by (simp add: number_check_def number_matches_def)
next
  case True
  let ?w = "low_i32 (word_of_int n)"
  have eq: "(ucast v :: u64) = scast ?w \<longleftrightarrow> number_matches n v"
    using low_number [OF True assms(1)] True
    unfolding sign_extended_eq word_uint_eq_iff [of v] by (auto simp: number_matches_def)
  have "check_run q [jump_step (jump_imm JNE r ?w (-1))] (number_matches n v)"
    by (rule check_run_jump) (use reg in \<open>simp add: exec_jne_imm eq\<close>)
  with True show ?thesis by (simp add: number_check_def)
qed

lemma access_small:
  assumes "req_access q < 8" and "acc < 8"
  shows "trunc32 (ucast (req_access q) AND scast acc) = ucast (req_access q AND acc)"
proof -
  have "\<not> bit acc n" if "3 \<le> n" for n
  proof -
    have "acc = take_bit 3 acc"
      using assms(2) by (simp add: word_less_nat_alt word_unat_eq_iff unsigned_take_bit_eq take_bit_nat_eq_self)
    then show ?thesis using that by (metis bit_take_bit_iff not_le)
  qed
  then show ?thesis
    unfolding trunc32_def by (intro bit_word_eqI) (auto simp: bit_simps min_def split: if_splits)
qed

lemma check_run_access:
  assumes "valid_request q" and "acc < 8"
  shows "check_run q (access_check acc) (access_matches acc q)"
proof (cases "acc = ACC_READ OR ACC_WRITE OR ACC_MKNOD")
  case True
  then have "acc = mask 3" by (simp add: dev_defs mask_eq_exp_minus_1)
  moreover have "take_bit 3 (req_access q) = req_access q"
    using assms(1) by (simp add: valid_request_def word_less_nat_alt word_unat_eq_iff
        unsigned_take_bit_eq take_bit_nat_eq_self)
  ultimately have "access_matches acc q" by (simp add: access_matches_def take_bit_eq_mask)
  with True show ?thesis using check_run_Nil by (simp add: access_check_def)
next
  case False
  show ?thesis
  proof (rule check_runI)
    fix code ctx p sp d rs
    assume regs: "ctx_regs q rs" and len: "length (access_check acc) \<le> d" and d: "d < 32768"
      and code: "code_at code p (place_block (sp + d) sp (access_check acc))"
    define rs' where "rs' = rs[6 := trunc32 (rs ! 3)]"
    define rs'' where "rs'' = rs'[6 := trunc32 (rs' ! 6 AND scast acc)]"
    have regs'': "ctx_regs q rs''" using regs by (simp add: rs''_def rs'_def)
    have l: "length rs = 11" "length rs' = 11" "length rs'' = 11"
      using regs by (simp_all add: ctx_regs_def rs'_def rs''_def)
    from False len have "3 \<le> d" by (simp add: access_check_def)
    then obtain e where e: "d = 3 + e" by (auto simp: le_iff_add)
    define off where "off = jump_offset (sp + d) (sp + 2)"
    have f: "fetch code p = Some (alu32_reg MOV R6 R3)" "fetch code (p + 1) = Some (alu32_imm AND_OP R6 acc)"
      "fetch code (p + 2) = Some (jump_reg JNE R6 R3 off)"
      using code False by (simp_all add: access_check_def plain_def jump_step_def code_at_Cons Let_def
          add.commute [of 2] off_def)
    have off: "sint off = int e"
      using jump_offset_small [of e "sp + 2"] d e by (simp add: numeral_3_eq_3 off_def)
    have r6: "rs'' ! 6 = ucast (req_access q AND acc)"
      using regs assms l access_small [of q acc]
      by (simp add: rs''_def rs'_def ctx_regs_def valid_request_def trunc32_def)
    have "rs'' ! 3 = ucast (req_access q)" using regs'' by (simp add: ctx_regs_def)
    then have m: "rs'' ! 6 = rs'' ! 3 \<longleftrightarrow> access_matches acc q"
      unfolding r6 access_matches_def using ucast_32_64_32 by metis
    have "run_loop (Suc n) code ctx rs p = run_loop n code ctx rs' (p + 1)" for n
      using f(1) l by (simp add: exec_mov_reg rs'_def)
    moreover have "run_loop (Suc n) code ctx rs' (p + 1) = run_loop n code ctx rs'' (p + 2)" for n
      using f(2) l by (simp add: exec_and_imm rs''_def add.commute)
    moreover have "run_loop (Suc n) code ctx rs'' (p + 2) =
        run_loop n code ctx rs'' (p + 3 + (if access_matches acc q then 0 else int e))" for n
      using f(3) l by (simp add: exec_jne_reg off m algebra_simps)
    ultimately have "run_loop (3 + n) code ctx rs p = run_loop n code ctx rs''
        (p + int (if access_matches acc q then length (access_check acc) else d))" for n
      using False e by (simp add: numeral_3_eq_3 access_check_def add.assoc del: run_loop.simps)
    with regs'' False show "\<exists>k rs'. k \<le> length (access_check acc) \<and> ctx_regs q rs'
        \<and> (\<forall>n. run_loop (k + n) code ctx rs p = run_loop n code ctx rs'
              (p + int (if access_matches acc q then length (access_check acc) else d)))"
      by (intro exI [of _ 3] exI [of _ rs'']) (simp add: access_check_def)
  qed
qed


section \<open>Blocks in sequence\<close>

text \<open>The fields a rule is checked into, and whether a request matches them.\<close>

type_synonym fields = "i32 option \<times> i32 \<times> int \<times> int"

definition fields_match :: "fields \<Rightarrow> dev_request \<Rightarrow> bool" where
  "fields_match f q =
     (case f of (t, acc, ma, mi) \<Rightarrow>
        type_matches t q \<and> access_matches acc q
        \<and> number_matches ma (req_major q) \<and> number_matches mi (req_minor q))"

definition fields_ok :: "fields \<Rightarrow> bool" where
  "fields_ok f =
     (case f of (t, acc, ma, mi) \<Rightarrow>
        t \<in> {None, Some DEV_CHAR, Some DEV_BLOCK} \<and> acc < 8 \<and> ma \<le> U32_MAX \<and> mi \<le> U32_MAX)"

definition fields_block :: "fields \<Rightarrow> bool \<Rightarrow> step list" where
  "fields_block f b = (case f of (t, acc, ma, mi) \<Rightarrow> rule_block t acc ma mi b)"

definition verdict :: "bool \<Rightarrow> u64" where
  "verdict b = (if b then 1 else 0)"

lemma check_slots:
  "block_slots (type_check t) = length (type_check t)"
  "block_slots (access_check acc) = length (access_check acc)"
  "block_slots (number_check r n) = length (number_check r n)"
  "block_slots (verdict_steps b) = length (verdict_steps b)"
  by (simp_all add: block_slots_def type_check_def access_check_def number_check_def
      verdict_steps_def plain_def jump_step_def split: option.splits)

lemma block_slots_append [simp]: "block_slots (xs @ ys) = block_slots xs + block_slots ys"
  by (simp add: block_slots_def)

lemma fields_block_slots [simp]: "block_slots (fields_block f b) = length (fields_block f b)"
  by (simp add: fields_block_def rule_block_def check_slots split: prod.splits)

lemma fields_block_length: "length (fields_block f b) \<le> 8"
  by (auto simp: fields_block_def rule_block_def type_check_def access_check_def number_check_def
      verdict_steps_def split: prod.splits option.splits)

lemma check_run_fields:
  assumes "valid_request q" and "fields_ok (t, acc, ma, mi)"
  shows "check_run q (type_check t @ access_check acc @ number_check R4 ma @ number_check R5 mi)
    (fields_match (t, acc, ma, mi) q)"
proof -
  have "check_run q (number_check R4 ma) (number_matches ma (req_major q))"
    "check_run q (number_check R5 mi) (number_matches mi (req_minor q))"
    using assms(2) by (auto intro!: check_run_number simp: fields_ok_def ctx_regs_def)
  then show ?thesis
    unfolding fields_match_def prod.case using assms
    by (intro check_run_append check_run_type check_run_access) (auto simp: fields_ok_def check_slots)
qed

lemma block_run:
  assumes "valid_request q" and "fields_ok f" and regs: "ctx_regs q rs"
    and code: "code_at code p (place_block (sp + length (fields_block f b)) sp (fields_block f b))"
  shows "\<exists>k rs'. k \<le> length (fields_block f b) \<and> ctx_regs q rs'
    \<and> (\<forall>n. run_loop (k + n + 2) code ctx rs p =
          (if fields_match f q then Some (verdict b)
           else run_loop (n + 2) code ctx rs' (p + int (length (fields_block f b)))))"
proof -
  obtain t acc ma mi where f: "f = (t, acc, ma, mi)" by (cases f)
  let ?xs = "type_check t @ access_check acc @ number_check R4 ma @ number_check R5 mi"
  have blk: "fields_block f b = ?xs @ verdict_steps b"
    by (simp add: f fields_block_def rule_block_def)
  let ?d = "length (fields_block f b)"
  have xs: "block_slots ?xs = length ?xs" by (simp add: check_slots)
  have cx: "code_at code p (place_block (sp + ?d) sp ?xs)"
    and cv: "code_at code (p + int (length ?xs))
      (place_block (sp + ?d) (sp + length ?xs) (verdict_steps b))"
    using code unfolding blk place_block_append xs code_at_append by simp_all
  have len: "length ?xs \<le> ?d" "?d < 32768"
    using fields_block_length [of f b] by (simp_all add: blk)
  obtain k rs' where k: "k \<le> length ?xs" "ctx_regs q rs'"
    and run: "\<And>n. run_loop (k + n) code ctx rs p =
      run_loop n code ctx rs' (p + int (if fields_match f q then length ?xs else ?d))"
    by (rule check_runE [OF check_run_fields [OF assms(1) assms(2) [unfolded f]] regs len cx,
        where ctx = ctx]) (rule that, assumption+, simp add: f)
  have ret: "run_loop (n + 2) code ctx rs' (p + int (length ?xs)) = Some (verdict b)" for n
    using cv k(2)
    by (simp add: verdict_steps_def plain_def code_at_Cons eval_nat_numeral exec_mov_imm exec_exit
        ctx_regs_def verdict_def Let_def)
  have "run_loop (k + n + 2) code ctx rs p =
      (if fields_match f q then Some (verdict b)
       else run_loop (n + 2) code ctx rs' (p + int ?d))" for n
    using run [of "n + 2"] ret [of n] by (cases "fields_match f q") (simp_all only: add.assoc if_True if_False)
  with k len show ?thesis
    by (intro exI [of _ k] exI [of _ rs']) simp
qed

declare run_loop.simps [simp del]

lemma slots_place_block [simp]: "slots (place_block ns sp xs) = block_slots xs"
  by (induction xs arbitrary: sp) (simp_all add: slots_def block_slots_def Let_def)

definition blocks_of :: "(fields \<times> bool) list \<Rightarrow> step list list" where
  "blocks_of fbs = map (\<lambda>(f, b). fields_block f b) fbs"

definition placed :: "nat \<Rightarrow> step list list \<Rightarrow> instruction list" where
  "placed sp bs = place_blocks sp (zip bs (next_starts sp bs))"

lemma placed_Nil [simp]: "placed sp [] = []"
  by (simp add: placed_def)

lemma placed_Cons:
  "placed sp (b # bs) = place_block (sp + block_slots b) sp b @ placed (sp + block_slots b) bs"
  by (simp add: placed_def Let_def)

lemma length_placed [simp]: "length (placed sp bs) = sum_list (map length bs)"
  by (induction bs arbitrary: sp) (simp_all add: placed_Cons)

text \<open>The first matching rule answers, and a request no rule matches reaches what follows.\<close>

definition first_verdict :: "(fields \<times> bool) list \<Rightarrow> dev_request \<Rightarrow> bool option" where
  "first_verdict fbs q = map_option snd (find (\<lambda>(f, b). fields_match f q) fbs)"

lemma first_verdict_simps [simp]:
  "first_verdict [] q = None"
  "first_verdict ((f, b) # fbs) q = (if fields_match f q then Some b else first_verdict fbs q)"
  by (simp_all add: first_verdict_def)

lemma blocks_run:
  assumes "valid_request q" and "\<forall>(f, b) \<in> set fbs. fields_ok f" and "ctx_regs q rs"
    and "code_at code p (placed sp (blocks_of fbs))"
  shows "\<exists>k rs'. k \<le> length (placed sp (blocks_of fbs)) \<and> ctx_regs q rs'
    \<and> (\<forall>n. run_loop (k + n + 2) code ctx rs p =
          (case first_verdict fbs q of
             Some b \<Rightarrow> Some (verdict b)
           | None \<Rightarrow> run_loop (n + 2) code ctx rs' (p + int (length (placed sp (blocks_of fbs))))))"
  using assms(2-)
proof (induction fbs arbitrary: rs p sp)
  case Nil
  then show ?case by (intro exI [of _ 0] exI [of _ rs]) (simp add: blocks_of_def)
next
  case (Cons fb fbs)
  obtain f b where fb: "fb = (f, b)" by (cases fb)
  let ?B = "fields_block f b" and ?L = "length (placed sp (blocks_of (fb # fbs)))"
  have split: "placed sp (blocks_of (fb # fbs)) =
      place_block (sp + length ?B) sp ?B @ placed (sp + length ?B) (blocks_of fbs)"
    by (simp add: fb blocks_of_def placed_Cons)
  from Cons.prems(3) have code: "code_at code p (place_block (sp + length ?B) sp ?B)"
    "code_at code (p + int (length ?B)) (placed (sp + length ?B) (blocks_of fbs))"
    unfolding split code_at_append by simp_all
  have ok: "fields_ok f" "\<forall>(f, b) \<in> set fbs. fields_ok f" using Cons.prems(1) by (auto simp: fb)
  obtain k rs1 where k: "k \<le> length ?B" "ctx_regs q rs1"
    and run: "\<And>n. run_loop (k + n + 2) code ctx rs p =
      (if fields_match f q then Some (verdict b)
       else run_loop (n + 2) code ctx rs1 (p + int (length ?B)))"
    using block_run [OF assms(1) ok(1) Cons.prems(2) code(1), of ctx] by blast
  obtain k' rs2 where k': "k' \<le> length (placed (sp + length ?B) (blocks_of fbs))" "ctx_regs q rs2"
    and run': "\<And>n. run_loop (k' + n + 2) code ctx rs1 (p + int (length ?B)) =
      (case first_verdict fbs q of
         Some b \<Rightarrow> Some (verdict b)
       | None \<Rightarrow> run_loop (n + 2) code ctx rs2
           (p + int (length ?B) + int (length (placed (sp + length ?B) (blocks_of fbs)))))"
    using Cons.IH [OF ok(2) k(2) code(2)] by blast
  have len: "?L = length ?B + length (placed (sp + length ?B) (blocks_of fbs))"
    by (simp add: split)
  have "run_loop (k + k' + n + 2) code ctx rs p =
      (case first_verdict (fb # fbs) q of
         Some b \<Rightarrow> Some (verdict b) | None \<Rightarrow> run_loop (n + 2) code ctx rs2 (p + int ?L))" for n
    using run [of "k' + n"] run' [of n] len
    by (cases "fields_match f q"; cases "first_verdict fbs q") (simp_all add: fb add.assoc)
  with k k' len show ?case by (intro exI [of _ "k + k'"] exI [of _ rs2]) simp
qed


section \<open>The context loads and the markers\<close>

lemma ctx_loads:
  assumes "valid_request q"
  shows "load_ctx (request_context q) HALF 0 = Some (ucast (req_kind q))"
    and "load_ctx (request_context q) WORD 0 = Some (ucast (push_bit 16 (req_access q) OR req_kind q))"
    and "load_ctx (request_context q) WORD 4 = Some (ucast (req_major q))"
    and "load_ctx (request_context q) WORD 8 = Some (ucast (req_minor q))"
    and "drop_bit 16 (push_bit 16 (req_access q) OR req_kind q) = req_access q"
proof -
  have kind: "req_kind q = take_bit 2 (req_kind q)"
    using assms by (auto simp: valid_request_def dev_defs)
  have nk: "n < 8" if "bit (req_kind q) n" for n
  proof -
    have "n < 2" using that kind by (metis bit_take_bit_iff)
    then show ?thesis by simp
  qed
  have acc: "req_access q = take_bit 3 (req_access q)"
    using assms by (simp add: valid_request_def word_less_nat_alt word_unat_eq_iff unsigned_take_bit_eq
        take_bit_nat_eq_self)
  have na: "n < 16" if "bit (req_access q) n" for n
  proof -
    have "n < 3" using that acc by (metis bit_take_bit_iff)
    then show ?thesis by simp
  qed
  show "drop_bit 16 (push_bit 16 (req_access q) OR req_kind q) = req_access q"
    by (rule bit_word_eqI) (auto simp: bit_simps dest: na nk)
  have "(ucast (of_le16 (ucast (push_bit 16 (req_access q) OR req_kind q))
      (ucast (drop_bit 8 (push_bit 16 (req_access q) OR req_kind q)))) :: u64) = ucast (req_kind q)"
    unfolding of_le16_def by (rule bit_word_eqI) (auto simp: bit_simps dest: nk)
  then show "load_ctx (request_context q) HALF 0 = Some (ucast (req_kind q))"
    by (simp add: load_ctx_def request_context_def le32_def const_defs)
  have words: "load_ctx (le32 w @ le32 a @ le32 b) WORD 0 = Some (ucast w)"
    "load_ctx (le32 w @ le32 a @ le32 b) WORD 4 = Some (ucast a)"
    "load_ctx (le32 w @ le32 a @ le32 b) WORD 8 = Some (ucast b)" for w a b
    by (simp_all add: load_ctx_def le32_def of_le32_le32 const_defs)
  show "load_ctx (request_context q) WORD 0 = Some (ucast (push_bit 16 (req_access q) OR req_kind q))"
    "load_ctx (request_context q) WORD 4 = Some (ucast (req_major q))"
    "load_ctx (request_context q) WORD 8 = Some (ucast (req_minor q))"
    unfolding request_context_def by (rule words)+
qed

lemma init_run:
  assumes "valid_request q" and "length rs = 11" and "rs ! 1 = 0" and "rs ! 10 = 0"
    and code: "code_at code p (init new_program)"
  shows "\<exists>rs'. ctx_regs q rs' \<and>
    (\<forall>n. run_loop (n + 5) code (request_context q) rs p =
       run_loop n code (request_context q) rs' (p + 5))"
proof -
  let ?w = "push_bit 16 (req_access q) OR req_kind q"
  define rs' where "rs' = rs[2 := ucast (req_kind q), 3 := ucast ?w, 3 := ucast (req_access q),
      4 := ucast (req_major q), 5 := ucast (req_minor q)]"
  have "ctx_regs q rs'"
    using assms(2-4) by (simp add: ctx_regs_def rs'_def)
  moreover have "run_loop (n + 5) code (request_context q) rs p =
      run_loop n code (request_context q) rs' (p + 5)" for n
    using code assms(2) ctx_loads [OF assms(1)]
    by (simp add: new_program_def code_at_Cons eval_nat_numeral run_loop.simps exec_load exec_rsh_imm
        add.commute rs'_def)
  ultimately show ?thesis by blast
qed

lemma stores_run:
  assumes "0 < length rs" and "code_at code p (map (alu32_imm MOV R0) vs)"
  shows "\<exists>v. \<forall>n. run_loop (length vs + n) code ctx rs p =
    run_loop n code ctx (rs[0 := v]) (p + int (length vs))"
  using assms
proof (induction vs arbitrary: rs p)
  case Nil
  then show ?case by (intro exI [of _ "rs ! 0"]) simp
next
  case (Cons v vs)
  have "\<exists>w. \<forall>n. run_loop (length vs + n) code ctx (rs[0 := ucast v]) (p + 1) =
      run_loop n code ctx (rs[0 := ucast v, 0 := w]) (p + 1 + int (length vs))"
    using Cons.prems by (intro Cons.IH) (simp_all add: code_at_Cons)
  then obtain w where w: "\<And>n. run_loop (length vs + n) code ctx (rs[0 := ucast v]) (p + 1) =
      run_loop n code ctx (rs[0 := w]) (p + 1 + int (length vs))" by auto
  have "run_loop (Suc m) code ctx rs p = run_loop m code ctx (rs[0 := ucast v]) (p + 1)" for m
    using Cons.prems by (simp add: run_loop.simps code_at_Cons exec_mov_imm)
  with w show ?case by (intro exI [of _ w]) (simp add: algebra_simps)
qed

section \<open>Programs that read no unset register\<close>

text \<open>
  The kernel's verifier rejects a program that may read a register before writing it, the
  context pointer R1 and the frame pointer R10 excepted. \<open>run_tracked\<close> is the interpreter with
  that check: what it answers does not depend on what the other registers held.
\<close>

definition reads :: "instruction \<Rightarrow> nat list" where
  "reads i =
     (let source = (if op_source (opcode i) = REG_SOURCE then [unat (src i)] else []) in
      case op_class (opcode i) of
        Alu \<Rightarrow> (if alu_op (opcode i) = MOV then source else unat (dst i) # source)
      | Alu64 \<Rightarrow> (if alu_op (opcode i) = MOV then source else unat (dst i) # source)
      | Jump \<Rightarrow> (if jump_op (opcode i) = EXIT then [0]
                 else if jump_op (opcode i) = JA then [] else unat (dst i) # source)
      | Jump32 \<Rightarrow> (if jump_op (opcode i) = EXIT then [0]
                 else if jump_op (opcode i) = JA then [] else unat (dst i) # source)
      | _ \<Rightarrow> [])"

definition writes :: "instruction \<Rightarrow> nat list" where
  "writes i = (if op_class (opcode i) \<in> {LdX, Alu, Alu64} then [unat (dst i)] else [])"

fun tracked_loop ::
  "nat \<Rightarrow> instruction list \<Rightarrow> bytes \<Rightarrow> nat list \<Rightarrow> registers \<Rightarrow> int \<Rightarrow> u64 option" where
  "tracked_loop 0 is ctx known rs pc = None"
| "tracked_loop (Suc n) is ctx known rs pc =
     Option.bind (fetch is pc) (\<lambda>i.
     if \<not> list_all (\<lambda>r. r \<in> set known) (reads i) then None
     else Option.bind (exec_insn ctx rs i) (\<lambda>out.
       case out of
         Return v \<Rightarrow> Some v
       | Continue rs' d \<Rightarrow> tracked_loop n is ctx (writes i @ known) rs' (pc + d + 1)))"

definition tracked_insns :: "instruction list \<Rightarrow> dev_request \<Rightarrow> u64 option" where
  "tracked_insns is q =
     tracked_loop (10 * length is + 1) is (request_context q) [1, 10] (replicate 11 0) 0"

definition run_tracked :: "bytes \<Rightarrow> dev_request \<Rightarrow> u64 option" where
  "run_tracked raw q =
     (case decode raw of Inl e \<Rightarrow> None | Inr is \<Rightarrow> tracked_insns is q)"

definition agree :: "nat list \<Rightarrow> registers \<Rightarrow> registers \<Rightarrow> bool" where
  "agree known rs rs' \<longleftrightarrow>
     length rs = length rs' \<and> (\<forall>r \<in> set known. r < length rs \<longrightarrow> rs ! r = rs' ! r)"

lemma agree_get: "agree known rs rs' \<Longrightarrow> r \<in> set known \<Longrightarrow> get_opt rs r = get_opt rs' r"
  by (auto simp: agree_def get_opt_def)

lemma agree_set:
  "agree known rs rs' \<Longrightarrow> set_reg rs r v = Some rs1 \<Longrightarrow>
   \<exists>rs2. set_reg rs' r v = Some rs2 \<and> agree (r # known) rs1 rs2"
  by (auto simp: agree_def set_reg_def nth_list_update split: if_splits)

lemma agree_Nil_writes: "agree known rs rs' \<Longrightarrow> writes i = [] \<Longrightarrow> agree (writes i @ known) rs rs'"
  by simp

lemma agree_load:
  assumes "agree known rs rs'" and "op_class (opcode i) = LdX" and "load_step ctx rs i = Some out"
  shows "\<exists>rs1 rs2. out = Continue rs1 0 \<and> load_step ctx rs' i = Some (Continue rs2 0)
    \<and> agree (writes i @ known) rs1 rs2"
  using assms agree_set [OF assms(1)]
  by (force simp: load_step_def writes_def bind_eq_Some_conv split: if_splits)

lemma operand_agree:
  assumes "agree known rs rs'" and "op_source (opcode i) = REG_SOURCE \<Longrightarrow> unat (src i) \<in> set known"
  shows "operand rs i = operand rs' i"
  using assms agree_get by (simp add: operand_def)

lemma agree_alu:
  assumes agr: "agree known rs rs'" and cls: "is_alu (op_class (opcode i))"
    and rd: "set (reads i) \<subseteq> set known" and ex: "alu_step rs i = Some out"
  shows "\<exists>rs1 rs2. out = Continue rs1 0 \<and> alu_step rs' i = Some (Continue rs2 0)
    \<and> agree (writes i @ known) rs1 rs2"
proof -
  let ?op = "alu_op (opcode i)" and ?w = "op_class (opcode i) = Alu"
  from ex obtain s v x rs1 where s: "operand rs i = Some s" and v: "get_opt rs (unat (dst i)) = Some v"
    and x: "alu_value ?w ?op v s = Some x" and rs1: "set_reg rs (unat (dst i)) x = Some rs1"
    and out: "out = Continue rs1 0"
    by (auto simp: alu_step_def bind_eq_Some_conv)
  have s': "operand rs' i = Some s"
    using s operand_agree [OF agr, of i] rd cls
    by (auto simp: reads_def is_alu_def Let_def split: if_splits)
  obtain v' where v': "get_opt rs' (unat (dst i)) = Some v'"
    using v agr by (auto simp: get_opt_def agree_def split: if_splits)
  have x': "alu_value ?w ?op v' s = Some x"
  proof (cases "?op = MOV")
    case False
    then have "v' = v"
      using agree_get [OF agr, of "unat (dst i)"] v v' rd cls
      by (auto simp: reads_def is_alu_def Let_def)
    with x show ?thesis by simp
  qed (use x in \<open>simp add: alu_value_def\<close>)
  obtain rs2 where "set_reg rs' (unat (dst i)) x = Some rs2" "agree (unat (dst i) # known) rs1 rs2"
    using agree_set [OF agr rs1] by blast
  with s' v' x' out cls show ?thesis
    by (intro exI [of _ rs1] exI [of _ rs2]) (auto simp: alu_step_def writes_def is_alu_def)
qed

lemma agree_jump:
  assumes agr: "agree known rs rs'" and cls: "is_jump (op_class (opcode i))"
    and rd: "set (reads i) \<subseteq> set known" and ex: "jump_exec rs i = Some out"
  shows "(\<exists>v. out = Return v \<and> jump_exec rs' i = Some (Return v))
    \<or> (\<exists>d. out = Continue rs d \<and> jump_exec rs' i = Some (Continue rs' d))"
proof (cases "jump_op (opcode i) = EXIT \<or> jump_op (opcode i) = JA")
  case True
  then show ?thesis
    using ex agree_get [OF agr, of 0] rd cls
    by (auto simp: jump_exec_def reads_def is_jump_def Let_def)
next
  case False
  then have "get_opt rs (unat (dst i)) = get_opt rs' (unat (dst i))" "operand rs i = operand rs' i"
    using agree_get [OF agr, of "unat (dst i)"] operand_agree [OF agr, of i] rd cls
    by (auto simp: reads_def is_jump_def Let_def split: if_splits)
  with ex False show ?thesis
    by (auto simp: jump_exec_def bind_eq_Some_conv Let_def)
qed


lemma agree_exec:
  assumes agr: "agree known rs rs'" and rd: "set (reads i) \<subseteq> set known"
    and ex: "exec_insn ctx rs i = Some out"
  shows "(\<exists>v. out = Return v \<and> exec_insn ctx rs' i = Some (Return v))
    \<or> (\<exists>rs1 rs2 d. out = Continue rs1 d \<and> exec_insn ctx rs' i = Some (Continue rs2 d)
         \<and> agree (writes i @ known) rs1 rs2)"
proof (cases "op_class (opcode i)")
  case LdX
  with agree_load [OF agr LdX, of ctx out] ex show ?thesis by (auto simp: exec_insn_def)
next
  case Alu
  with agree_alu [OF agr _ rd, of out] ex show ?thesis by (auto simp: exec_insn_def is_alu_def)
next
  case Alu64
  with agree_alu [OF agr _ rd, of out] ex show ?thesis by (auto simp: exec_insn_def is_alu_def)
next
  case Jump
  with agree_jump [OF agr _ rd, of out] ex agr show ?thesis
    by (auto simp: exec_insn_def is_jump_def writes_def)
next
  case Jump32
  with agree_jump [OF agr _ rd, of out] ex agr show ?thesis
    by (auto simp: exec_insn_def is_jump_def writes_def)
qed (use ex in \<open>simp_all add: exec_insn_def\<close>)

lemma tracked_run_loop:
  "tracked_loop n is ctx known rs pc = Some v \<Longrightarrow> agree known rs rs' \<Longrightarrow>
   run_loop n is ctx rs' pc = Some v"
proof (induction n arbitrary: known rs rs' pc)
  case (Suc n)
  from Suc.prems(1) obtain i out where i: "fetch is pc = Some i"
    and rd: "set (reads i) \<subseteq> set known" and out: "exec_insn ctx rs i = Some out"
    and rest: "(case out of Return v \<Rightarrow> Some v
      | Continue rs1 d \<Rightarrow> tracked_loop n is ctx (writes i @ known) rs1 (pc + d + 1)) = Some v"
    by (auto simp: bind_eq_Some_conv list_all_iff split: if_splits)
  from agree_exec [OF Suc.prems(2) rd out] show ?case
    using rest Suc.IH i by (fastforce simp: run_loop.simps)
qed simp

declare tracked_loop.simps [simp del]

lemma run_tracked_run: "run_tracked raw q = Some v \<Longrightarrow> run_device_filter raw q = Some v"
  by (auto simp: run_tracked_def run_device_filter_def tracked_insns_def run_insns_def
      agree_def elim!: tracked_run_loop split: sum.splits)

section \<open>A wrapped program\<close>

lemma head_run:
  assumes "valid_request q" and "code_at code 0 (map (alu32_imm MOV R0) hs @ init new_program)"
  shows "\<exists>rs. ctx_regs q rs \<and>
    (\<forall>n. run_loop (length hs + (n + 5)) code (request_context q) (replicate 11 0) 0 =
       run_loop n code (request_context q) rs (int (length hs) + 5))"
proof -
  let ?rs = "replicate 11 (0 :: u64)"
  have ch: "code_at code 0 (map (alu32_imm MOV R0) hs)"
    and ci: "code_at code (int (length hs)) (init new_program)"
    using assms(2) by (simp_all add: code_at_append)
  obtain w where h: "\<And>n. run_loop (length hs + n) code (request_context q) ?rs 0 =
      run_loop n code (request_context q) (?rs[0 := w]) (int (length hs))"
    using stores_run [OF _ ch, of ?rs "request_context q"] by auto
  have "length (?rs[0 := w]) = 11" "(?rs[0 := w]) ! 1 = 0" "(?rs[0 := w]) ! 10 = 0"
    by simp_all
  from init_run [OF assms(1) this ci] show ?thesis unfolding h by blast
qed

lemma tail_run:
  assumes "ctx_regs q rs" and orig: "tracked_insns original q = Some v"
    and code: "code = pre @ map (alu32_imm MOV R0) ts @ original"
    and fuel: "length ts + (10 * length original + 1) \<le> n"
  shows "run_loop n code (request_context q) rs (int (length pre)) = Some v"
proof -
  have "code_at code (int (length pre)) (map (alu32_imm MOV R0) ts)"
    unfolding code by (rule code_at_whole)
  moreover have "0 < length rs" using assms(1) by (simp add: ctx_regs_def)
  ultimately obtain w where t: "\<And>n. run_loop (length ts + n) code (request_context q) rs (int (length pre))
      = run_loop n code (request_context q) (rs[0 := w]) (int (length pre) + int (length ts))"
    using stores_run [of rs code "int (length pre)" ts "request_context q"] by auto
  have "agree [1, 10] (replicate 11 0) (rs[0 := w])"
    using assms(1) by (simp add: agree_def ctx_regs_def)
  with orig have "run_loop (10 * length original + 1) original (request_context q) (rs[0 := w]) 0 = Some v"
    using tracked_run_loop unfolding tracked_insns_def by blast
  from run_loop_after [OF this, of "pre @ map (alu32_imm MOV R0) ts"]
  have o: "run_loop (10 * length original + 1) code (request_context q) (rs[0 := w])
      (int (length pre) + int (length ts)) = Some v"
    by (simp add: code)
  obtain m where m: "n = length ts + m" "10 * length original + 1 \<le> m"
    using fuel by (auto simp: le_iff_add)
  show ?thesis unfolding m(1) t by (rule run_loop_more_fuel [OF o m(2)])
qed

lemma wrapped_run:
  assumes valid: "valid_request q" and ok: "\<forall>(f, b) \<in> set fbs. fields_ok f"
    and code: "code = map (alu32_imm MOV R0) hs @ init new_program @ placed sp (blocks_of fbs)
      @ map (alu32_imm MOV R0) ts @ original"
    and orig: "tracked_insns original q = Some v"
  shows "run_insns code q =
    Some (case first_verdict fbs q of Some b \<Rightarrow> verdict b | None \<Rightarrow> v)"
proof -
  let ?ctx = "request_context q" and ?B = "placed sp (blocks_of fbs)"
  let ?pre = "map (alu32_imm MOV R0) hs @ init new_program"
  have i5: "length (init new_program) = 5" by (simp add: new_program_def)
  have "code_at code 0 (?pre @ ?B)"
    using code_at_whole [of "[]" "?pre @ ?B" "map (alu32_imm MOV R0) ts @ original"]
    by (simp add: code)
  then have cp: "code_at code 0 ?pre" and cb: "code_at code (int (length hs) + 5) ?B"
    by (simp_all add: code_at_append i5 add.assoc)
  obtain rs where rs: "ctx_regs q rs" and h: "\<And>n. run_loop (length hs + (n + 5)) code ?ctx
      (replicate 11 0) 0 = run_loop n code ?ctx rs (int (length hs) + 5)"
    using head_run [OF valid cp] by blast
  obtain k rs' where k: "k \<le> length ?B" and rs': "ctx_regs q rs'"
    and b: "\<And>n. run_loop (k + n + 2) code ?ctx rs (int (length hs) + 5) =
      (case first_verdict fbs q of Some b \<Rightarrow> Some (verdict b)
       | None \<Rightarrow> run_loop (n + 2) code ?ctx rs' (int (length hs) + 5 + int (length ?B)))"
    using blocks_run [OF valid ok rs cb, of ?ctx] by blast
  let ?n = "\<lambda>e. length ts + (10 * length original + 1) + e"
  have "length hs + ((k + ?n 0 + 2) + 5) \<le> 10 * length code + 1"
    using k by (simp add: code i5)
  then obtain e where fuel: "10 * length code + 1 = length hs + ((k + ?n e + 2) + 5)"
    by (auto simp: le_iff_add add.assoc)
  have "run_loop (?n e + 2) code ?ctx rs' (int (length (?pre @ ?B))) = Some v"
    by (rule tail_run [OF rs' orig]) (simp add: code, linarith)
  then have "run_loop (10 * length code + 1) code ?ctx (replicate 11 0) 0 =
    Some (case first_verdict fbs q of Some b \<Rightarrow> verdict b | None \<Rightarrow> v)"
    unfolding fuel h b by (simp add: i5 add.assoc split: option.split)
  then show ?thesis by (simp add: run_insns_def)
qed

section \<open>What a rule set decides\<close>

text \<open>
  A rule as its fields say it: the device type, every requested access bit among the rule's
  letters, and the numbers. The last matching rule of a set decides.
\<close>

definition kind_matches :: "string \<Rightarrow> dev_request \<Rightarrow> bool" where
  "kind_matches k q \<longleftrightarrow>
     k = ''a'' \<or> k = ''c'' \<and> req_kind q = DEV_CHAR \<or> k = ''b'' \<and> req_kind q = DEV_BLOCK"

definition letters_match :: "string \<Rightarrow> dev_request \<Rightarrow> bool" where
  "letters_match ls q \<longleftrightarrow>
     (req_access q AND ACC_READ \<noteq> 0 \<longrightarrow> CHR ''r'' \<in> set ls)
     \<and> (req_access q AND ACC_WRITE \<noteq> 0 \<longrightarrow> CHR ''w'' \<in> set ls)
     \<and> (req_access q AND ACC_MKNOD \<noteq> 0 \<longrightarrow> CHR ''m'' \<in> set ls)"

definition rule_matches :: "device_rule \<Rightarrow> dev_request \<Rightarrow> bool" where
  "rule_matches r q \<longleftrightarrow>
     kind_matches (kind r) q \<and> letters_match (access r) q
     \<and> (\<exists>ma \<in> set_option (major r). number_matches ma (req_major q))
     \<and> (\<exists>mi \<in> set_option (minor r). number_matches mi (req_minor q))"

definition rules_verdict :: "device_rule list \<Rightarrow> dev_request \<Rightarrow> bool option" where
  "rules_verdict rules q = map_option allow (find (\<lambda>r. rule_matches r q) (rev rules))"

lemma access_mask_bits:
  "access_mask acc ls = Inr m \<Longrightarrow>
     bit m n \<longleftrightarrow> bit acc n \<or> (n = 1 \<and> CHR ''r'' \<in> set ls) \<or> (n = 2 \<and> CHR ''w'' \<in> set ls)
       \<or> (n = 0 \<and> CHR ''m'' \<in> set ls)"
proof (induction ls arbitrary: acc)
  case (Cons l ls)
  have b: "bit ACC_READ n \<longleftrightarrow> n = 1" "bit ACC_WRITE n \<longleftrightarrow> n = 2" "bit ACC_MKNOD n \<longleftrightarrow> n = 0"
    using bit_exp_iff [where 'a = i32, of 1 n] bit_exp_iff [where 'a = i32, of 2 n]
    by (auto simp: dev_defs bit_1_iff)
  show ?case
    using Cons by (auto simp: access_bit_def result_simps bit_or_iff b split: if_splits)
qed simp

lemma word_and_bit: "(w :: u32) AND push_bit n 1 \<noteq> 0 \<longleftrightarrow> bit w n"
  by (simp add: bit_iff_and_push_bit_not_eq_0)

lemma acc_push: "ACC_READ = push_bit 1 1" "ACC_WRITE = push_bit 2 1" "ACC_MKNOD = push_bit 0 1"
  by (simp_all add: dev_defs push_bit_eq_mult)

lemma access_matches_letters:
  assumes "access_mask 0 ls = Inr m" and "req_access q < 8"
  shows "access_matches m q = letters_match ls q"
proof -
  have "req_access q = take_bit 3 (req_access q)"
    using assms(2) by (simp add: word_less_nat_alt word_unat_eq_iff unsigned_take_bit_eq take_bit_nat_eq_self)
  then have small: "n < 3" if "bit (req_access q) n" for n
    using that by (metis bit_take_bit_iff)
  have "access_matches m q \<longleftrightarrow> (\<forall>n. bit (req_access q) n \<longrightarrow> bit m n)"
  proof
    assume m: "access_matches m q"
    have "bit (req_access q AND m) n" if "bit (req_access q) n" for n
      using m that by (simp add: access_matches_def)
    then show "\<forall>n. bit (req_access q) n \<longrightarrow> bit m n" by (auto simp: bit_and_iff)
  qed (auto simp: access_matches_def bit_eq_iff bit_and_iff)
  also have "\<dots> \<longleftrightarrow> (\<forall>n < 3. bit (req_access q) n \<longrightarrow> bit m n)"
    using small by blast
  also have "\<dots> \<longleftrightarrow> letters_match ls q"
    unfolding letters_match_def acc_push word_and_bit
    by (auto simp: access_mask_bits [OF assms(1)] eval_nat_numeral less_Suc_eq)
  finally show ?thesis .
qed

lemma access_mask_small: "access_mask 0 ls = Inr m \<Longrightarrow> m < 8"
proof -
  assume m: "access_mask 0 ls = Inr m"
  have "m = take_bit 3 m"
    by (rule bit_word_eqI) (auto simp: bit_take_bit_iff access_mask_bits [OF m])
  then have "unat m = take_bit 3 (unat m)"
    by (metis unsigned_take_bit_eq)
  then show "m < 8"
    using take_bit_nat_less_exp [of 3 "unat m"] by (simp add: word_less_nat_alt)
qed

lemma rule_fields_ok: "rule_fields r = Inr f \<Longrightarrow> fields_ok f"
  by (auto simp: rule_fields_def result_simps fields_ok_def device_type_def access_mask_small
      split: if_splits)

lemma rule_fields_match:
  assumes "rule_fields r = Inr f" and "valid_request q"
  shows "fields_match f q = rule_matches r q"
proof -
  have kinds: "DEV_CHAR \<noteq> DEV_BLOCK" by (simp add: dev_defs)
  from assms access_matches_letters [of "access r" _ q] show ?thesis
    by (auto simp: rule_fields_def result_simps fields_match_def rule_matches_def type_matches_def
        kind_matches_def device_type_def valid_request_def kinds split: if_splits)
qed


lemma matches_all_match:
  "matches_all t acc ma mi \<Longrightarrow> valid_request q \<Longrightarrow> fields_match (t, acc, ma, mi) q"
proof -
  assume all: "matches_all t acc ma mi" and "valid_request q"
  then have "take_bit 3 (req_access q) = req_access q"
    by (simp add: valid_request_def word_less_nat_alt word_unat_eq_iff unsigned_take_bit_eq
        take_bit_nat_eq_self)
  moreover have "ACC_READ OR ACC_WRITE OR ACC_MKNOD = mask 3"
    by (simp add: dev_defs mask_eq_exp_minus_1)
  ultimately show ?thesis
    using all by (simp add: matches_all_def fields_match_def type_matches_def access_matches_def
        number_matches_def take_bit_eq_mask)
qed

text \<open>
  The fields of the rules that get a block: the rules in the order they are appended, up to and
  with the first one that matches everything.
\<close>

fun effective_fields :: "device_rule list \<Rightarrow> (fields \<times> bool) list" where
  "effective_fields [] = []"
| "effective_fields (r # rs) =
     (case rule_fields r of
        Inl e \<Rightarrow> []
      | Inr (t, acc, ma, mi) \<Rightarrow>
          ((t, acc, ma, mi), allow r)
            # (if matches_all t acc ma mi then [] else effective_fields rs))"

lemma effective_fields_ok: "\<forall>(f, b) \<in> set (effective_fields rs). fields_ok f"
  by (induction rs) (auto split: sum.splits dest: rule_fields_ok [OF sym])

lemma append_devices_wild: "has_wild_card p \<Longrightarrow> \<not> finalized p \<Longrightarrow> append_devices p rs = Inr p"
  by (induction rs) (simp_all add: append_device_def)

lemma append_devices_blocks:
  assumes "append_devices p rs = Inr p'" and "\<not> finalized p" and "\<not> has_wild_card p"
  shows "blocks p' = blocks p @ blocks_of (effective_fields rs) \<and> init p' = init p
    \<and> (\<forall>q. valid_request q \<longrightarrow>
         first_verdict (effective_fields rs) q = map_option allow (find (\<lambda>r. rule_matches r q) rs))"
  using assms
proof (induction rs arbitrary: p)
  case Nil
  then show ?case by (simp add: blocks_of_def)
next
  case (Cons r rs)
  from Cons.prems obtain t acc ma mi where f: "rule_fields r = Inr (t, acc, ma, mi)"
    and rest: "append_devices (p\<lparr>has_wild_card := matches_all t acc ma mi,
      blocks := blocks p @ [rule_block t acc ma mi (allow r)]\<rparr>) rs = Inr p'" (is "append_devices ?p1 rs = _")
    by (auto simp: append_device_def result_simps)
  have head: "fields_match (t, acc, ma, mi) q = rule_matches r q" if "valid_request q" for q
    by (rule rule_fields_match [OF f that])
  show ?case
  proof (cases "matches_all t acc ma mi")
    case True
    then have "p' = ?p1" using rest append_devices_wild [of ?p1] Cons.prems(2) by simp
    with True f head matches_all_match [OF True] show ?thesis
      by (auto simp: blocks_of_def fields_block_def)
  next
    case False
    with Cons.IH [OF rest] Cons.prems f head show ?thesis
      by (auto simp: blocks_of_def fields_block_def)
  qed
qed

lemma new_program_blocks:
  assumes "append_devices new_program (rev rs) = Inr p"
  shows "blocks p = blocks_of (effective_fields (rev rs))"
    and "init p = init new_program"
    and "valid_request q \<Longrightarrow> first_verdict (effective_fields (rev rs)) q = rules_verdict rs q"
  using append_devices_blocks [OF assms] by (auto simp: new_program_def rules_verdict_def)

lemma layout_placed:
  "layout p head tail = head @ init p @ placed (slots (head @ init p)) (blocks p) @ tail"
  by (simp add: layout_def placed_def Let_def)

end
