(* ===== verification/Owned.thy ===== *)
theory Owned
  imports Bpfinterp
begin

text \<open>
  The daemon's wrapper of \<open>src/src/cgroup/owned.rs\<close>: HEADER, context loads, rule blocks,
  TRAILER, original. It is emitted from the rules, a nonce and the original's bytes, taken
  apart again, and accepted only when it regenerates byte for byte. The SHA-256 of the
  \<open>sha2\<close> crate is the argument \<open>sha\<close>.
\<close>

section \<open>Canonical bytes\<close>

definition MAGIC_LO :: u32 where "MAGIC_LO = 0x5f414453"
definition MAGIC_HI :: u32 where "MAGIC_HI = 0x4b4c4244"
definition FORMAT_VERSION :: u32 where "FORMAT_VERSION = 1"
definition HEADER_LEN :: nat where "HEADER_LEN = 10"
definition TRAILER_LEN :: nat where "TRAILER_LEN = 4"
definition WILDCARD :: int where "WILDCARD = -1"

lemmas magic_defs = MAGIC_LO_def MAGIC_HI_def FORMAT_VERSION_def
lemmas len_defs = HEADER_LEN_def TRAILER_LEN_def INIT_LEN_def

record owned_program =
  nonce :: u64
  rules :: "device_rule list"
  original :: bytes

text \<open>The loop shared by \<open>canonical_bytes\<close> and \<open>emit_owned\<close>; the error carries the index.\<close>

fun encode_all :: "nat \<Rightarrow> instruction list \<Rightarrow> (bytes, nat \<times> encode_cause) result" where
  "encode_all index [] = Inr []"
| "encode_all index (i # is) =
     (case encode i of
        Inl cause \<Rightarrow> Inl (index, cause)
      | Inr bs \<Rightarrow> map_ok ((@) bs) (encode_all (Suc index) is))"

definition canonical_bytes :: "instruction list \<Rightarrow> (bytes, nat \<times> encode_cause) result" where
  "canonical_bytes is = encode_all 0 is"

definition from_canonical :: "bytes \<Rightarrow> (instruction list, decode_error) result" where
  "from_canonical raw = decode raw"

section \<open>Emitting a wrapper\<close>

definition marker :: "u32 \<Rightarrow> instruction" where
  "marker v = alu32_imm MOV R0 v"

definition marker_value :: "instruction \<Rightarrow> u32 option" where
  "marker_value i =
     (if opcode i = alu32 MOV IMM_SOURCE \<and> dst i = R0 \<and> src i = R0 \<and> offset i = 0
      then Some (low_u32 (imm i)) else None)"

fun digest_words :: "nat \<Rightarrow> bytes \<Rightarrow> u32 list" where
  "digest_words 0 bs = []"
| "digest_words (Suc n) (b0 # b1 # b2 # b3 # bs) = of_le32 b0 b1 b2 b3 # digest_words n bs"
| "digest_words (Suc n) bs = replicate (Suc n) 0"

definition digest_of :: "(bytes \<Rightarrow> bytes) \<Rightarrow> bytes \<Rightarrow> u32 list" where
  "digest_of sha orig = digest_words 4 (sha orig)"

datatype emit_error =
    EmitDecode decode_error
  | EmitRule rule_error
  | EmitEncode nat encode_cause

definition nonce_lo :: "u64 \<Rightarrow> u32" where "nonce_lo n = ucast n"
definition nonce_hi :: "u64 \<Rightarrow> u32" where "nonce_hi n = ucast (drop_bit 32 n)"

definition block_len_field :: "program \<Rightarrow> u32" where
  "block_len_field body =
     (let n = HEADER_LEN + instruction_count body
      in if int n \<le> U32_MAX then word_of_nat n else word_of_int U32_MAX)"

definition header_words :: "u64 \<Rightarrow> u32 list \<Rightarrow> u32 \<Rightarrow> u32 list" where
  "header_words n digest block_len =
     [MAGIC_LO, MAGIC_HI, FORMAT_VERSION, nonce_lo n, nonce_hi n] @ digest @ [block_len]"

definition trailer_words :: "u64 \<Rightarrow> u32 list" where
  "trailer_words n = [MAGIC_LO, MAGIC_HI, nonce_lo n, nonce_hi n]"

definition wrapper_insns ::
  "(bytes \<Rightarrow> bytes) \<Rightarrow> program \<Rightarrow> u64 \<Rightarrow> bytes \<Rightarrow> instruction list \<Rightarrow> instruction list" where
  "wrapper_insns sha body n orig orig_insns =
     layout body (map marker (header_words n (digest_of sha orig) (block_len_field body)))
       (map marker (trailer_words n) @ orig_insns)"

definition emit_owned ::
  "(bytes \<Rightarrow> bytes) \<Rightarrow> device_rule list \<Rightarrow> u64 \<Rightarrow> bytes \<Rightarrow> (bytes, emit_error) result" where
  "emit_owned sha rs n orig =
     bindR (map_err EmitDecode (from_canonical orig)) (\<lambda>orig_insns.
     if orig_insns = [] then Inl (EmitRule NoOriginal)
     else bindR (map_err EmitRule (append_devices new_program (rev rs))) (\<lambda>body.
       map_err (\<lambda>(index, cause). EmitEncode index cause)
         (encode_all 0 (wrapper_insns sha body n orig orig_insns))))"

section \<open>Taking a wrapper apart\<close>

datatype rule_block_error =
    DeviceType i64
  | AccessMask
  | AccessCheck
  | MissingVerdict
  | Verdict
  | MissingExit

datatype conflict =
    Header
  | HeaderField nat
  | MagicOrVersion
  | BlockLen u32
  | Trailer
  | RuleBlock rule_block_error
  | Original "nat \<times> encode_cause"
  | Digest
  | Regenerated "emit_error option"

datatype owned_error =
    OwnedDecode decode_error
  | Conflict conflict

definition is_conflict :: "owned_error \<Rightarrow> bool" where
  "is_conflict e = (case e of Conflict _ \<Rightarrow> True | OwnedDecode _ \<Rightarrow> False)"

definition is_jump_imm :: "u32 \<Rightarrow> register \<Rightarrow> instruction \<Rightarrow> bool" where
  "is_jump_imm op r i \<longleftrightarrow> opcode i = jump op IMM_SOURCE \<and> dst i = r"

definition bpf_access_string :: "i64 \<Rightarrow> string" where
  "bpf_access_string m =
     (if m AND scast ACC_READ \<noteq> 0 then ''r'' else [])
     @ (if m AND scast ACC_WRITE \<noteq> 0 then ''w'' else [])
     @ (if m AND scast ACC_MKNOD \<noteq> 0 then ''m'' else [])"

text \<open>\<open>Peekable::next_if\<close>.\<close>

fun next_if :: "('a \<Rightarrow> bool) \<Rightarrow> 'a list \<Rightarrow> 'a option \<times> 'a list" where
  "next_if P [] = (None, [])"
| "next_if P (x # xs) = (if P x then (Some x, xs) else (None, x # xs))"

definition parse_type ::
  "instruction list \<Rightarrow> (string \<times> instruction list, rule_block_error) result" where
  "parse_type is =
     (case next_if (is_jump_imm JNE R2) is of
        (None, rest) \<Rightarrow> Inr (''a'', rest)
      | (Some check, rest) \<Rightarrow>
          if imm check = scast DEV_CHAR then Inr (''c'', rest)
          else if imm check = scast DEV_BLOCK then Inr (''b'', rest)
          else Inl (DeviceType (imm check)))"

definition parse_access ::
  "instruction list \<Rightarrow> (string \<times> instruction list, rule_block_error) result" where
  "parse_access is =
     (case next_if (\<lambda>i. opcode i = alu32 MOV REG_SOURCE \<and> dst i = R6) is of
        (None, rest) \<Rightarrow> Inr (''rwm'', rest)
      | (Some _, rest) \<Rightarrow>
          (case rest of
             [] \<Rightarrow> Inl AccessMask
           | m # rest' \<Rightarrow>
               if opcode m = alu32 AND_OP IMM_SOURCE \<and> dst m = R6 then
                 (case rest' of
                    [] \<Rightarrow> Inl AccessCheck
                  | _ # rest'' \<Rightarrow> Inr (bpf_access_string (imm m), rest''))
               else Inl AccessMask))"

definition parse_number :: "register \<Rightarrow> instruction list \<Rightarrow> int \<times> instruction list" where
  "parse_number r is =
     (case next_if (is_jump_imm JNE r) is of
        (None, rest) \<Rightarrow> (WILDCARD, rest)
      | (Some check, rest) \<Rightarrow> (sint (imm check), rest))"

definition parse_verdict ::
  "instruction list \<Rightarrow> (bool \<times> instruction list, rule_block_error) result" where
  "parse_verdict is =
     (case is of
        [] \<Rightarrow> Inl MissingVerdict
      | v # rest \<Rightarrow>
          (case marker_value v of
             None \<Rightarrow> Inl Verdict
           | Some w \<Rightarrow>
               if w = 0 \<or> w = 1 then
                 (case rest of
                    [] \<Rightarrow> Inl MissingExit
                  | e # rest' \<Rightarrow>
                      if opcode e = jump EXIT IMM_SOURCE then Inr (w = 1, rest')
                      else Inl MissingExit)
               else Inl Verdict))"

definition parse_block ::
  "instruction list \<Rightarrow> (device_rule \<times> instruction list, rule_block_error) result" where
  "parse_block is =
     bindR (parse_type is) (\<lambda>(k, r1).
     bindR (parse_access r1) (\<lambda>(a, r2).
       let (ma, r3) = parse_number R4 r2; (mi, r4) = parse_number R5 r3 in
       bindR (parse_verdict r4) (\<lambda>(b, r5).
         Inr (\<lparr>allow = b, kind = k, major = Some ma, minor = Some mi, access = a\<rparr>, r5))))"

lemma next_if_length: "length (snd (next_if P xs)) \<le> length xs"
  by (cases xs) auto

lemma parse_type_length: "parse_type is = Inr (k, r) \<Longrightarrow> length r \<le> length is"
  using next_if_length [of "is_jump_imm JNE R2" "is"]
  by (auto simp: parse_type_def split: prod.splits option.splits if_splits)

lemma parse_access_length: "parse_access is = Inr (a, r) \<Longrightarrow> length r \<le> length is"
  using next_if_length [of "\<lambda>i. opcode i = alu32 MOV REG_SOURCE \<and> dst i = R6" "is"]
  by (auto simp: parse_access_def split: prod.splits option.splits list.splits if_splits)

lemma parse_number_length: "parse_number x is = (n, r) \<Longrightarrow> length r \<le> length is"
  using next_if_length [of "is_jump_imm JNE x" "is"]
  by (auto simp: parse_number_def split: prod.splits option.splits)

lemma parse_verdict_length: "parse_verdict is = Inr (b, r) \<Longrightarrow> length r < length is"
  by (auto simp: parse_verdict_def split: list.splits option.splits if_splits)

lemma parse_block_length: "parse_block is = Inr (rule, r) \<Longrightarrow> length r < length is"
proof -
  assume *: "parse_block is = Inr (rule, r)"
  then obtain k r1 a r2 where t: "parse_type is = Inr (k, r1)" and a: "parse_access r1 = Inr (a, r2)"
    by (auto simp: parse_block_def bindR_Inr_iff)
  obtain ma r3 mi r4 where n: "parse_number R4 r2 = (ma, r3)" "parse_number R5 r3 = (mi, r4)"
    by (metis surj_pair)
  with * t a obtain b where "parse_verdict r4 = Inr (b, r)"
    by (auto simp: parse_block_def result_simps)
  with t a n have "length r1 \<le> length is" "length r2 \<le> length r1" "length r3 \<le> length r2"
    "length r4 \<le> length r3" "length r < length r4"
    by (auto dest: parse_type_length parse_access_length parse_number_length parse_verdict_length)
  then show ?thesis by simp
qed

text \<open>The blocks in the order of the program; the rules are the reverse of it.\<close>

function parse_blocks :: "instruction list \<Rightarrow> (device_rule list, rule_block_error) result" where
  "parse_blocks is =
     (if is = [] then Inr []
      else case parse_block is of
        Inl e \<Rightarrow> Inl e
      | Inr (rule, rest) \<Rightarrow> map_ok ((#) rule) (parse_blocks rest))"
  by pat_completeness auto
termination
  by (relation "measure length") (auto dest: parse_block_length)

declare parse_blocks.simps [simp del]

definition parse_rule_blocks ::
  "instruction list \<Rightarrow> (device_rule list, rule_block_error) result" where
  "parse_rule_blocks is = map_ok rev (parse_blocks is)"

fun header_fields :: "nat \<Rightarrow> instruction list \<Rightarrow> (u32 list, conflict) result" where
  "header_fields index [] = Inr []"
| "header_fields index (i # is) =
     bindR (ok_or (HeaderField index) (marker_value i)) (\<lambda>v.
       map_ok ((#) v) (header_fields (Suc index) is))"

definition validate_owned ::
  "(bytes \<Rightarrow> bytes) \<Rightarrow> instruction list \<Rightarrow> bytes \<Rightarrow> (owned_program, conflict) result" where
  "validate_owned sha is raw =
     (if length is < HEADER_LEN then Inl Header
      else bindR (header_fields 0 (take HEADER_LEN is)) (\<lambda>header.
      if header ! 1 \<noteq> MAGIC_HI \<or> header ! 2 \<noteq> FORMAT_VERSION then Inl MagicOrVersion
      else let block_len = unat (header ! 9) in
      if block_len < HEADER_LEN + INIT_LEN \<or> block_len + TRAILER_LEN \<ge> length is
      then Inl (BlockLen (header ! 9))
      else if map marker_value (take TRAILER_LEN (drop block_len is))
                \<noteq> map Some [MAGIC_LO, MAGIC_HI, header ! 3, header ! 4] then Inl Trailer
      else bindR (map_err RuleBlock
             (parse_rule_blocks (drop (HEADER_LEN + INIT_LEN) (take block_len is)))) (\<lambda>rs.
           bindR (map_err Original (canonical_bytes (drop (block_len + TRAILER_LEN) is))) (\<lambda>orig.
           if digest_of sha orig \<noteq> take 4 (drop 5 header) then Inl Digest
           else let n = ucast (header ! 3) OR push_bit 32 (ucast (header ! 4)) in
             bindR (map_err (\<lambda>e. Regenerated (Some e)) (emit_owned sha rs n orig)) (\<lambda>regenerated.
             if regenerated \<noteq> raw then Inl (Regenerated None)
             else Inr \<lparr>nonce = n, rules = rs, original = orig\<rparr>)))))"

definition parse_owned ::
  "(bytes \<Rightarrow> bytes) \<Rightarrow> bytes \<Rightarrow> (owned_program option, owned_error) result" where
  "parse_owned sha raw =
     bindR (map_err OwnedDecode (from_canonical raw)) (\<lambda>is.
       case is of
         [] \<Rightarrow> Inr None
       | first # _ \<Rightarrow>
           if marker_value first \<noteq> Some MAGIC_LO then Inr None
           else map_err Conflict (map_ok Some (validate_owned sha is raw)))"

section \<open>What a validated program is\<close>

lemma validate_owned_emit:
  "validate_owned sha is raw = Inr p \<Longrightarrow> emit_owned sha (rules p) (nonce p) (original p) = Inr raw"
  by (auto simp: validate_owned_def result_simps Let_def split: if_splits)

lemma parse_owned_emit:
  assumes "parse_owned sha raw = Inr (Some p)"
  shows "emit_owned sha (rules p) (nonce p) (original p) = Inr raw"
proof -
  from assms obtain "is" where "decode raw = Inr is"
    by (auto simp: parse_owned_def from_canonical_def result_simps)
  with assms have "validate_owned sha is raw = Inr p"
    by (cases "is") (auto simp: parse_owned_def from_canonical_def result_simps split: if_splits)
  then show ?thesis by (rule validate_owned_emit)
qed

lemma encode_all_concat:
  "encode_all index is = Inr raw \<longleftrightarrow> (\<exists>bss. traverse encode is = Inr bss \<and> raw = concat bss)"
proof (induction "is" arbitrary: index raw)
  case (Cons i "is")
  then show ?case by (cases "encode i") (auto simp: result_simps)
qed auto

lemma encode_length_sum:
  "traverse encode is = Inr bss \<Longrightarrow> length (concat bss) = slots is * INSTRUCTION_SIZE"
  by (induction "is" arbitrary: bss)
     (auto simp: result_simps slots_def encode_length algebra_simps)

lemma slot_length: "slot raw n = Some s \<Longrightarrow> Suc n * INSTRUCTION_SIZE \<le> length raw"
  by (auto simp: slot_def INSTRUCTION_SIZE_def split: list.splits dest: arg_cong [where f = length])


lemma decode_one_length:
  assumes "decode_one raw = Inr i"
  shows "width i * INSTRUCTION_SIZE \<le> length raw"
proof -
  from assms obtain s j where s: "slot raw 0 = Some s" and j: "refine_insn (wire_insn s) = Inr j"
    and rest: "(if \<not> is_dword_load (ucast (fst s)) then Inr j
       else bindR (ok_or MissingSecondHalf (slot raw 1)) (\<lambda>(z0, z1, z2, z3, h0, h1, h2, h3).
         if of_le32 z0 z1 z2 z3 \<noteq> 0 then Inl NonZeroFields
         else Inr (j\<lparr>imm := push_bit 32 (scast (of_le32 h0 h1 h2 h3))
                                  OR ucast (low_u32 (imm j))\<rparr>))) = Inr i"
    by (auto simp only: decode_one_def decode_slot_def result_simps)
  have "opcode i = opcode j" using rest by (auto simp: result_simps split: if_splits)
  moreover have "is_dword_load (opcode j) = is_dword_load (ucast (fst s))"
    using refine_form [OF j wire_insn_form(3) wire_insn_form(1,2,4)]
    by (auto simp: wire_insn_def split: prod.splits)
  moreover have "\<exists>s'. slot raw 1 = Some s'" if "is_dword_load (ucast (fst s))"
    using rest that by (auto simp: result_simps)
  ultimately show ?thesis
    using slot_length [OF s] slot_length [of raw 1] by (auto simp: width_def)
qed

lemma decode_from_slots: "decode_from off raw = Inr is \<Longrightarrow> length raw = slots is * INSTRUCTION_SIZE"
proof (induction off raw arbitrary: "is" rule: decode_from.induct)
  case (1 off raw)
  show ?case
  proof (cases "raw = []")
    case True
    with "1.prems" show ?thesis by (simp add: slots_def)
  next
    case False
    with "1.prems"(1) obtain j js where j: "decode_one raw = Inr j" and "is = j # js"
      and js: "decode_from (off + width j * INSTRUCTION_SIZE) (drop (width j * INSTRUCTION_SIZE) raw) = Inr js"
      by (subst (asm) decode_from.simps) (auto simp: result_simps split: sum.splits)
    with "1.IH" [OF False j js] decode_one_length [OF j] show ?thesis
      by (simp add: slots_def algebra_simps)
  qed
qed

lemma slots_append [simp]: "slots (xs @ ys) = slots xs + slots ys"
  by (simp add: slots_def)

lemma emit_owned_length:
  assumes "emit_owned sha rs n orig = Inr raw"
  shows "length orig < length raw"
proof -
  from assms obtain os body bss where os: "decode orig = Inr os"
    and raw: "raw = concat bss" "traverse encode (wrapper_insns sha body n orig os) = Inr bss"
    by (auto simp: emit_owned_def from_canonical_def result_simps encode_all_concat split: if_splits)
  have "slots os < slots (wrapper_insns sha body n orig os)"
    by (simp add: wrapper_insns_def layout_placed trailer_words_def slots_def width_def)
  moreover have "length orig = slots os * INSTRUCTION_SIZE"
    using os by (simp add: decode_def decode_from_slots)
  ultimately show ?thesis
    using encode_length_sum [OF raw(2)] raw(1) by (simp add: INSTRUCTION_SIZE_def)
qed

section \<open>The innermost original\<close>

text \<open>
  The loop of \<open>parse_owned_innermost\<close>: every original is shorter than the wrapper it was
  taken from, so the loop ends.
\<close>

function innermost :: "(bytes \<Rightarrow> bytes) \<Rightarrow> bytes \<Rightarrow> (bytes, owned_error) result" where
  "innermost sha orig =
     (case parse_owned sha orig of
        Inl e \<Rightarrow> Inl e
      | Inr None \<Rightarrow> Inr orig
      | Inr (Some inner) \<Rightarrow> innermost sha (original inner))"
  by pat_completeness auto
termination
  by (relation "measure (\<lambda>(sha, orig). length orig)")
     (auto dest: parse_owned_emit emit_owned_length)

declare innermost.simps [simp del]

definition parse_owned_innermost ::
  "(bytes \<Rightarrow> bytes) \<Rightarrow> bytes \<Rightarrow> (owned_program option, owned_error) result" where
  "parse_owned_innermost sha raw =
     bindR (parse_owned sha raw) (\<lambda>p.
       case p of
         None \<Rightarrow> Inr None
       | Some owned \<Rightarrow>
           map_ok (\<lambda>orig. Some (owned\<lparr>original := orig\<rparr>)) (innermost sha (original owned)))"


section \<open>The reloadability gate\<close>

record prog_meta =
  map_ids_known :: bool
  map_count :: nat

datatype gate_error =
    MapIdsUnavailable
  | UsesMaps nat
  | Empty
  | Instruction nat instruction
  | JumpsOut nat

definition in_subset :: "instruction \<Rightarrow> bool" where
  "in_subset i =
     (let oc = opcode i in
      case op_class oc of
        LdX \<Rightarrow> op_mode oc = MODE_MEM \<and> src i = R1 \<and> offset i \<in> {0, 4, 8}
      | Alu \<Rightarrow> alu_op oc \<in> {MOV, AND_OP, OR_OP, RSH, LSH} \<and> offset i = 0
      | Alu64 \<Rightarrow> alu_op oc \<in> {MOV, AND_OP, OR_OP, RSH, LSH} \<and> offset i = 0
      | Jump \<Rightarrow> jump_op oc \<in> {JEQ, JNE, JGT, JGE, JLT, JLE, JSET, JSGT, JSGE, JSLT, JSLE, EXIT, JA}
      | Jump32 \<Rightarrow> jump_op oc \<in> {JEQ, JNE, JGT, JGE, JLT, JLE, JSET, JSGT, JSGE, JSLT, JSLE}
      | _ \<Rightarrow> False)"

definition jumps_out :: "nat \<Rightarrow> nat \<Rightarrow> instruction \<Rightarrow> bool" where
  "jumps_out len index i \<longleftrightarrow>
     is_jump (op_class (opcode i)) \<and> jump_op (opcode i) \<noteq> EXIT
     \<and> (let target = int index + sint (offset i) + 1 in target < 0 \<or> int len \<le> target)"

fun check_insns :: "nat \<Rightarrow> nat \<Rightarrow> instruction list \<Rightarrow> (unit, gate_error) result" where
  "check_insns len index [] = Inr ()"
| "check_insns len index (i # is) =
     (if \<not> in_subset i then Inl (Instruction index i)
      else if jumps_out len index i then Inl (JumpsOut index)
      else check_insns len (Suc index) is)"

definition check_wrappable :: "instruction list \<Rightarrow> prog_meta \<Rightarrow> (unit, gate_error) result" where
  "check_wrappable is meta =
     (if \<not> map_ids_known meta then Inl MapIdsUnavailable
      else if map_count meta > 0 then Inl (UsesMaps (map_count meta))
      else if is = [] then Inl Empty
      else check_insns (length is) 0 is)"

section \<open>A wrapper decodes to what was laid out\<close>

lemma low_u32_0 [simp]: "low_u32 0 = 0"
  by (simp add: low_u32_def)

lemmas form_defs = decoded_form_def alu32_imm_def alu32_reg_def alu32_def jump_imm_def jump_reg_def
  jump_def exit_insn_def load_mem_def load_x_def op_class_def alu_op_def alu_base_def
  with_alu_op_def low_i32_def const_defs Let_def

lemma builder_form [simp]:
  "decoded_form (alu32_imm MOV R0 v)" "decoded_form (alu32_imm AND_OP R6 v)"
  "decoded_form (alu32_imm RSH R3 v)" "decoded_form (alu32_reg MOV R6 R3)"
  "decoded_form (jump_imm JNE R2 v off)" "decoded_form (jump_imm JNE R4 v off)"
  "decoded_form (jump_imm JNE R5 v off)" "decoded_form (jump_reg JNE R6 R3 off)"
  "decoded_form exit_insn" "decoded_form (load_mem R2 R1 off HALF)"
  "decoded_form (load_mem R3 R1 off WORD)" "decoded_form (load_mem R4 R1 off WORD)"
  "decoded_form (load_mem R5 R1 off WORD)"
  by (simp_all add: form_defs)

lemma builder_canon [simp]:
  "canon (alu32_imm MOV r v) = alu32_imm MOV r v" "canon (alu32_imm AND_OP r v) = alu32_imm AND_OP r v"
  "canon (alu32_imm RSH r v) = alu32_imm RSH r v" "canon (alu32_reg MOV r s) = alu32_reg MOV r s"
  "canon (jump_imm JNE r v off) = jump_imm JNE r v off"
  "canon (jump_reg JNE r s off) = jump_reg JNE r s off"
  "canon exit_insn = exit_insn"
  "canon (load_mem r s off HALF) = load_mem r s off HALF"
  "canon (load_mem r s off WORD) = load_mem r s off WORD"
  by (simp_all add: canon_def alu32_imm_def alu32_reg_def jump_imm_def jump_reg_def exit_insn_def
      jump_def alu32_def load_mem_def load_x_def op_class_def is_alu_def const_defs)

definition built :: "instruction \<Rightarrow> bool" where
  "built i \<longleftrightarrow> decoded_form i \<and> canon i = i"

lemma built_marker: "built (marker v)"
  by (simp add: built_def marker_def)

lemma built_init: "list_all built (init new_program)"
  by (simp add: built_def new_program_def)

lemma built_block: "list_all built (place_block ns sp (fields_block f b))"
  by (auto simp: built_def fields_block_def rule_block_def place_block_append Let_def type_check_def
      access_check_def number_check_def verdict_steps_def plain_def jump_step_def
      split: prod.splits option.splits)

lemma built_placed: "list_all built (placed sp (blocks_of fbs))"
  by (induction fbs arbitrary: sp) (auto simp: blocks_of_def placed_Cons built_block)

lemma built_map_canon: "list_all built is \<Longrightarrow> map canon is = is"
  by (induction "is") (auto simp: built_def)

lemma length_digest_words: "length (digest_words n bs) = n"
  by (induction n bs rule: digest_words.induct) auto

lemma length_digest_of [simp]: "length (digest_of sha orig) = 4"
  by (simp add: digest_of_def length_digest_words)

lemma wrapper_layout:
  assumes "blocks body = blocks_of fbs" and "init body = init new_program"
  shows "wrapper_insns sha body n orig os =
    (map marker (header_words n (digest_of sha orig) (block_len_field body)) @ init new_program
     @ placed 15 (blocks_of fbs) @ map marker (trailer_words n)) @ os"
proof -
  have "slots (map marker (header_words n (digest_of sha orig) (block_len_field body))
      @ init new_program) = 15"
    by (simp add: slots_def marker_def header_words_def new_program_def comp_def sum_list_triv)
  then show ?thesis
    by (simp add: wrapper_insns_def layout_placed assms)
qed

lemma emit_owned_decode:
  assumes "emit_owned sha rs n orig = Inr raw"
  obtains os body where
    "decode orig = Inr os" and "os \<noteq> []" and "append_devices new_program (rev rs) = Inr body"
    and "decode raw = Inr (wrapper_insns sha body n orig (map canon os))"
    and "encode_all 0 (wrapper_insns sha body n orig os) = Inr raw"
proof -
  from assms obtain os body where os: "decode orig = Inr os" "os \<noteq> []"
    and body: "append_devices new_program (rev rs) = Inr body"
    and enc: "encode_all 0 (wrapper_insns sha body n orig os) = Inr raw"
    by (auto simp: emit_owned_def from_canonical_def result_simps split: if_splits)
  note lay = wrapper_layout [OF new_program_blocks(1,2) [OF body], of sha n orig]
  define pre where "pre = map marker (header_words n (digest_of sha orig) (block_len_field body))
    @ init new_program @ placed 15 (blocks_of (effective_fields (rev rs))) @ map marker (trailer_words n)"
  have "list_all built pre"
    using built_init built_placed by (auto simp: pre_def list_all_iff built_marker)
  then have pre: "map canon pre = pre" "\<forall>i \<in> set pre. decoded_form i"
    by (auto simp: built_map_canon) (auto simp: list_all_iff built_def)
  have form: "decoded_form (canon i)" "encode (canon i) = encode i" if "i \<in> set os" for i
    using decode_from_form os(1) that by (auto simp: decode_def)
  have "traverse encode (map canon os) = traverse encode os"
    using form(2) by (induction os) auto
  then have "traverse encode (pre @ map canon os) = traverse encode (pre @ os)"
    by (simp add: traverse_append)
  moreover have "\<forall>i \<in> set (pre @ map canon os). decoded_form i" using pre(2) form(1) by auto
  ultimately have "decode raw = Inr (pre @ map canon os)"
    using enc decode_encode [of "pre @ map canon os" _ 0]
    by (auto simp: lay pre_def [symmetric] encode_all_concat decode_def)
  then have "decode raw = Inr (wrapper_insns sha body n orig (map canon os))"
    by (simp add: lay pre_def)
  with os body enc show thesis by (intro that)
qed


section \<open>What a wrapper decides\<close>

lemma exec_canon: "exec_insn ctx rs (canon i) = exec_insn ctx rs i"
  by (auto simp: exec_insn_def canon_def load_step_def alu_step_def operand_def is_alu_def
      split: insn_class.split)

lemma reads_canon: "reads (canon i) = reads i" "writes (canon i) = writes i"
  by (simp_all only: reads_def writes_def canon_fields)

lemma fetch_map: "fetch (map f is) pc = map_option f (fetch is pc)"
  by (auto simp: fetch_def)

lemma tracked_canon:
  "tracked_loop n (map canon is) ctx known rs pc = tracked_loop n is ctx known rs pc"
proof (induction n arbitrary: known rs pc)
  case (Suc n)
  then show ?case
    by (cases "fetch is pc")
       (auto simp: tracked_loop.simps fetch_map exec_canon reads_canon cong: outcome.case_cong)
qed (simp add: tracked_loop.simps)

lemma wrapper_verdict:
  assumes "emit_owned sha rs n orig = Inr raw" and "valid_request q"
    and "run_tracked orig q = Some v"
  shows "run_device_filter raw q =
    Some (case rules_verdict rs q of Some b \<Rightarrow> verdict b | None \<Rightarrow> v)"
proof -
  obtain os body where os: "decode orig = Inr os"
    and body: "append_devices new_program (rev rs) = Inr body"
    and dec: "decode raw = Inr (wrapper_insns sha body n orig (map canon os))"
    by (rule emit_owned_decode [OF assms(1)])
  have "tracked_insns (map canon os) q = Some v"
    using assms(3) os by (simp add: run_tracked_def tracked_insns_def tracked_canon)
  then have "run_insns (wrapper_insns sha body n orig (map canon os)) q =
      Some (case first_verdict (effective_fields (rev rs)) q of Some b \<Rightarrow> verdict b | None \<Rightarrow> v)"
    by (intro wrapped_run [OF assms(2) effective_fields_ok])
       (simp_all add: wrapper_layout [OF new_program_blocks(1,2) [OF body]] marker_def [abs_def])
  then show ?thesis
    by (simp add: run_device_filter_def dec new_program_blocks(3) [OF body assms(2)])
qed

section \<open>A wrapper parses back to its rules\<close>

text \<open>
  The rule a block is read back as: the access letters in the order \<open>rwm\<close> and \<open>-1\<close> for every
  wildcard. The rules that a wildcard rule hides have no block and are not read back.
\<close>

definition rule_of :: "fields \<Rightarrow> bool \<Rightarrow> device_rule" where
  "rule_of f b =
     (case f of (t, acc, ma, mi) \<Rightarrow>
        \<lparr>allow = b,
         kind = (case t of None \<Rightarrow> ''a'' | Some v \<Rightarrow> if v = DEV_CHAR then ''c'' else ''b''),
         major = Some (if ma < 0 then WILDCARD else ma),
         minor = Some (if mi < 0 then WILDCARD else mi),
         access = bpf_access_string (scast acc)\<rparr>)"

definition normal_rules :: "device_rule list \<Rightarrow> device_rule list" where
  "normal_rules rs = rev (map (\<lambda>(f, b). rule_of f b) (effective_fields (rev rs)))"

lemma word8_cases:
  assumes "(acc :: i32) < 8"
  shows "acc \<in> {0, 1, 2, 3, 4, 5, 6, 7}"
proof -
  have "unat acc < 8" using assms by (simp add: word_less_nat_alt)
  then have "unat acc \<in> {0, 1, 2, 3, 4, 5, 6, 7}" by auto
  then have "(word_of_nat (unat acc) :: i32) \<in> word_of_nat ` {0, 1, 2, 3, 4, 5, 6, 7}" by (rule imageI)
  then show ?thesis by simp
qed

lemma access_string_mask: "acc < 8 \<Longrightarrow> access_mask 0 (bpf_access_string (scast acc)) = Inr acc"
  using word8_cases [of acc]
  by (auto simp: bpf_access_string_def access_bit_def dev_defs)

lemma access_string_full:
  "bpf_access_string (scast (ACC_READ OR ACC_WRITE OR ACC_MKNOD)) = ''rwm''"
  by (simp add: bpf_access_string_def dev_defs)

lemma rule_fields_rule_of:
  assumes "fields_ok (t, acc, ma, mi)"
  shows "rule_fields (rule_of (t, acc, ma, mi) b) =
    Inr (t, acc, if ma < 0 then WILDCARD else ma, if mi < 0 then WILDCARD else mi)"
  using assms
  by (auto simp: rule_fields_def rule_of_def fields_ok_def device_type_def access_string_mask
      WILDCARD_def U32_MAX_def dev_defs)

lemma append_device_rule_of:
  assumes "rule_fields r = Inr f"
  shows "append_device p (rule_of f (allow r)) = append_device p r"
proof -
  obtain t acc ma mi where f: "f = (t, acc, ma, mi)" by (cases f)
  have "rule_fields (rule_of f (allow r)) =
      Inr (t, acc, if ma < 0 then WILDCARD else ma, if mi < 0 then WILDCARD else mi)"
    using rule_fields_rule_of rule_fields_ok [OF assms] by (simp add: f)
  moreover have "allow (rule_of f (allow r)) = allow r" by (simp add: f rule_of_def)
  ultimately show ?thesis
    by (simp add: append_device_def assms f matches_all_def rule_block_def number_check_def WILDCARD_def)
qed

lemma append_effective:
  assumes "append_devices p rs = Inr p'" and "\<not> finalized p" and "\<not> has_wild_card p"
  shows "append_devices p (map (\<lambda>(f, b). rule_of f b) (effective_fields rs)) = Inr p'"
  using assms
proof (induction rs arbitrary: p)
  case (Cons r rs)
  from Cons.prems obtain t acc ma mi where f: "rule_fields r = Inr (t, acc, ma, mi)"
    by (auto simp: append_device_def result_simps)
  define p1 where "p1 = p\<lparr>has_wild_card := matches_all t acc ma mi,
      blocks := blocks p @ [rule_block t acc ma mi (allow r)]\<rparr>"
  have p1: "append_device p r = Inr p1"
    using Cons.prems f by (simp add: append_device_def p1_def)
  then have rest: "append_devices p1 rs = Inr p'" using Cons.prems(1) by simp
  show ?case
  proof (cases "matches_all t acc ma mi")
    case True
    then have "p' = p1" using rest append_devices_wild [of p1] Cons.prems(2) by (simp add: p1_def)
    with True f p1 show ?thesis by (simp add: append_device_rule_of [OF f])
  next
    case False
    with Cons.IH [OF rest] Cons.prems f p1 show ?thesis
      by (simp add: append_device_rule_of [OF f]) (simp add: p1_def)
  qed
qed simp

lemma emit_normal_rules:
  assumes "emit_owned sha rs n orig = Inr raw"
  shows "emit_owned sha (normal_rules rs) n orig = Inr raw"
proof -
  have "append_devices new_program (rev (normal_rules rs)) = Inr body"
    if "append_devices new_program (rev rs) = Inr body" for body
    using append_effective [OF that] by (simp add: normal_rules_def new_program_def)
  with assms show ?thesis
    by (auto simp: emit_owned_def result_simps split: if_splits)
qed


lemma is_jump_imm_simps [simp]:
  "is_jump_imm JNE r (jump_imm JNE r' v off) \<longleftrightarrow> r' = r"
  "\<not> is_jump_imm JNE r (jump_reg JNE r' s off)"
  "\<not> is_jump_imm JNE r (alu32_imm MOV r' v)" "\<not> is_jump_imm JNE r (alu32_imm AND_OP r' v)"
  "\<not> is_jump_imm JNE r (alu32_reg MOV r' s)"
  by (simp_all add: is_jump_imm_def jump_imm_def jump_reg_def alu32_imm_def alu32_reg_def jump_def
      alu32_def const_defs)

lemma opcode_simps [simp]:
  "opcode (alu32_reg MOV r s) = alu32 MOV REG_SOURCE" "dst (alu32_reg op r s) = r"
  "opcode (alu32_imm op r v) = alu32 op IMM_SOURCE" "dst (alu32_imm op r v) = r"
  "imm (alu32_imm op r v) = scast v" "imm (jump_imm op r v off) = scast v"
  "opcode (jump_imm JNE r v off) \<noteq> alu32 MOV REG_SOURCE"
  "alu32 MOV IMM_SOURCE \<noteq> alu32 MOV REG_SOURCE"
  "opcode exit_insn = jump EXIT IMM_SOURCE"
  by (simp_all add: jump_imm_def jump_reg_def alu32_imm_def alu32_reg_def jump_def exit_insn_def
      alu32_def const_defs)

lemma R_neq [simp]:
  "R2 \<noteq> R4" "R2 \<noteq> R5" "R4 \<noteq> R2" "R5 \<noteq> R2" "R4 \<noteq> R5" "R5 \<noteq> R4" "R0 \<noteq> R6"
  by (simp_all add: const_defs)

lemma marker_value_imm [simp]: "marker_value (alu32_imm MOV R0 v) = Some v"
  by (simp add: marker_value_def) (simp add: alu32_imm_def)

lemma marker_value_marker [simp]: "marker_value (marker v) = Some v"
  by (simp add: marker_def)

lemma signed_low:
  assumes "0 \<le> n" and "n < 2147483648"
  shows "sint (scast (low_i32 (word_of_int n)) :: i64) = n"
proof -
  have "sint (scast (low_i32 (word_of_int n)) :: i64) = sint (low_i32 (word_of_int n))"
    using sint_lt [of "low_i32 (word_of_int n)"] sint_ge [of "low_i32 (word_of_int n)"]
    by (simp add: signed_scast_eq signed_take_bit_int_eq_self)
  also have "\<dots> = n"
    using assms by (simp add: low_i32_def low_u32_def unsigned_of_int signed_of_int
        signed_take_bit_int_eq_self take_bit_int_eq_self)
  finally show ?thesis .
qed

definition small_fields :: "fields \<Rightarrow> bool" where
  "small_fields f = (case f of (t, acc, ma, mi) \<Rightarrow> ma < 2147483648 \<and> mi < 2147483648)"

lemma parse_type_block:
  assumes "t \<in> {None, Some DEV_CHAR, Some DEV_BLOCK}"
    and "next_if (is_jump_imm JNE R2) rest = (None, rest)"
  shows "parse_type (place_block ns sp (type_check t) @ rest) =
    Inr (case t of None \<Rightarrow> ''a'' | Some v \<Rightarrow> if v = DEV_CHAR then ''c'' else ''b'', rest)"
  using assms by (auto simp: parse_type_def type_check_def jump_step_def Let_def dev_defs)

lemma parse_access_block:
  assumes "next_if (\<lambda>i. opcode i = alu32 MOV REG_SOURCE \<and> dst i = R6) rest = (None, rest)"
  shows "parse_access (place_block ns sp (access_check acc) @ rest) =
    Inr (bpf_access_string (scast acc), rest)"
  using assms access_string_full
  by (auto simp: parse_access_def access_check_def plain_def jump_step_def Let_def)

lemma parse_number_block:
  assumes "n < 2147483648" and "next_if (is_jump_imm JNE r) rest = (None, rest)"
  shows "parse_number r (place_block ns sp (number_check r n) @ rest) =
    (if n < 0 then WILDCARD else n, rest)"
  using assms
  by (auto simp: parse_number_def number_check_def jump_step_def Let_def signed_low)

lemma parse_verdict_block:
  "parse_verdict (place_block ns sp (verdict_steps b) @ rest) = Inr (b, rest)"
  by (simp add: parse_verdict_def verdict_steps_def plain_def Let_def)

lemma parse_block_block:
  assumes "fields_ok f" and "small_fields f"
  shows "parse_block (place_block ns sp (fields_block f b) @ rest) = Inr (rule_of f b, rest)"
proof -
  obtain t acc ma mi where f: "f = (t, acc, ma, mi)" by (cases f)
  have heads: "next_if (is_jump_imm JNE R2) (place_block ns p (access_check acc) @
        place_block ns p' (number_check R4 ma) @ place_block ns p2 (number_check R5 mi) @
        place_block ns p3 (verdict_steps b) @ rest) = (None, place_block ns p (access_check acc) @
        place_block ns p' (number_check R4 ma) @ place_block ns p2 (number_check R5 mi) @
        place_block ns p3 (verdict_steps b) @ rest)"
    "next_if (\<lambda>i. opcode i = alu32 MOV REG_SOURCE \<and> dst i = R6) (
        place_block ns p' (number_check R4 ma) @ place_block ns p2 (number_check R5 mi) @
        place_block ns p3 (verdict_steps b) @ rest) = (None,
        place_block ns p' (number_check R4 ma) @ place_block ns p2 (number_check R5 mi) @
        place_block ns p3 (verdict_steps b) @ rest)"
    "next_if (is_jump_imm JNE R4) (place_block ns p2 (number_check R5 mi) @
        place_block ns p3 (verdict_steps b) @ rest) = (None, place_block ns p2 (number_check R5 mi) @
        place_block ns p3 (verdict_steps b) @ rest)"
    "next_if (is_jump_imm JNE R5) (place_block ns p3 (verdict_steps b) @ rest) =
      (None, place_block ns p3 (verdict_steps b) @ rest)" for p p' p2 p3
    by (simp_all add: access_check_def number_check_def verdict_steps_def plain_def jump_step_def Let_def)
  show ?thesis
    using assms unfolding f fields_block_def rule_block_def prod.case place_block_append append_assoc
    by (simp add: fields_ok_def small_fields_def parse_block_def parse_type_block heads
        parse_access_block parse_number_block parse_verdict_block rule_of_def)
qed

lemma parse_blocks_placed:
  assumes "\<forall>(f, b) \<in> set fbs. fields_ok f \<and> small_fields f"
  shows "parse_blocks (placed sp (blocks_of fbs)) = Inr (map (\<lambda>(f, b). rule_of f b) fbs)"
  using assms
proof (induction fbs arbitrary: sp)
  case Nil
  then show ?case by (simp add: blocks_of_def parse_blocks.simps)
next
  case (Cons fb fbs)
  obtain f b where fb: "fb = (f, b)" by (cases fb)
  have ne: "place_block ns sp (fields_block f b) @ rest \<noteq> []" for ns rest
    by (simp add: fields_block_def rule_block_def verdict_steps_def split: prod.split)
       (metis length_place_block length_0_conv append_is_Nil_conv list.distinct(1))
  show ?case
    using Cons.prems Cons.IH ne
    by (subst parse_blocks.simps)
       (auto simp: fb blocks_of_def placed_Cons parse_block_block)
qed

text \<open>
  Bytes the kernel's translated dump gives for a program the daemon may wrap: re-encoding what
  they decode to gives them back.
\<close>

definition canonical :: "bytes \<Rightarrow> bool" where
  "canonical orig =
     (case decode orig of Inl e \<Rightarrow> False | Inr os \<Rightarrow> canonical_bytes os = Inr orig)"

definition small_numbers :: "device_rule \<Rightarrow> bool" where
  "small_numbers r \<longleftrightarrow>
     (\<forall>n \<in> set_option (major r). n < 2147483648) \<and> (\<forall>n \<in> set_option (minor r). n < 2147483648)"

lemma header_fields_markers: "header_fields index (map marker ws) = Inr ws"
  by (induction ws arbitrary: index) simp_all

lemma effective_fields_small:
  assumes "\<forall>r \<in> set rs. small_numbers r"
  shows "\<forall>(f, b) \<in> set (effective_fields rs). small_fields f"
  using assms
proof (induction rs)
  case (Cons r rs)
  have "small_fields f" if "rule_fields r = Inr f" for f
    using that Cons.prems by (auto simp: rule_fields_def result_simps small_fields_def small_numbers_def
        split: if_splits)
  with Cons show ?case by (auto split: sum.splits)
qed simp

lemma nonce_halves: "ucast (nonce_lo n) OR push_bit 32 (ucast (nonce_hi n)) = n"
  unfolding nonce_lo_def nonce_hi_def by (rule bit_word_eqI) (auto simp: bit_simps)

lemma wrapper_header:
  assumes "blocks body = blocks_of fbs" and "init body = init new_program"
  shows "take HEADER_LEN (wrapper_insns sha body n orig os) =
      map marker (header_words n (digest_of sha orig) (block_len_field body))"
    and "HEADER_LEN + instruction_count body = 15 + length (placed 15 (blocks_of fbs))"
  by (simp_all add: wrapper_layout [OF assms] HEADER_LEN_def header_words_def instruction_count_def
      INIT_LEN_def assms)

lemma validate_wrapper:
  assumes body: "append_devices new_program (rev rs) = Inr body"
    and emit: "emit_owned sha rs n orig = Inr raw"
    and small: "\<forall>r \<in> set rs. small_numbers r"
    and len: "int (HEADER_LEN + instruction_count body) \<le> U32_MAX"
    and os: "canonical_bytes os = Inr orig" "os \<noteq> []"
  shows "validate_owned sha (wrapper_insns sha body n orig os) raw =
    Inr \<lparr>nonce = n, rules = normal_rules rs, original = orig\<rparr>"
proof -
  let ?fbs = "effective_fields (rev rs)"
  define B where "B = placed 15 (blocks_of ?fbs)"
  note nb = new_program_blocks(1,2) [OF body]
  define hd where "hd = header_words n (digest_of sha orig) (block_len_field body)"
  note lay = wrapper_layout [OF nb, of sha n orig os, folded B_def hd_def]
  have cnt: "HEADER_LEN + instruction_count body = 15 + length B"
    by (simp add: wrapper_header(2) [OF nb] B_def)
  have bl: "unat (block_len_field body) = 15 + length B"
    using len by (simp add: block_len_field_def cnt U32_MAX_def unsigned_of_nat take_bit_nat_eq_self
        del: of_nat_add)
  have hdl: "length hd = 10" by (simp add: hd_def header_words_def)
  have hd_nth: "hd ! 1 = MAGIC_HI" "hd ! 2 = FORMAT_VERSION" "hd ! 3 = nonce_lo n" "hd ! 4 = nonce_hi n"
    "hd ! 9 = block_len_field body" "take 4 (drop 5 hd) = digest_of sha orig"
    by (simp_all add: hd_def header_words_def nth_append)
  have "\<forall>(f, b) \<in> set ?fbs. fields_ok f \<and> small_fields f"
    using effective_fields_ok [of "rev rs"] effective_fields_small [of "rev rs"] small by auto
  then have parse: "parse_rule_blocks B = Inr (normal_rules rs)"
    by (simp add: parse_rule_blocks_def B_def normal_rules_def parse_blocks_placed)
  have i5: "length (init new_program) = 5" by (simp add: new_program_def)
  have slices: "drop (HEADER_LEN + INIT_LEN) (take (15 + length B) (wrapper_insns sha body n orig os)) = B"
    "take TRAILER_LEN (drop (15 + length B) (wrapper_insns sha body n orig os)) = map marker (trailer_words n)"
    "drop (15 + length B + TRAILER_LEN) (wrapper_insns sha body n orig os) = os"
    "take HEADER_LEN (wrapper_insns sha body n orig os) = map marker hd"
    "15 + length B + TRAILER_LEN < length (wrapper_insns sha body n orig os)"
    "\<not> length (wrapper_insns sha body n orig os) < HEADER_LEN"
    using os(2) by (simp_all add: lay len_defs hdl i5 trailer_words_def)
  have trailer: "map marker_value (map marker (trailer_words n)) =
      map Some [MAGIC_LO, MAGIC_HI, nonce_lo n, nonce_hi n]"
    by (simp add: trailer_words_def)
  show ?thesis
    unfolding validate_owned_def Let_def slices header_fields_markers bindR.simps hd_nth bl trailer
    using slices(5,6)
    by (simp add: len_defs parse os nonce_halves emit_normal_rules [OF emit] slices)
qed


lemma length_le_slots: "length is \<le> slots is"
  by (induction "is") (auto simp: slots_def width_def)

lemma parse_emit:
  assumes emit: "emit_owned sha rs n orig = Inr raw"
    and "canonical orig" and small: "\<forall>r \<in> set rs. small_numbers r"
    and len: "int (length raw) \<le> U32_MAX"
  shows "parse_owned sha raw = Inr (Some \<lparr>nonce = n, rules = normal_rules rs, original = orig\<rparr>)"
proof -
  obtain os body where os: "decode orig = Inr os" "os \<noteq> []"
    and body: "append_devices new_program (rev rs) = Inr body"
    and dec: "decode raw = Inr (wrapper_insns sha body n orig (map canon os))"
    and enc: "encode_all 0 (wrapper_insns sha body n orig os) = Inr raw"
    by (rule emit_owned_decode [OF emit])
  note nb = new_program_blocks(1,2) [OF body]
  let ?w = "wrapper_insns sha body n orig"
  have "canonical_bytes (map canon os) = Inr orig"
    using assms(2) os(1) decode_encode_decode [OF os(1)]
    by (auto simp: canonical_def canonical_bytes_def encode_all_concat)
  moreover have "int (HEADER_LEN + instruction_count body) \<le> U32_MAX"
  proof -
    have "HEADER_LEN + instruction_count body \<le> length (?w os)"
      by (simp add: wrapper_header(2) [OF nb]) (simp add: wrapper_layout [OF nb] header_words_def new_program_def)
    also have "\<dots> \<le> slots (?w os)" by (rule length_le_slots)
    also have "\<dots> \<le> length raw"
      using enc by (auto simp: encode_all_concat INSTRUCTION_SIZE_def dest!: encode_length_sum)
    finally show ?thesis using len by simp
  qed
  ultimately have "validate_owned sha (?w (map canon os)) raw =
      Inr \<lparr>nonce = n, rules = normal_rules rs, original = orig\<rparr>"
    using os(2) by (intro validate_wrapper [OF body emit small]) simp_all
  moreover have "\<exists>tl. ?w (map canon os) = marker MAGIC_LO # tl"
    by (simp add: wrapper_layout [OF nb] header_words_def)
  ultimately show ?thesis
    by (auto simp: parse_owned_def from_canonical_def dec)
qed

section \<open>What the gate accepts is canonical\<close>

lemma check_insns_all:
  "check_insns len index is = Inr () \<Longrightarrow> j < length is \<Longrightarrow>
     in_subset (is ! j) \<and> \<not> jumps_out len (index + j) (is ! j)"
proof (induction "is" arbitrary: index j)
  case (Cons i "is")
  then show ?case by (cases j) (fastforce split: if_splits)+
qed simp

lemma check_wrappable_all:
  assumes "check_wrappable is meta = Inr ()"
  shows "is \<noteq> []" and "j < length is \<Longrightarrow> in_subset (is ! j)"
    and "j < length is \<Longrightarrow> \<not> jumps_out (length is) j (is ! j)"
  using assms check_insns_all [of "length is" 0 "is" j]
  by (auto simp: check_wrappable_def split: if_splits)

lemma subset_class: "in_subset i \<Longrightarrow> op_class (opcode i) \<notin> {Ld, St, StX}"
  by (auto simp: in_subset_def Let_def split: insn_class.splits)

lemma subset_not_call: "in_subset i \<Longrightarrow> \<not> is_builtin_call i"
  by (auto simp: in_subset_def is_builtin_call_def jump_op_def is_jump_def Let_def const_defs
      split: insn_class.splits)

lemma subset_alu:
  "in_subset i \<Longrightarrow> is_alu (op_class (opcode i)) \<Longrightarrow>
     alu_base (alu_op (opcode i)) = (alu_op (opcode i), 0) \<and> offset i = 0"
  by (auto simp: in_subset_def is_alu_def Let_def alu_base_def const_defs)

lemma subset_not_wide: "in_subset i \<Longrightarrow> \<not> is_dword_load (opcode i)"
  using subset_class [of i]
  by (auto simp: is_dword_load_def load_def op_class_def const_defs)

lemma subset_wire_fields:
  assumes "in_subset i"
  shows "wire_fields i = Inr (opcode i, offset i, low_i32 (imm i))"
proof -
  have "atomic_op (opcode i) = INVALID_ATOMIC"
    using subset_class [OF assms] by (auto simp: atomic_op_def)
  then show ?thesis
    using subset_not_call [OF assms] subset_alu [OF assms]
    by (auto simp: wire_fields_def Let_def with_alu_op_self)
qed

lemma subset_refine:
  assumes "refine_insn w = Inr i" and "in_subset i"
  shows "i = w"
proof -
  have alu: "is_alu (op_class (opcode w)) \<Longrightarrow> alu_extended (alu_op (opcode w)) (offset w) = Some e \<Longrightarrow>
      i \<noteq> w\<lparr>opcode := with_alu_op (opcode w) e, offset := 0\<rparr>" for e
    using subset_alu [OF assms(2)] alu_extended_base [of "alu_op (opcode w)" "offset w" e]
    by (auto simp: op_class_with_alu_op alu_op_with_alu_op alu_extended_def const_defs split: if_splits)
  have "op_class (opcode w OR (x AND ATOMIC_MASK)) = op_class (opcode w)" for x
    by (rule op_class_or_atomic)
  then show ?thesis
    using assms(1) alu subset_class [OF assms(2)]
    by (auto simp: refine_insn_def Let_def split: if_splits option.splits)
qed

lemma ucast_8_32_8 [simp]: "ucast (ucast (b :: u8) :: u32) = b"
  by (rule bit_word_eqI) (simp add: bit_simps)

lemma registers_nibbles: "registers (b AND 0x0f) (drop_bit 4 b) = b"
  unfolding registers_def nibble_mask by (rule bit_word_eqI) (auto simp: bit_simps)

lemma subset_encode:
  assumes "decode_one raw = Inr i" and "in_subset i"
  shows "encode i = Inr (take 8 raw)" and "8 \<le> length raw"
proof -
  from assms(1) obtain s j where s: "slot raw 0 = Some s" and j: "refine_insn (wire_insn s) = Inr j"
    and rest: "(if \<not> is_dword_load (ucast (fst s)) then Inr j
       else bindR (ok_or MissingSecondHalf (slot raw 1)) (\<lambda>(z0, z1, z2, z3, h0, h1, h2, h3).
         if of_le32 z0 z1 z2 z3 \<noteq> 0 then Inl NonZeroFields
         else Inr (j\<lparr>imm := push_bit 32 (scast (of_le32 h0 h1 h2 h3))
                                  OR ucast (low_u32 (imm j))\<rparr>))) = Inr i"
    by (auto simp only: decode_one_def decode_slot_def result_simps)
  have "opcode i = opcode j" using rest by (auto simp: result_simps split: if_splits)
  then have "\<not> is_dword_load (ucast (fst s))"
    using subset_not_wide [OF assms(2)] refine_form [OF j wire_insn_form(3) wire_insn_form(1,2,4)]
    by (auto simp: wire_insn_def split: prod.splits)
  with rest have "i = j" by simp
  then have i: "i = wire_insn s" using subset_refine [OF j] assms(2) by simp
  obtain b0 b1 b2 b3 b4 b5 b6 b7 where b: "s = (b0, b1, b2, b3, b4, b5, b6, b7)"
    by (metis surj_pair)
  have raw: "take 8 raw = [b0, b1, b2, b3, b4, b5, b6, b7] \<and> 8 \<le> length raw"
    using s b by (auto simp: slot_def split: list.splits)
  have "opcode i \<noteq> INVALID_OPCODE" "unat (opcode i) < 256"
    using wire_insn_form(3) [of s] by (auto simp: i const_defs)
  then show "encode i = Inr (take 8 raw)"
    using raw subset_not_wide [OF assms(2)]
    by (simp add: encode_def subset_wire_fields [OF assms(2)])
       (simp add: i b wire_insn_def registers_nibbles low_i32_def le16_of_le16 le32_of_le32)
  show "8 \<le> length raw" using raw by simp
qed


lemma subset_decode:
  "decode_from off raw = Inr is \<Longrightarrow> \<forall>i \<in> set is. in_subset i \<Longrightarrow>
     \<exists>bss. traverse encode is = Inr bss \<and> concat bss = raw"
proof (induction off raw arbitrary: "is" rule: decode_from.induct)
  case (1 off raw)
  show ?case
  proof (cases "raw = []")
    case True
    with "1.prems" show ?thesis by simp
  next
    case False
    with "1.prems"(1) obtain j js where j: "decode_one raw = Inr j" and is': "is = j # js"
      and js: "decode_from (off + width j * INSTRUCTION_SIZE) (drop (width j * INSTRUCTION_SIZE) raw) = Inr js"
      by (subst (asm) decode_from.simps) (auto simp: result_simps split: sum.splits)
    have sub: "in_subset j" using "1.prems"(2) is' by simp
    then have w: "width j * INSTRUCTION_SIZE = 8"
      by (simp add: width_def subset_not_wide INSTRUCTION_SIZE_def)
    obtain bss where "traverse encode js = Inr bss" "concat bss = drop 8 raw"
      using "1.IH" [OF False j js] "1.prems"(2) is' w by auto
    then show ?thesis
      using subset_encode [OF j sub] by (simp add: is')
  qed
qed

lemma gate_canonical:
  assumes "decode orig = Inr os" and "check_wrappable os meta = Inr ()"
  shows "canonical orig"
proof -
  have "\<forall>i \<in> set os. in_subset i"
    using check_wrappable_all(2) [OF assms(2)] by (auto simp: in_set_conv_nth)
  then show ?thesis
    using subset_decode [of 0 orig os] assms(1)
    by (auto simp: canonical_def canonical_bytes_def encode_all_concat decode_def)
qed


section \<open>A wrappable program can be wrapped\<close>

definition encodes :: "instruction \<Rightarrow> bool" where
  "encodes i \<longleftrightarrow> is_ok (encode i)"

lemma encodes_builder [simp]:
  "encodes (alu32_imm MOV R0 v)" "encodes (alu32_imm AND_OP R6 v)" "encodes (alu32_imm RSH R3 v)"
  "encodes (alu32_reg MOV R6 R3)" "encodes (jump_imm JNE R2 v off)" "encodes (jump_imm JNE R4 v off)"
  "encodes (jump_imm JNE R5 v off)" "encodes (jump_reg JNE R6 R3 off)" "encodes exit_insn"
  "encodes (load_mem R2 R1 off HALF)" "encodes (load_mem R3 R1 off WORD)"
  "encodes (load_mem R4 R1 off WORD)" "encodes (load_mem R5 R1 off WORD)"
  by (simp_all add: encodes_def encode_def wire_fields_def is_builtin_call_def jump_op_def op_mode_def
      atomic_op_def is_jump_def is_alu_def form_defs)

lemma encodes_marker [simp]: "encodes (marker v)"
  by (simp add: marker_def)

lemma encodes_init: "list_all encodes (init new_program)"
  by (simp add: new_program_def)

lemma encodes_block: "list_all encodes (place_block ns sp (fields_block f b))"
  by (auto simp: fields_block_def rule_block_def place_block_append Let_def type_check_def
      access_check_def number_check_def verdict_steps_def plain_def jump_step_def
      split: prod.splits option.splits)

lemma encodes_placed: "list_all encodes (placed sp (blocks_of fbs))"
  by (induction fbs arbitrary: sp) (auto simp: blocks_of_def placed_Cons encodes_block)

lemma encodes_all: "list_all encodes is \<Longrightarrow> \<exists>raw. encode_all index is = Inr raw"
proof (induction "is" arbitrary: index)
  case (Cons i "is")
  then obtain bs where "encode i = Inr bs" by (auto simp: encodes_def is_ok_iff)
  moreover obtain raw where "encode_all (Suc index) is = Inr raw"
    using Cons by auto
  ultimately show ?case by simp
qed simp

lemma append_devices_ok:
  "\<forall>r \<in> set rs. is_ok (rule_fields r) \<Longrightarrow> \<not> finalized p \<Longrightarrow> \<exists>p'. append_devices p rs = Inr p'"
proof (induction rs arbitrary: p)
  case (Cons r rs)
  then obtain t acc ma mi where "rule_fields r = Inr (t, acc, ma, mi)" by (auto simp: is_ok_iff)
  with Cons show ?case by (auto simp: append_device_def)
qed simp

lemma emit_wrappable:
  assumes "decode orig = Inr os" and gate: "check_wrappable os meta = Inr ()"
    and "\<forall>r \<in> set rs. is_ok (rule_fields r)"
  shows "\<exists>raw. emit_owned sha rs n orig = Inr raw"
proof -
  obtain body where body: "append_devices new_program (rev rs) = Inr body"
    using append_devices_ok [of "rev rs" new_program] assms(3) by (auto simp: new_program_def)
  have "\<forall>i \<in> set os. in_subset i"
    using check_wrappable_all(2) [OF gate] by (auto simp: in_set_conv_nth)
  then obtain bss where "traverse encode os = Inr bss"
    using subset_decode [of 0 orig os] assms(1) by (auto simp: decode_def)
  then have "list_all encodes os"
    using traverse_Inr_nth [of encode os bss]
    by (auto simp: list_all_length encodes_def is_ok_iff)
  then have "list_all encodes (wrapper_insns sha body n orig os)"
    using encodes_placed encodes_init
    by (auto simp: wrapper_layout [OF new_program_blocks(1,2) [OF body]] list_all_iff)
  then obtain raw where "encode_all 0 (wrapper_insns sha body n orig os) = Inr raw"
    using encodes_all by blast
  then show ?thesis
    using assms(1) body check_wrappable_all(1) [OF gate]
    by (simp add: emit_owned_def from_canonical_def)
qed

section \<open>Properties\<close>

lemma rule_of_matches:
  assumes "fields_ok f" and "valid_request q"
  shows "rule_matches (rule_of f b) q = fields_match f q"
proof -
  obtain t acc ma mi where f: "f = (t, acc, ma, mi)" by (cases f)
  have "fields_match (t, acc, if ma < 0 then WILDCARD else ma, if mi < 0 then WILDCARD else mi) q
      = fields_match f q"
    by (simp add: f fields_match_def number_matches_def WILDCARD_def)
  with rule_fields_match [OF rule_fields_rule_of [OF assms(1) [unfolded f]] assms(2)]
  show ?thesis by (simp add: f)
qed

lemma find_rule_of:
  assumes "\<forall>(f, b) \<in> set fbs. fields_ok f" and "valid_request q"
  shows "map_option allow (find (\<lambda>r. rule_matches r q) (map (\<lambda>(f, b). rule_of f b) fbs))
    = first_verdict fbs q"
  using assms(1)
proof (induction fbs)
  case (Cons fb fbs)
  obtain f b where fb: "fb = (f, b)" by (cases fb)
  with Cons rule_of_matches [OF _ assms(2), of f b] show ?case
    by (auto simp: rule_of_def split: prod.splits)
qed simp

lemma slots_ones: "\<forall>i \<in> set is. width i = 1 \<Longrightarrow> slots is = length is"
  by (induction "is") (auto simp: slots_def)

lemma slots_placed: "slots (placed sp (blocks_of fbs)) \<le> 8 * length fbs"
proof (induction fbs arbitrary: sp)
  case (Cons fb fbs)
  obtain f b where "fb = (f, b)" by (cases fb)
  with Cons [of "sp + length (fields_block f b)"] fields_block_length [of f b] show ?case
    by (simp add: blocks_of_def placed_Cons)
qed (simp add: blocks_of_def slots_def)

lemma effective_fields_length: "length (effective_fields rs) \<le> length rs"
  by (induction rs) (auto split: sum.splits)

lemma emit_bound:
  assumes "emit_owned sha rs n orig = Inr raw"
  shows "length raw \<le> length orig + 8 * (19 + 8 * length rs)"
proof -
  obtain os body where os: "decode orig = Inr os"
    and body: "append_devices new_program (rev rs) = Inr body"
    and enc: "encode_all 0 (wrapper_insns sha body n orig os) = Inr raw"
    by (rule emit_owned_decode [OF assms])
  have m: "slots (map marker ws) = length ws" for ws
    by (subst slots_ones) (auto simp: marker_def)
  have i: "slots (init new_program) = 5"
    by (simp add: slots_def new_program_def)
  have "length (header_words n (digest_of sha orig) (block_len_field body)) = 10"
    "length (trailer_words n) = 4"
    by (simp_all add: header_words_def trailer_words_def)
  then have "slots (wrapper_insns sha body n orig os) \<le> 19 + 8 * length rs + slots os"
    using slots_placed [of 15 "effective_fields (rev rs)"] effective_fields_length [of "rev rs"]
    by (simp add: wrapper_layout [OF new_program_blocks(1,2) [OF body]] m i)
  moreover have "length raw = slots (wrapper_insns sha body n orig os) * 8"
    using enc encode_length_sum by (auto simp: encode_all_concat INSTRUCTION_SIZE_def)
  moreover have "length orig = slots os * 8"
    using os by (simp add: decode_def decode_from_slots INSTRUCTION_SIZE_def)
  ultimately show ?thesis by simp
qed

text \<open>A filter that denies every access: \<open>mov r0, 0\<close> and \<open>exit\<close>.\<close>

definition deny_all :: bytes where
  "deny_all = [0xb4, 0, 0, 0, 0, 0, 0, 0, 0x95, 0, 0, 0, 0, 0, 0, 0]"

definition null_rw :: device_rule where
  "null_rw = \<lparr>allow = True, kind = ''c'', major = Some 1, minor = Some 3, access = ''rw''\<rparr>"

definition no_maps :: prog_meta where
  "no_maps = \<lparr>map_ids_known = True, map_count = 0\<rparr>"

definition zero_sha :: "bytes \<Rightarrow> bytes" where
  "zero_sha bs = replicate 32 0"

lemma deny_all_decode: "decode deny_all = Inr [alu32_imm MOV R0 0, exit_insn]"
  by code_simp

lemma deny_all_gate: "check_wrappable [alu32_imm MOV R0 0, exit_insn] no_maps = Inr ()"
  by code_simp

lemma deny_all_canonical: "canonical deny_all"
  by (rule gate_canonical [OF deny_all_decode deny_all_gate])

lemma deny_all_denies: "run_tracked deny_all (char_request 1 3 2) = Some 0"
  by code_simp

lemma null_rw_fields: "is_ok (rule_fields null_rw)"
  by code_simp

lemma null_request: "valid_request (char_request 1 3 2)"
  by code_simp

lemma null_rw_matches: "rules_verdict [null_rw] (char_request 1 3 2) = Some True"
  by code_simp

text \<open>
  C7. The wrapper of a program the gate accepts, for rules the builder can express, is emitted,
  and answers every device request as specified: the last rule of the set that matches decides,
  and a request no rule matches gets the answer of the original. The original's answer is the
  one of the interpreter that refuses to read a register before it is written, as the kernel's
  verifier does.
\<close>

theorem wrapper_decides:
  assumes "decode orig = Inr os" and "check_wrappable os meta = Inr ()"
    and "\<forall>r \<in> set rs. is_ok (rule_fields r)"
  shows "\<exists>raw. emit_owned sha rs n orig = Inr raw \<and>
    (\<forall>q v. valid_request q \<longrightarrow> run_tracked orig q = Some v \<longrightarrow>
       run_device_filter raw q =
         Some (case rules_verdict rs q of Some b \<Rightarrow> verdict b | None \<Rightarrow> v))"
  using emit_wrappable [OF assms] wrapper_verdict by blast

theorem wrapper_decides_witness:
  "\<exists>raw. emit_owned zero_sha [null_rw] 7 deny_all = Inr raw
    \<and> run_device_filter raw (char_request 1 3 2) = Some 1"
  using wrapper_decides [OF deny_all_decode deny_all_gate, of "[null_rw]" zero_sha 7]
    null_rw_fields null_request deny_all_denies null_rw_matches
  by (auto simp: verdict_def)




text \<open>
  C16. A wrapper parses back to the nonce, the original and the rules it was emitted from, up to
  the spelling the blocks do not keep: the access letters in the order \<open>rwm\<close>, \<open>-1\<close> for every
  wildcard, and no rule that an earlier appended catch-all hides. The original is canonical
  bytes, the numbers are below \<open>2^31\<close> and the program is shorter than \<open>2^32\<close> bytes.
\<close>

theorem parse_emit_roundtrip:
  assumes "emit_owned sha rs n orig = Inr raw" and "canonical orig"
    and "\<forall>r \<in> set rs. small_numbers r" and "int (length raw) \<le> U32_MAX"
  shows "parse_owned sha raw = Inr (Some \<lparr>nonce = n, rules = normal_rules rs, original = orig\<rparr>)"
  by (rule parse_emit [OF assms])

theorem parse_emit_roundtrip_witness:
  "\<exists>raw. emit_owned zero_sha [null_rw] 7 deny_all = Inr raw \<and>
    parse_owned zero_sha raw = Inr (Some \<lparr>nonce = 7, rules = [null_rw], original = deny_all\<rparr>)"
proof -
  obtain raw where raw: "emit_owned zero_sha [null_rw] 7 deny_all = Inr raw"
    using emit_wrappable [OF deny_all_decode deny_all_gate] null_rw_fields by fastforce
  have "small_numbers null_rw" "normal_rules [null_rw] = [null_rw]" by code_simp+
  moreover have "int (length raw) \<le> U32_MAX"
    using emit_bound [OF raw] by (simp add: deny_all_def U32_MAX_def)
  ultimately show ?thesis
    using raw parse_emit_roundtrip [OF raw deny_all_canonical] by auto
qed


text \<open>
  C17. Ownership is never inferred from a partial match: a program taken apart as one of the
  daemon's wrappers is, byte for byte, the wrapper of the rules, nonce and original that came
  out, and it answers requests accordingly.
\<close>

theorem parse_owned_sound:
  assumes "parse_owned sha raw = Inr (Some p)"
  shows "emit_owned sha (rules p) (nonce p) (original p) = Inr raw \<and>
    (\<forall>q v. valid_request q \<longrightarrow> run_tracked (original p) q = Some v \<longrightarrow>
      run_device_filter raw q =
        Some (case rules_verdict (rules p) q of Some b \<Rightarrow> verdict b | None \<Rightarrow> v))"
  using parse_owned_emit [OF assms] wrapper_verdict [OF parse_owned_emit [OF assms]] by blast

theorem parse_owned_sound_witness:
  "\<exists>raw p. parse_owned zero_sha raw = Inr (Some p) \<and>
    emit_owned zero_sha (rules p) (nonce p) (original p) = Inr raw"
proof -
  obtain raw where raw: "emit_owned zero_sha [] 7 deny_all = Inr raw"
    using emit_wrappable [OF deny_all_decode deny_all_gate, of "[]"] by auto
  have "int (length raw) \<le> U32_MAX"
    using emit_bound [OF raw] by (simp add: deny_all_def U32_MAX_def)
  then have "parse_owned zero_sha raw =
      Inr (Some \<lparr>nonce = 7, rules = normal_rules [], original = deny_all\<rparr>)"
    using parse_emit [OF raw deny_all_canonical] by simp
  from this parse_owned_sound [OF this] show ?thesis by blast
qed

text \<open>
  C18. Stripping wrappers ends, since every original is shorter than its wrapper, and what is left
  is no wrapper: the original under them all is a bare program.
\<close>

theorem innermost_bare:
  "innermost sha orig = Inr bare \<Longrightarrow>
     parse_owned sha bare = Inr None \<and> length bare \<le> length orig"
proof (induction sha orig rule: innermost.induct)
  case (1 sha orig)
  show ?case
  proof (cases "parse_owned sha orig")
    case (Inr p)
    show ?thesis
    proof (cases p)
      case (Some inner)
      have "innermost sha (original inner) = Inr bare"
        using "1.prems" Inr Some by (subst (asm) innermost.simps) simp
      with "1.IH" [OF Inr Some] parse_owned_emit [of sha orig inner] emit_owned_length Inr Some
      show ?thesis by fastforce
    qed (use "1.prems" Inr in \<open>simp add: innermost.simps\<close>)
  qed (use "1.prems" in \<open>simp add: innermost.simps\<close>)
qed

theorem innermost_bare_witness:
  "innermost zero_sha deny_all = Inr deny_all \<and> parse_owned zero_sha deny_all = Inr None"
proof -
  have "parse_owned zero_sha deny_all = Inr None"
    by (simp add: parse_owned_def from_canonical_def deny_all_decode magic_defs)
  then have "innermost zero_sha deny_all = Inr deny_all" by (simp add: innermost.simps)
  with innermost_bare [OF this] show ?thesis by simp
qed

text \<open>
  C19. The gate lets through only programs whose bytes are canonical: decoding and encoding them
  again gives the same bytes, so the digest and the byte comparison of a later parse are over
  what the kernel reported.
\<close>

theorem gate_accepts_canonical:
  assumes "decode orig = Inr os" and "check_wrappable os meta = Inr ()"
  shows "canonical orig \<and> (\<forall>i \<in> set os. in_subset i \<and> width i = 1)"
proof -
  have "in_subset i" if "i \<in> set os" for i
    using check_wrappable_all(2) [OF assms(2)] that by (auto simp: in_set_conv_nth)
  then show ?thesis
    using gate_canonical [OF assms] subset_not_wide by (auto simp: width_def)
qed

theorem gate_accepts_canonical_witness: "canonical deny_all"
  using gate_accepts_canonical [OF deny_all_decode deny_all_gate] by simp



text \<open>
  C21. A wrapper adds at most 152 bytes and 64 bytes per rule to its original.
\<close>

theorem emit_length_bound:
  assumes "emit_owned sha rs n orig = Inr raw"
  shows "length orig < length raw \<and> length raw \<le> length orig + 8 * (19 + 8 * length rs)"
  using emit_bound [OF assms] emit_owned_length [OF assms] by simp

theorem emit_length_bound_witness:
  "\<exists>raw. emit_owned zero_sha [null_rw] 7 deny_all = Inr raw \<and> length raw \<le> 232"
proof -
  obtain raw where raw: "emit_owned zero_sha [null_rw] 7 deny_all = Inr raw"
    using emit_wrappable [OF deny_all_decode deny_all_gate] null_rw_fields by fastforce
  with emit_length_bound [OF raw] show ?thesis by (auto simp: deny_all_def)
qed



end
