(* ===== verification/Text.thy ===== *)
theory Text
  imports Prelude
begin

text \<open>
  The line reader of \<open>src/src/text.rs\<close>: bytes are characters, a line that reaches
  \<open>MAX_LINE\<close> bytes ends the iteration with an error.
\<close>

definition MAX_LINE :: nat where "MAX_LINE = 64 * 1024"

datatype line_too_long = LineTooLong

definition strip_cr :: "string \<Rightarrow> string" where
  "strip_cr line = (if line \<noteq> [] \<and> last line = CHR 0x0D then butlast line else line)"

text \<open>\<open>Lines::next\<close>: the item and what is left, or the end of the iteration.\<close>

definition next_line :: "string \<Rightarrow> ((string, line_too_long) result \<times> string) option" where
  "next_line data =
     (if data = [] then None
      else let line = takeWhile (\<lambda>c. c \<noteq> CHR ''\<newline>'') data in
        if length line < MAX_LINE then
          Some (Inr (strip_cr line), drop (Suc (length line)) data)
        else Some (Inl LineTooLong, []))"

function lines :: "string \<Rightarrow> (string, line_too_long) result list" where
  "lines data =
     (case next_line data of None \<Rightarrow> [] | Some (item, rest) \<Rightarrow> item # lines rest)"
  by pat_completeness auto
termination
  by (relation "measure length") (auto simp: next_line_def Let_def split: if_splits)

declare lines.simps [simp del]

lemma lines_Nil [simp]: "lines [] = []"
  by (simp add: lines.simps next_line_def)

lemma takeWhile_line:
  "CHR ''\<newline>'' \<notin> set l \<Longrightarrow> takeWhile (\<lambda>c. c \<noteq> CHR ''\<newline>'') (l @ CHR ''\<newline>'' # rest) = l"
  by (induction l) auto

lemma lines_Cons:
  assumes "CHR ''\<newline>'' \<notin> set l" and "length l < MAX_LINE"
  shows "lines (l @ CHR ''\<newline>'' # rest) = Inr (strip_cr l) # lines rest"
  using assms by (subst lines.simps) (simp add: next_line_def takeWhile_line)

lemma lines_last:
  assumes "l \<noteq> []" and "CHR ''\<newline>'' \<notin> set l" and "length l < MAX_LINE"
  shows "lines l = [Inr (strip_cr l)]"
proof -
  have tw: "takeWhile (\<lambda>c. c \<noteq> CHR ''\<newline>'') l = l" using assms(2) by (induction l) auto
  show ?thesis using assms(1,3) by (subst lines.simps) (simp add: next_line_def tw)
qed

section \<open>UTF-8\<close>

text \<open>
  A Rust string is its UTF-8 bytes. \<open>chars\<close> splits bytes into characters, each the bytes of
  one code point; an ill-formed sequence is one replacement character for its longest valid
  prefix, as \<open>String::from_utf8_lossy\<close> decodes it.
\<close>

abbreviation byte_of :: "char \<Rightarrow> nat" where "byte_of c \<equiv> of_char c"

definition utf8_width :: "char \<Rightarrow> nat" where
  "utf8_width b =
     (if byte_of b < 0x80 then 1
      else if 0xC2 \<le> byte_of b \<and> byte_of b \<le> 0xDF then 2
      else if 0xE0 \<le> byte_of b \<and> byte_of b \<le> 0xEF then 3
      else if 0xF0 \<le> byte_of b \<and> byte_of b \<le> 0xF4 then 4
      else 0)"

definition is_continuation :: "char \<Rightarrow> bool" where
  "is_continuation b \<longleftrightarrow> 0x80 \<le> byte_of b \<and> byte_of b \<le> 0xBF"

text \<open>The second byte of a character of three or four bytes excludes overlong forms and surrogates.\<close>

definition second_ok :: "char \<Rightarrow> char \<Rightarrow> bool" where
  "second_ok b c \<longleftrightarrow> is_continuation c
     \<and> (byte_of b = 0xE0 \<longrightarrow> 0xA0 \<le> byte_of c) \<and> (byte_of b = 0xED \<longrightarrow> byte_of c \<le> 0x9F)
     \<and> (byte_of b = 0xF0 \<longrightarrow> 0x90 \<le> byte_of c) \<and> (byte_of b = 0xF4 \<longrightarrow> byte_of c \<le> 0x8F)"

definition replacement :: string where
  "replacement = [CHR 0xEF, CHR 0xBF, CHR 0xBD]"

fun utf8_tail :: "nat \<Rightarrow> string \<Rightarrow> string \<Rightarrow> string \<times> string" where
  "utf8_tail 0 done bs = (done, bs)"
| "utf8_tail (Suc n) done [] = (replacement, [])"
| "utf8_tail (Suc n) done (b # bs) =
     (if is_continuation b then utf8_tail n (done @ [b]) bs else (replacement, b # bs))"

fun utf8_next :: "string \<Rightarrow> string \<times> string" where
  "utf8_next [] = ([], [])"
| "utf8_next (b # bs) =
     (if utf8_width b = 0 then (replacement, bs)
      else if utf8_width b = 1 then ([b], bs)
      else if utf8_width b = 2 then utf8_tail 1 [b] bs
      else case bs of
        [] \<Rightarrow> (replacement, [])
      | c # cs \<Rightarrow>
          if second_ok b c then utf8_tail (utf8_width b - 2) [b, c] cs else (replacement, bs))"

lemma utf8_tail_length: "length (snd (utf8_tail n d bs)) \<le> length bs"
  by (induction n d bs rule: utf8_tail.induct) auto

lemma utf8_next_length: "bs \<noteq> [] \<Longrightarrow> length (snd (utf8_next bs)) < length bs"
proof (cases bs)
  case (Cons b cs)
  have "length (snd (utf8_tail n d es)) < Suc (length es)" for n d es
    using utf8_tail_length [of n d es] by simp
  moreover have "length (snd (utf8_tail n d es)) < Suc (Suc (length es))" for n d es
    using utf8_tail_length [of n d es] by simp
  ultimately show ?thesis by (auto simp: Cons split: list.splits)
qed simp

function chars :: "string \<Rightarrow> string list" where
  "chars bs = (if bs = [] then [] else fst (utf8_next bs) # chars (snd (utf8_next bs)))"
  by pat_completeness auto
termination
  by (relation "measure length") (simp_all add: utf8_next_length)

declare chars.simps [simp del]

definition from_utf8_lossy :: "string \<Rightarrow> string" where
  "from_utf8_lossy bs = concat (chars bs)"

text \<open>The code points with the property White_Space.\<close>

definition is_whitespace :: "string \<Rightarrow> bool" where
  "is_whitespace c \<longleftrightarrow>
     map byte_of c \<in> set ([[9], [10], [11], [12], [13], [32], [0xC2, 0x85], [0xC2, 0xA0],
       [0xE1, 0x9A, 0x80], [0xE2, 0x80, 0xA8], [0xE2, 0x80, 0xA9], [0xE2, 0x80, 0xAF],
       [0xE2, 0x81, 0x9F], [0xE3, 0x80, 0x80]] @ map (\<lambda>n. [0xE2, 0x80, n]) [0x80 ..< 0x8B])"

definition trim :: "string \<Rightarrow> string" where
  "trim s = concat (rev (dropWhile is_whitespace (rev (dropWhile is_whitespace (chars s)))))"

function words :: "string list \<Rightarrow> string list" where
  "words cs =
     (case dropWhile is_whitespace cs of
        [] \<Rightarrow> []
      | c # cs' \<Rightarrow>
          concat (c # takeWhile (\<lambda>x. \<not> is_whitespace x) cs')
            # words (dropWhile (\<lambda>x. \<not> is_whitespace x) cs'))"
  by pat_completeness auto
termination
proof (relation "measure length")
  fix cs cs' :: "string list" and c
  assume "dropWhile is_whitespace cs = c # cs'"
  then have "length (c # cs') \<le> length cs" by (metis length_dropWhile_le)
  moreover have "length (dropWhile (\<lambda>x. \<not> is_whitespace x) cs') \<le> length cs'" by (rule length_dropWhile_le)
  ultimately show "(dropWhile (\<lambda>x. \<not> is_whitespace x) cs', cs) \<in> measure length" by simp
qed simp

declare words.simps [simp del]

definition split_whitespace :: "string \<Rightarrow> string list" where
  "split_whitespace s = words (chars s)"

section \<open>Splitting at a separator\<close>

fun split_on :: "char \<Rightarrow> string \<Rightarrow> string list" where
  "split_on d [] = [[]]"
| "split_on d (c # cs) =
     (if c = d then [] # split_on d cs
      else case split_on d cs of [] \<Rightarrow> [[c]] | p # ps \<Rightarrow> (c # p) # ps)"

fun splitn :: "nat \<Rightarrow> char \<Rightarrow> string \<Rightarrow> string list" where
  "splitn 0 d s = []"
| "splitn (Suc 0) d s = [s]"
| "splitn (Suc (Suc n)) d s =
     (if d \<in> set s
      then takeWhile (\<lambda>c. c \<noteq> d) s # splitn (Suc n) d (tl (dropWhile (\<lambda>c. c \<noteq> d) s))
      else [s])"

section \<open>ASCII text\<close>

definition ascii :: "string \<Rightarrow> bool" where
  "ascii s \<longleftrightarrow> (\<forall>c \<in> set s. byte_of c < 0x80)"

lemma ascii_simps [simp]:
  "ascii []" "ascii (c # s) \<longleftrightarrow> byte_of c < 0x80 \<and> ascii s" "ascii (s @ t) \<longleftrightarrow> ascii s \<and> ascii t"
  by (auto simp: ascii_def)

lemma chars_ascii: "ascii s \<Longrightarrow> chars s = map (\<lambda>c. [c]) s"
  by (induction s) (simp_all add: chars.simps utf8_width_def)

lemma from_utf8_lossy_ascii: "ascii s \<Longrightarrow> from_utf8_lossy s = s"
  by (simp add: from_utf8_lossy_def chars_ascii)

lemma split_on_append:
  "d \<notin> set p \<Longrightarrow> split_on d (p @ d # s) = p # split_on d s"
  by (induction p) auto

lemma split_on_none: "d \<notin> set p \<Longrightarrow> split_on d p = [p]"
  by (induction p) auto

lemma words_Cons:
  assumes "w \<noteq> []" and "\<forall>c \<in> set w. \<not> is_whitespace [c]" and "is_whitespace [b]"
  shows "words (map (\<lambda>c. [c]) w @ [b] # cs) = w # words cs"
    and "words (map (\<lambda>c. [c]) w) = [w]"
proof -
  obtain c w' where w: "w = c # w'" using assms(1) by (cases w) auto
  have flat: "concat (map (\<lambda>c. [c]) v) = v" for v :: string by (induction v) auto
  have nw: "\<not> is_whitespace [c]" "\<forall>x \<in> set (map (\<lambda>c. [c]) w'). \<not> is_whitespace x"
    using assms(2) w by auto
  have drop_b: "words ([b] # cs) = words cs"
    using assms(3) by (simp add: words.simps [of "[b] # cs"] words.simps [of cs])
  have "takeWhile (\<lambda>x. \<not> is_whitespace x) (map (\<lambda>c. [c]) w' @ [b] # cs) = map (\<lambda>c. [c]) w'"
    "dropWhile (\<lambda>x. \<not> is_whitespace x) (map (\<lambda>c. [c]) w' @ [b] # cs) = [b] # cs"
    using nw(2) assms(3) by (induction w') auto
  then show "words (map (\<lambda>c. [c]) w @ [b] # cs) = w # words cs"
    using nw assms(3) drop_b flat
    by (subst words.simps) (simp add: w)
  have tw: "takeWhile (\<lambda>x. \<not> is_whitespace x) (map (\<lambda>c. [c]) w') = map (\<lambda>c. [c]) w'"
    "dropWhile (\<lambda>x. \<not> is_whitespace x) (map (\<lambda>c. [c]) w') = []"
    using nw(2) by (induction w') auto
  show "words (map (\<lambda>c. [c]) w) = [w]"
    using nw(1) flat by (subst words.simps) (simp add: w tw words.simps [of "[]"])
qed

end
