(* ===== verification/Cgroup_Error.thy ===== *)
theory Cgroup_Error
  imports Owned Text
begin

text \<open>
  The errors of the cgroup controllers: \<open>src/src/cgroup/error.rs\<close> and the kernel operation
  errors of \<open>src/src/cgroup/v2ops.rs\<close>. An errno is its number.
\<close>

type_synonym errno = nat

definition EPERM :: errno where "EPERM = 1"
definition ENOENT :: errno where "ENOENT = 2"
definition EACCES :: errno where "EACCES = 13"
definition EINVAL :: errno where "EINVAL = 22"
definition ENOSPC :: errno where "ENOSPC = 28"
definition EFAULT :: errno where "EFAULT = 14"

section \<open>Kernel operations\<close>

datatype fetch_error = GetById errno | Discover errno

datatype info_error = ObjInfo errno | Xlated errno

datatype instructions_error = Restricted | NotSupported | InsnDecode decode_error

datatype load_error =
    LoadEmpty
  | LoadEncode nat encode_cause
  | Attempts errno
  | Memlock errno
  | VerifierBug errno
  | Verifier errno "string option" "string list"

datatype ops_error =
    OpQuery errno
  | IncompleteProgList
  | OpFetch fetch_error
  | OpLoad load_error
  | OpAttach u32 errno
  | OpDetach errno
  | OldKernel
  | OpInfo info_error
  | OpInstructions instructions_error

definition is_permission :: "fetch_error \<Rightarrow> bool" where
  "is_permission e =
     (case e of GetById n \<Rightarrow> n = EACCES \<or> n = EPERM | Discover n \<Rightarrow> n = EACCES \<or> n = EPERM)"

definition load_errno :: "load_error \<Rightarrow> errno option" where
  "load_errno e =
     (case e of
        Attempts n \<Rightarrow> Some n
      | Memlock n \<Rightarrow> Some n
      | VerifierBug n \<Rightarrow> Some n
      | Verifier n _ _ \<Rightarrow> Some n
      | LoadEmpty \<Rightarrow> None
      | LoadEncode _ _ \<Rightarrow> None)"

definition ops_errno :: "ops_error \<Rightarrow> errno option" where
  "ops_errno e =
     (case e of
        OpQuery n \<Rightarrow> Some n
      | OpAttach _ n \<Rightarrow> Some n
      | OpDetach n \<Rightarrow> Some n
      | OpInfo (ObjInfo n) \<Rightarrow> Some n
      | OpInfo (Xlated n) \<Rightarrow> Some n
      | OpFetch (GetById n) \<Rightarrow> Some n
      | OpFetch (Discover n) \<Rightarrow> Some n
      | OpLoad l \<Rightarrow> load_errno l
      | IncompleteProgList \<Rightarrow> None
      | OldKernel \<Rightarrow> None
      | OpInstructions _ \<Rightarrow> None)"

definition is_not_wrappable :: "ops_error \<Rightarrow> bool" where
  "is_not_wrappable e \<longleftrightarrow> e = OldKernel"

section \<open>Controller errors\<close>

datatype list_entry_cause = ListNumber string parse_int_error | ListAccess string

datatype file_error =
    FileOpen string errno
  | FileRead string errno
  | FileWrite string string errno

datatype cgroup_error =
    DenyRule
  | ConcreteRule string
  | UnknownAccessLetter string
  | ListEntry string "list_entry_cause option"
  | ReadList line_too_long
  | File file_error
  | Revoke string file_error
  | Grant string file_error
  | Verify cgroup_error
  | Drift "string list"
  | Joined "cgroup_error list"
  | Query ops_error
  | FiltersInaccessible nat nat
  | FilterMissing
  | UnsupportedAttachMode u32
  | Ops ops_error
  | Canonical "nat \<times> encode_cause"
  | OwnedErr owned_error
  | Gate gate_error
  | DecodeErr decode_error
  | Emit emit_error
  | Nonce errno
  | Change nat nat cgroup_error
  | Replace ops_error
  | AttachNew ops_error
  | DetachOriginal ops_error
  | Rollback ops_error

text \<open>\<open>Error::any\<close>: the error itself, or one it joins or wraps.\<close>

fun any_error :: "(cgroup_error \<Rightarrow> bool) \<Rightarrow> cgroup_error \<Rightarrow> bool" where
  "any_error P (Joined es) \<longleftrightarrow> P (Joined es) \<or> (\<exists>e \<in> set es. any_error P e)"
| "any_error P (Verify e) \<longleftrightarrow> P (Verify e) \<or> any_error P e"
| "any_error P (Change a b e) \<longleftrightarrow> P (Change a b e) \<or> any_error P e"
| "any_error P e \<longleftrightarrow> P e"

definition is_drift :: "cgroup_error \<Rightarrow> bool" where
  "is_drift = any_error (\<lambda>e. case e of Drift _ \<Rightarrow> True | _ \<Rightarrow> False)"

definition is_filter_missing :: "cgroup_error \<Rightarrow> bool" where
  "is_filter_missing = any_error (\<lambda>e. e = FilterMissing)"

definition is_filters_inaccessible :: "cgroup_error \<Rightarrow> bool" where
  "is_filters_inaccessible =
     any_error (\<lambda>e. case e of FiltersInaccessible _ _ \<Rightarrow> True | _ \<Rightarrow> False)"

definition is_unsupported_attach_mode :: "cgroup_error \<Rightarrow> bool" where
  "is_unsupported_attach_mode =
     any_error (\<lambda>e. case e of UnsupportedAttachMode _ \<Rightarrow> True | _ \<Rightarrow> False)"

definition is_owned_block_conflict :: "cgroup_error \<Rightarrow> bool" where
  "is_owned_block_conflict =
     any_error (\<lambda>e. case e of OwnedErr o' \<Rightarrow> is_conflict o' | _ \<Rightarrow> False)"

definition is_program_not_wrappable :: "cgroup_error \<Rightarrow> bool" where
  "is_program_not_wrappable =
     any_error (\<lambda>e. case e of
       Gate _ \<Rightarrow> True
     | Query o' \<Rightarrow> is_not_wrappable o'
     | Ops o' \<Rightarrow> is_not_wrappable o'
     | Replace o' \<Rightarrow> is_not_wrappable o'
     | AttachNew o' \<Rightarrow> is_not_wrappable o'
     | DetachOriginal o' \<Rightarrow> is_not_wrappable o'
     | Rollback o' \<Rightarrow> is_not_wrappable o'
     | _ \<Rightarrow> False)"

end
