(* ===== verification/V2ops.thy ===== *)
theory V2ops
  imports Cgroup_Error
begin

text \<open>
  The kernel surface of the cgroup v2 controller, \<open>src/src/cgroup/v2ops.rs\<close>: the \<open>V2Ops\<close>
  trait as a record of operations on a kernel state \<open>'k\<close> with program handles \<open>'p\<close>, the
  replace probe, the growth of the verifier log and the kernel release check.
\<close>

section \<open>The operations\<close>

definition F_ALLOW_OVERRIDE :: u32 where "F_ALLOW_OVERRIDE = 1"
definition F_ALLOW_MULTI :: u32 where "F_ALLOW_MULTI = 2"

record 'p attached =
  progs :: "'p list"
  total_progs :: nat
  inaccessible :: nat
  attach_flags :: u32

record ('k, 'p) v2ops =
  op_query :: "('k, 'p attached, ops_error) call"
  op_load :: "string \<Rightarrow> instruction list \<Rightarrow> ('k, 'p, ops_error) call"
  op_attach :: "'p \<Rightarrow> u32 \<Rightarrow> 'p option \<Rightarrow> ('k, unit, ops_error) call"
  op_detach :: "'p \<Rightarrow> ('k, unit, ops_error) call"
  op_instructions :: "'p \<Rightarrow> ('k, instruction list \<times> prog_meta, ops_error) call"

section \<open>The replace probe\<close>

datatype replace_probe = ReplaceUnknown | ReplaceSupported | ReplaceUnsupported

definition probe_usable :: "replace_probe \<Rightarrow> bool" where
  "probe_usable p \<longleftrightarrow> p \<noteq> ReplaceUnsupported"

text \<open>The first success or \<open>EINVAL\<close> decides: a later outcome changes nothing.\<close>

definition probe_record :: "(unit, ops_error) result \<Rightarrow> replace_probe \<Rightarrow> replace_probe" where
  "probe_record outcome p =
     (case outcome of
        Inr _ \<Rightarrow> if p = ReplaceUnknown then ReplaceSupported else p
      | Inl e \<Rightarrow>
          if ops_errno e = Some EINVAL then
            (if p = ReplaceUnknown then ReplaceUnsupported else p)
          else p)"

definition describe_attach_flags :: "u32 \<Rightarrow> string" where
  "describe_attach_flags flags =
     (let override = flags AND F_ALLOW_OVERRIDE \<noteq> 0; multi = flags AND F_ALLOW_MULTI \<noteq> 0 in
      if override \<and> multi then ''BPF_F_ALLOW_OVERRIDE|BPF_F_ALLOW_MULTI''
      else if override then ''BPF_F_ALLOW_OVERRIDE''
      else if multi then ''BPF_F_ALLOW_MULTI''
      else ''none (exclusive)'')"

section \<open>The verifier log\<close>

definition MIN_VERIFIER_LOG_SIZE :: u32 where "MIN_VERIFIER_LOG_SIZE = 65536"
definition MAX_VERIFIER_LOG_SIZE :: u32 where "MAX_VERIFIER_LOG_SIZE = 0x3fffffff"
definition LOG_LEVEL_BRANCH :: u32 where "LOG_LEVEL_BRANCH = 1"

record load_failure =
  failure_errno :: errno
  log_true_size :: u32

text \<open>Whether to load again, with the log level and size of the next attempt.\<close>

definition clamp :: "u32 \<Rightarrow> u32 \<Rightarrow> u32 \<Rightarrow> u32" where
  "clamp v lo hi = (if v < lo then lo else if v > hi then hi else v)"

definition retry_log :: "u32 \<Rightarrow> u32 \<Rightarrow> load_failure \<Rightarrow> (u32 \<times> u32) option" where
  "retry_log level sz failure =
     (if sz = MAX_VERIFIER_LOG_SIZE then None
      else if failure_errno failure = ENOSPC then
        Some (level,
          if log_true_size failure \<noteq> 0 then log_true_size failure
          else if sz \<ge> MAX_VERIFIER_LOG_SIZE div 2 then MAX_VERIFIER_LOG_SIZE
          else clamp sz MIN_VERIFIER_LOG_SIZE (MAX_VERIFIER_LOG_SIZE div 2) * 2)
      else if level = 0 then Some (LOG_LEVEL_BRANCH, MIN_VERIFIER_LOG_SIZE)
      else None)"

section \<open>The kernel release\<close>

text \<open>
  \<open>scan_decimal\<close>: Go's \<open>%d\<close> verb on ASCII text. Leading blanks other than the newline are
  skipped; the result carries what follows the digits.
\<close>

definition is_blank :: "char \<Rightarrow> bool" where
  "is_blank c \<longleftrightarrow> c \<in> {CHR '' '', CHR 0x09, CHR 0x0B, CHR 0x0C, CHR 0x0D}"

definition scan_decimal :: "string \<Rightarrow> (int \<times> string) option" where
  "scan_decimal input =
     (let start = dropWhile is_blank input;
          sign = (if start \<noteq> [] \<and> (hd start = CHR ''+'' \<or> hd start = CHR ''-'')
                  then [hd start] else []);
          unsigned = drop (length sign) start;
          digits = takeWhile is_digit unsigned
      in if digits = [] then None
         else case parse_i64 (sign @ digits) of
           Inl _ \<Rightarrow> None
         | Inr n \<Rightarrow> Some (n, drop (length digits) unsigned))"

definition kernel_at_least :: "string \<Rightarrow> int \<Rightarrow> int \<Rightarrow> bool" where
  "kernel_at_least release want_major want_minor =
     (case scan_decimal release of
        None \<Rightarrow> False
      | Some (ma, rest) \<Rightarrow>
          (case rest of
             c # rest' \<Rightarrow>
               (if c \<noteq> CHR ''.'' then False
                else case scan_decimal rest' of
                  None \<Rightarrow> False
                | Some (mi, _) \<Rightarrow> ma > want_major \<or> ma = want_major \<and> mi \<ge> want_minor)
           | [] \<Rightarrow> False))"

end
