(* ===== verification/V2plan.thy ===== *)
theory V2plan
  imports V2ops
begin

text \<open>
  The plan of a cgroup v2 pass, \<open>src/src/cgroup/v2plan.rs\<close>: the cache of the lineages seen,
  the grouping of the attached programs by lineage, and the grant, restore and rebuild plans.
  A plan is complete before anything is loaded or attached. Nonces are drawn from the argument
  \<open>rand\<close>, whose n-th answer is the n-th draw.
\<close>

section \<open>The filter cache\<close>

record identity =
  id_path :: string
  id_inode :: u64

record cached_lineage =
  cl_nonce :: u64
  cl_original :: bytes
  cl_meta :: prog_meta

record cache_entry =
  lineages :: "cached_lineage list"
  rebuilding :: bool

type_synonym filter_cache = "identity \<Rightarrow> cache_entry option"

definition empty_entry :: cache_entry where
  "empty_entry = \<lparr>lineages = [], rebuilding = False\<rparr>"

definition cache_forget :: "identity \<Rightarrow> filter_cache \<Rightarrow> filter_cache" where
  "cache_forget i c = c(i := None)"

definition cache_get :: "identity \<Rightarrow> filter_cache \<Rightarrow> cache_entry" where
  "cache_get i c = (case c i of None \<Rightarrow> empty_entry | Some e \<Rightarrow> e)"

definition cache_set :: "identity \<Rightarrow> cache_entry \<Rightarrow> filter_cache \<Rightarrow> filter_cache" where
  "cache_set i e c = c(i \<mapsto> e)"

section \<open>Programs, groups and plans\<close>

record attached_prog =
  ap_index :: nat
  ap_raw :: bytes
  ap_meta :: prog_meta
  ap_owned :: bool
  ap_nonce :: u64
  ap_original :: bytes

record wrapper_group =
  wg_nonce :: u64
  wg_original :: bytes
  wg_meta :: prog_meta
  members :: "attached_prog list"

datatype plan_step =
    Attach nat
  | Detach nat
  | Pair nat nat

record pass_plan =
  loads :: "bytes list"
  names :: "string list"
  steps :: "plan_step list"
  plan_lineages :: "cached_lineage list"

definition OWNED_PROGRAM_NAME :: string where
  "OWNED_PROGRAM_NAME = ''sda_devfilter''"

definition empty_plan :: pass_plan where
  "empty_plan = \<lparr>loads = [], names = [], steps = [], plan_lineages = []\<rparr>"

definition plan_load :: "bytes \<Rightarrow> string \<Rightarrow> pass_plan \<Rightarrow> pass_plan" where
  "plan_load raw name p = p\<lparr>loads := loads p @ [raw], names := names p @ [name]\<rparr>"

definition plan_pair :: "nat \<Rightarrow> bytes \<Rightarrow> string \<Rightarrow> pass_plan \<Rightarrow> pass_plan" where
  "plan_pair old raw name p =
     (plan_load raw name p)\<lparr>steps := steps p @ [Pair old (length (loads p))]\<rparr>"

definition plan_attach :: "bytes \<Rightarrow> string \<Rightarrow> pass_plan \<Rightarrow> pass_plan" where
  "plan_attach raw name p =
     (plan_load raw name p)\<lparr>steps := steps p @ [Attach (length (loads p))]\<rparr>"

definition plan_detach :: "nat \<Rightarrow> pass_plan \<Rightarrow> pass_plan" where
  "plan_detach old p = p\<lparr>steps := steps p @ [Detach old]\<rparr>"

definition plan_lineage :: "u64 \<Rightarrow> bytes \<Rightarrow> prog_meta \<Rightarrow> pass_plan \<Rightarrow> pass_plan" where
  "plan_lineage n orig meta p =
     p\<lparr>plan_lineages := plan_lineages p @ [\<lparr>cl_nonce = n, cl_original = orig, cl_meta = meta\<rparr>]\<rparr>"

definition new_nonce :: "(nat \<Rightarrow> (u64, errno) result) \<Rightarrow> (nat, u64, cgroup_error) call" where
  "new_nonce rand d = (map_err Nonce (rand d), Suc d)"

definition gate :: "bytes \<Rightarrow> prog_meta \<Rightarrow> (unit, cgroup_error) result" where
  "gate orig meta =
     bindR (map_err DecodeErr (from_canonical orig)) (\<lambda>is.
       map_err Gate (check_wrappable is meta))"

section \<open>Lineages\<close>

definition same_lineage :: "attached_prog \<Rightarrow> wrapper_group \<Rightarrow> bool" where
  "same_lineage prog g \<longleftrightarrow> wg_nonce g = ap_nonce prog \<and> wg_original g = ap_original prog"

definition add_member :: "attached_prog \<Rightarrow> wrapper_group list \<Rightarrow> wrapper_group list" where
  "add_member prog groups =
     (case find_index (same_lineage prog) groups of
        Some i \<Rightarrow> groups[i := (groups ! i)\<lparr>members := members (groups ! i) @ [prog]\<rparr>]
      | None \<Rightarrow>
          groups @ [\<lparr>wg_nonce = ap_nonce prog, wg_original = ap_original prog,
                     wg_meta = ap_meta prog, members = [prog]\<rparr>])"

fun group_loop ::
  "attached_prog list \<Rightarrow> wrapper_group list \<Rightarrow> attached_prog list
    \<Rightarrow> wrapper_group list \<times> attached_prog list" where
  "group_loop [] groups bares = (groups, bares)"
| "group_loop (p # ps) groups bares =
     (if \<not> ap_owned p then group_loop ps groups (bares @ [p])
      else group_loop ps (add_member p groups) bares)"

definition group_wrappers ::
  "attached_prog list \<Rightarrow> wrapper_group list \<times> attached_prog list" where
  "group_wrappers ps = group_loop ps [] []"

section \<open>The grant plan\<close>

fun detach_except :: "nat \<Rightarrow> nat \<Rightarrow> attached_prog list \<Rightarrow> pass_plan \<Rightarrow> pass_plan" where
  "detach_except keep i [] p = p"
| "detach_except keep i (m # ms) p =
     detach_except keep (Suc i) ms (if i \<noteq> keep then plan_detach (ap_index m) p else p)"

definition grant_group ::
  "(bytes \<Rightarrow> bytes) \<Rightarrow> device_rule list \<Rightarrow> wrapper_group \<Rightarrow> pass_plan
    \<Rightarrow> (pass_plan, cgroup_error) result" where
  "grant_group sha rs g p =
     bindR (map_err Emit (emit_owned sha rs (wg_nonce g) (wg_original g))) (\<lambda>desired.
       let existing = find_index (\<lambda>m. ap_raw m = desired) (members g);
           keep = (case existing of Some k \<Rightarrow> k | None \<Rightarrow> 0);
           p1 = (case existing of
                   Some k \<Rightarrow> p
                 | None \<Rightarrow> plan_pair (ap_index (hd (members g))) desired OWNED_PROGRAM_NAME p)
       in Inr (plan_lineage (wg_nonce g) (wg_original g) (wg_meta g)
                (detach_except keep 0 (members g) p1)))"

fun grant_groups ::
  "(bytes \<Rightarrow> bytes) \<Rightarrow> device_rule list \<Rightarrow> wrapper_group list \<Rightarrow> pass_plan
    \<Rightarrow> (pass_plan, cgroup_error) result" where
  "grant_groups sha rs [] p = Inr p"
| "grant_groups sha rs (g # gs) p =
     bindR (grant_group sha rs g p) (\<lambda>p'. grant_groups sha rs gs p')"

definition grant_bare ::
  "(bytes \<Rightarrow> bytes) \<Rightarrow> (nat \<Rightarrow> (u64, errno) result) \<Rightarrow> device_rule list \<Rightarrow> attached_prog
    \<Rightarrow> pass_plan \<Rightarrow> (nat, pass_plan, cgroup_error) call" where
  "grant_bare sha rand rs b p =
     bindS (liftS (gate (ap_raw b) (ap_meta b))) (\<lambda>_.
     bindS (new_nonce rand) (\<lambda>n.
     bindS (liftS (map_err Emit (emit_owned sha rs n (ap_raw b)))) (\<lambda>wrapped.
       retS (plan_lineage n (ap_raw b) (ap_meta b)
              (plan_pair (ap_index b) wrapped OWNED_PROGRAM_NAME p)))))"

fun grant_bares ::
  "(bytes \<Rightarrow> bytes) \<Rightarrow> (nat \<Rightarrow> (u64, errno) result) \<Rightarrow> device_rule list
    \<Rightarrow> attached_prog list \<Rightarrow> pass_plan \<Rightarrow> (nat, pass_plan, cgroup_error) call" where
  "grant_bares sha rand rs [] p = retS p"
| "grant_bares sha rand rs (b # bs) p =
     bindS (grant_bare sha rand rs b p) (\<lambda>p'. grant_bares sha rand rs bs p')"

definition plan_grant ::
  "(bytes \<Rightarrow> bytes) \<Rightarrow> (nat \<Rightarrow> (u64, errno) result) \<Rightarrow> wrapper_group list
    \<Rightarrow> attached_prog list \<Rightarrow> device_rule list \<Rightarrow> (nat, pass_plan, cgroup_error) call" where
  "plan_grant sha rand groups bares rs =
     bindS (liftS (grant_groups sha rs groups empty_plan)) (\<lambda>p.
       grant_bares sha rand rs bares p)"

section \<open>The restore plan\<close>

definition detach_all :: "attached_prog list \<Rightarrow> pass_plan \<Rightarrow> pass_plan" where
  "detach_all ms p = foldl (\<lambda>p m. plan_detach (ap_index m) p) p ms"

text \<open>One group, with the flags of the bare programs that no earlier group has taken.\<close>

definition restore_group ::
  "attached_prog list \<Rightarrow> wrapper_group \<Rightarrow> bool list \<times> pass_plan \<Rightarrow> bool list \<times> pass_plan" where
  "restore_group bares g s =
     (case s of (available, p) \<Rightarrow>
       let matched = find_index (\<lambda>(b, free). free \<and> ap_raw b = wg_original g) (zip bares available);
           available' = (case matched of Some i \<Rightarrow> available[i := False] | None \<Rightarrow> available);
           p' = (case matched of
                   Some i \<Rightarrow> detach_all (members g) p
                 | None \<Rightarrow>
                     (case members g of
                        [] \<Rightarrow> p
                      | m # ms \<Rightarrow> detach_all ms (plan_pair (ap_index m) (wg_original g) [] p)))
       in (available', plan_lineage (wg_nonce g) (wg_original g) (wg_meta g) p'))"

definition restore_bare :: "pass_plan \<Rightarrow> attached_prog \<times> bool \<Rightarrow> pass_plan" where
  "restore_bare p bf =
     (case bf of (b, free) \<Rightarrow> if free then plan_lineage 0 (ap_raw b) (ap_meta b) p else p)"

definition plan_restore :: "wrapper_group list \<Rightarrow> attached_prog list \<Rightarrow> pass_plan" where
  "plan_restore groups bares =
     (let (available, p) =
        foldl (\<lambda>s g. restore_group bares g s) (replicate (length bares) True, empty_plan) groups
      in foldl restore_bare p (zip bares available))"

section \<open>The rebuild\<close>

definition rebuild_lineage ::
  "(bytes \<Rightarrow> bytes) \<Rightarrow> (nat \<Rightarrow> (u64, errno) result) \<Rightarrow> device_rule list \<Rightarrow> cached_lineage
    \<Rightarrow> pass_plan \<Rightarrow> (nat, pass_plan, cgroup_error) call" where
  "rebuild_lineage sha rand rs l p =
     bindS (liftS (gate (cl_original l) (cl_meta l))) (\<lambda>_.
     if rs = [] then
       retS (plan_lineage (cl_nonce l) (cl_original l) (cl_meta l) (plan_attach (cl_original l) [] p))
     else bindS (if cl_nonce l = 0 then new_nonce rand else retS (cl_nonce l)) (\<lambda>n.
       bindS (liftS (map_err Emit (emit_owned sha rs n (cl_original l)))) (\<lambda>wrapped.
         retS (plan_lineage n (cl_original l) (cl_meta l)
                (plan_attach wrapped OWNED_PROGRAM_NAME p)))))"

fun add_rebuild ::
  "(bytes \<Rightarrow> bytes) \<Rightarrow> (nat \<Rightarrow> (u64, errno) result) \<Rightarrow> device_rule list
    \<Rightarrow> cached_lineage list \<Rightarrow> pass_plan \<Rightarrow> (nat, pass_plan, cgroup_error) call" where
  "add_rebuild sha rand rs [] p = retS p"
| "add_rebuild sha rand rs (l # ls) p =
     bindS (rebuild_lineage sha rand rs l p) (\<lambda>p'. add_rebuild sha rand rs ls p')"

fun missing_loop ::
  "cached_lineage list \<Rightarrow> wrapper_group list \<Rightarrow> attached_prog list \<Rightarrow> bool list \<Rightarrow> bool list
    \<Rightarrow> cached_lineage list" where
  "missing_loop [] groups bares group_used bare_used = []"
| "missing_loop (l # ls) groups bares group_used bare_used =
     (case find_index (\<lambda>(g, used). \<not> used \<and> wg_nonce g = cl_nonce l \<and> wg_original g = cl_original l)
             (zip groups group_used) of
        Some i \<Rightarrow> missing_loop ls groups bares (group_used[i := True]) bare_used
      | None \<Rightarrow>
          (case find_index (\<lambda>(b, used). \<not> used \<and> ap_raw b = cl_original l) (zip bares bare_used) of
             Some i \<Rightarrow> missing_loop ls groups bares group_used (bare_used[i := True])
           | None \<Rightarrow> l # missing_loop ls groups bares group_used bare_used))"

definition missing_lineages ::
  "cached_lineage list \<Rightarrow> wrapper_group list \<Rightarrow> attached_prog list \<Rightarrow> cached_lineage list" where
  "missing_lineages cached groups bares =
     missing_loop cached groups bares (replicate (length groups) False)
       (replicate (length bares) False)"

end
