(* ===== verification/V2.thy ===== *)
theory V2
  imports V2plan
begin

text \<open>
  The cgroup v2 controller, \<open>src/src/cgroup/v2.rs\<close>, with the classification and the execution
  of \<open>src/src/cgroup/v2plan.rs\<close>. A pass runs on a world: the kernel, the replace probe, the
  filter cache and the number of nonces drawn.
\<close>

record 'k world =
  kern :: 'k
  probe :: replace_probe
  cache :: filter_cache
  draws :: nat

text \<open>A kernel operation, and a draw, inside a pass.\<close>

definition on_kern :: "('k, 'a, ops_error) call \<Rightarrow> ('k world, 'a, ops_error) call" where
  "on_kern m w = (case m (kern w) of (r, k) \<Rightarrow> (r, w\<lparr>kern := k\<rparr>))"

definition on_draws :: "(nat, 'a, 'e) call \<Rightarrow> ('k world, 'a, 'e) call" where
  "on_draws m w = (case m (draws w) of (r, d) \<Rightarrow> (r, w\<lparr>draws := d\<rparr>))"

definition set_cache :: "identity \<Rightarrow> cache_entry \<Rightarrow> ('k world, unit, 'e) call" where
  "set_cache i e w = (Inr (), w\<lparr>cache := cache_set i e (cache w)\<rparr>)"

section \<open>Classification\<close>

definition classify ::
  "(bytes \<Rightarrow> bytes) \<Rightarrow> ('k, 'p) v2ops \<Rightarrow> nat \<Rightarrow> 'p \<Rightarrow> ('k world, attached_prog, cgroup_error) call" where
  "classify sha ops index prog =
     bindS (map_errS Ops (on_kern (op_instructions ops prog))) (\<lambda>(is, meta).
     bindS (liftS (map_err Canonical (canonical_bytes is))) (\<lambda>raw.
     bindS (liftS (map_err OwnedErr (parse_owned_innermost sha raw))) (\<lambda>parsed.
       case parsed of
         None \<Rightarrow>
           retS \<lparr>ap_index = index, ap_raw = raw, ap_meta = meta, ap_owned = False, ap_nonce = 0,
                 ap_original = raw\<rparr>
       | Some owned \<Rightarrow>
           bindS (liftS (gate (original owned) meta)) (\<lambda>_.
             retS \<lparr>ap_index = index, ap_raw = raw, ap_meta = meta, ap_owned = True,
                   ap_nonce = nonce owned, ap_original = original owned\<rparr>))))"

fun classify_all ::
  "(bytes \<Rightarrow> bytes) \<Rightarrow> ('k, 'p) v2ops \<Rightarrow> nat \<Rightarrow> 'p list
    \<Rightarrow> ('k world, attached_prog list, cgroup_error) call" where
  "classify_all sha ops index [] = retS []"
| "classify_all sha ops index (p # ps) =
     bindS (classify sha ops index p) (\<lambda>c.
     bindS (classify_all sha ops (Suc index) ps) (\<lambda>cs. retS (c # cs)))"

section \<open>Execution\<close>

definition load_canonical ::
  "('k, 'p) v2ops \<Rightarrow> bytes \<Rightarrow> string \<Rightarrow> ('k world, 'p, cgroup_error) call" where
  "load_canonical ops raw name =
     bindS (liftS (map_err DecodeErr (from_canonical raw))) (\<lambda>is.
       map_errS Ops (on_kern (op_load ops name is)))"

text \<open>The two ways to put \<open>new\<close> in the place of \<open>old\<close>.\<close>

definition attach_then_detach ::
  "('k, 'p) v2ops \<Rightarrow> 'p \<Rightarrow> 'p \<Rightarrow> ('k world, unit, cgroup_error) call" where
  "attach_then_detach ops old new =
     bindS (map_errS AttachNew (on_kern (op_attach ops new F_ALLOW_MULTI None))) (\<lambda>_. \<lambda>w.
       case on_kern (op_detach ops old) w of
         (Inr _, w1) \<Rightarrow> (Inr (), w1)
       | (Inl d, w1) \<Rightarrow>
           (case on_kern (op_detach ops new) w1 of
              (Inr _, w2) \<Rightarrow> (Inl (DetachOriginal d), w2)
            | (Inl r, w2) \<Rightarrow> (Inl (Joined [DetachOriginal d, Rollback r]), w2)))"

definition swap ::
  "('k, 'p) v2ops \<Rightarrow> 'p \<Rightarrow> 'p \<Rightarrow> ('k world, unit, cgroup_error) call" where
  "swap ops old new w =
     (if probe_usable (probe w) then
        (case on_kern (op_attach ops new F_ALLOW_MULTI (Some old)) w of (outcome, w1) \<Rightarrow>
           let w2 = w1\<lparr>probe := probe_record outcome (probe w1)\<rparr> in
           case outcome of
             Inr _ \<Rightarrow> (Inr (), w2)
           | Inl e \<Rightarrow>
               if probe_usable (probe w2) then (Inl (Replace e), w2)
               else attach_then_detach ops old new w2)
      else attach_then_detach ops old new w)"

definition run_step ::
  "('k, 'p) v2ops \<Rightarrow> 'p list \<Rightarrow> 'p list \<Rightarrow> plan_step \<Rightarrow> ('k world, unit, cgroup_error) call" where
  "run_step ops attached loaded s =
     (case s of
        Attach new \<Rightarrow>
          map_errS Ops (on_kern (op_attach ops (loaded ! new) F_ALLOW_MULTI None))
      | Detach old \<Rightarrow> map_errS Ops (on_kern (op_detach ops (attached ! old)))
      | Pair old new \<Rightarrow> swap ops (attached ! old) (loaded ! new))"

fun run_steps ::
  "('k, 'p) v2ops \<Rightarrow> 'p list \<Rightarrow> 'p list \<Rightarrow> nat \<Rightarrow> nat \<Rightarrow> plan_step list
    \<Rightarrow> ('k world, unit, cgroup_error) call" where
  "run_steps ops attached loaded index count [] = retS ()"
| "run_steps ops attached loaded index count (s # ss) =
     bindS (map_errS (Change (Suc index) count) (run_step ops attached loaded s)) (\<lambda>_.
       run_steps ops attached loaded (Suc index) count ss)"

fun load_all ::
  "('k, 'p) v2ops \<Rightarrow> (bytes \<times> string) list \<Rightarrow> ('k world, 'p list, cgroup_error) call" where
  "load_all ops [] = retS []"
| "load_all ops ((raw, name) # rest) =
     bindS (load_canonical ops raw name) (\<lambda>p.
     bindS (load_all ops rest) (\<lambda>ps. retS (p # ps)))"

definition execute ::
  "('k, 'p) v2ops \<Rightarrow> 'p list \<Rightarrow> pass_plan \<Rightarrow> ('k world, unit, cgroup_error) call" where
  "execute ops attached plan =
     bindS (load_all ops (zip (loads plan) (names plan))) (\<lambda>loaded.
       run_steps ops attached loaded 0 (length (steps plan)) (steps plan))"

section \<open>A pass\<close>

definition commit ::
  "('k, 'p) v2ops \<Rightarrow> identity \<Rightarrow> 'p list \<Rightarrow> pass_plan \<Rightarrow> bool \<Rightarrow> ('k world, unit, cgroup_error) call" where
  "commit ops i attached plan rebuild =
     bindS (set_cache i \<lparr>lineages = plan_lineages plan, rebuilding = rebuild\<rparr>) (\<lambda>_.
     bindS (execute ops attached plan) (\<lambda>_.
       if rebuild then set_cache i \<lparr>lineages = plan_lineages plan, rebuilding = False\<rparr>
       else retS ()))"

definition rebuild_pass ::
  "(bytes \<Rightarrow> bytes) \<Rightarrow> (nat \<Rightarrow> (u64, errno) result) \<Rightarrow> ('k, 'p) v2ops \<Rightarrow> identity
    \<Rightarrow> device_rule list \<Rightarrow> ('k world, unit, cgroup_error) call" where
  "rebuild_pass sha rand ops i rs w =
     (let entry = cache_get i (cache w) in
      if lineages entry = [] then (Inl FilterMissing, w)
      else bindS (on_draws (add_rebuild sha rand rs (lineages entry) empty_plan)) (\<lambda>plan.
             commit ops i [] plan True) w)"

definition plan_pass ::
  "(bytes \<Rightarrow> bytes) \<Rightarrow> (nat \<Rightarrow> (u64, errno) result) \<Rightarrow> cache_entry \<Rightarrow> attached_prog list
    \<Rightarrow> device_rule list \<Rightarrow> (nat, pass_plan, cgroup_error) call" where
  "plan_pass sha rand entry classified rs =
     (case group_wrappers classified of (groups, bares) \<Rightarrow>
        bindS (if rs = [] then retS (plan_restore groups bares)
               else plan_grant sha rand groups bares rs) (\<lambda>plan.
          if rebuilding entry
          then add_rebuild sha rand rs (missing_lineages (lineages entry) groups bares) plan
          else retS plan))"

definition set_rules ::
  "(bytes \<Rightarrow> bytes) \<Rightarrow> (nat \<Rightarrow> (u64, errno) result) \<Rightarrow> ('k, 'p) v2ops \<Rightarrow> identity
    \<Rightarrow> device_rule list \<Rightarrow> ('k world, unit, cgroup_error) call" where
  "set_rules sha rand ops i rs =
     bindS (map_errS Query (on_kern (op_query ops))) (\<lambda>a.
     if inaccessible a > 0 then
       liftS (Inl (FiltersInaccessible (inaccessible a) (total_progs a)))
     else if total_progs a = 0 then rebuild_pass sha rand ops i rs
     else if attach_flags a AND F_ALLOW_MULTI = 0 then
       liftS (Inl (UnsupportedAttachMode (attach_flags a)))
     else bindS (classify_all sha ops 0 (progs a)) (\<lambda>classified. \<lambda>w.
       let entry = cache_get i (cache w) in
       bindS (on_draws (plan_pass sha rand entry classified rs)) (\<lambda>plan.
         commit ops i (progs a) plan (rebuilding entry)) w))"

end
