(* ===== verification/V2_Pass.thy ===== *)
theory V2_Pass
  imports V2
begin

text \<open>
  What a cgroup v2 pass leaves attached. A plan is a list of steps on slots; the kernel's
  contract is the locale \<open>v2_kernel\<close>; a run of the code on any kernel that keeps the contract
  ends where the plan may stop, whichever operation fails.
\<close>

section \<open>What a plan does, abstractly\<close>

text \<open>
  The programs of a pass are slots: the attached ones of the query and the loaded ones. A step
  changes the set of attached slots; one that fails leaves it, except that a pair whose detach
  and rollback both fail leaves both programs attached.
\<close>

datatype slot = Old nat | New nat

fun step_done :: "plan_step \<Rightarrow> slot set \<Rightarrow> slot set" where
  "step_done (Attach new) A = insert (New new) A"
| "step_done (Detach old) A = A - {Old old}"
| "step_done (Pair old new) A = insert (New new) (A - {Old old})"

fun step_failed :: "plan_step \<Rightarrow> slot set \<Rightarrow> slot set \<Rightarrow> bool" where
  "step_failed (Attach new) A B \<longleftrightarrow> B = A"
| "step_failed (Detach old) A B \<longleftrightarrow> B = A"
| "step_failed (Pair old new) A B \<longleftrightarrow> B = A \<or> B = insert (New new) A"

definition steps_done :: "plan_step list \<Rightarrow> slot set \<Rightarrow> slot set" where
  "steps_done ss A = foldl (\<lambda>A s. step_done s A) A ss"

text \<open>Where a pass may stop: after a prefix of the steps, or in the middle of the next one.\<close>

inductive stops :: "plan_step list \<Rightarrow> slot set \<Rightarrow> slot set \<Rightarrow> bool" where
  stop_here: "stops ss A A"
| stop_in: "step_failed s A B \<Longrightarrow> stops (s # ss) A B"
| stop_later: "stops ss (step_done s A) B \<Longrightarrow> stops (s # ss) A B"

lemma steps_done_simps [simp]:
  "steps_done [] A = A"
  "steps_done (s # ss) A = steps_done ss (step_done s A)"
  by (simp_all add: steps_done_def)

lemma stops_done: "stops ss A (steps_done ss A)"
  by (induction ss arbitrary: A) (auto intro: stops.intros)

fun step_new :: "plan_step \<Rightarrow> nat list" where
  "step_new (Attach new) = [new]"
| "step_new (Detach old) = []"
| "step_new (Pair old new) = [new]"

fun step_old :: "plan_step \<Rightarrow> nat list" where
  "step_old (Attach new) = []"
| "step_old (Detach old) = [old]"
| "step_old (Pair old new) = [old]"

definition news :: "plan_step list \<Rightarrow> nat list" where
  "news ss = concat (map step_new ss)"

definition olds :: "plan_step list \<Rightarrow> nat list" where
  "olds ss = concat (map step_old ss)"

lemma news_olds_simps [simp]:
  "news [] = []" "news (s # ss) = step_new s @ news ss"
  "olds [] = []" "olds (s # ss) = step_old s @ olds ss"
  "news (xs @ ys) = news xs @ news ys" "olds (xs @ ys) = olds xs @ olds ys"
  by (simp_all add: news_def olds_def)

definition slot_prog :: "'p list \<Rightarrow> 'p list \<Rightarrow> slot \<Rightarrow> 'p" where
  "slot_prog P N s = (case s of Old i \<Rightarrow> P ! i | New j \<Rightarrow> N ! j)"

definition slots_of :: "'p list \<Rightarrow> 'p list \<Rightarrow> slot set" where
  "slots_of P N = Old ` {..< length P} \<union> New ` {..< length N}"

lemma slot_prog_inj: "distinct (P @ N) \<Longrightarrow> inj_on (slot_prog P N) (slots_of P N)"
  by (auto simp: inj_on_def slots_of_def slot_prog_def nth_eq_iff_index_eq disjoint_iff
      split: slot.splits) (metis nth_mem)+

definition loaded_code :: "bytes \<Rightarrow> instruction list" where
  "loaded_code raw = (case decode raw of Inl e \<Rightarrow> [] | Inr is \<Rightarrow> is)"

definition slot_code :: "instruction list list \<Rightarrow> bytes list \<Rightarrow> slot \<Rightarrow> instruction list" where
  "slot_code cs ls s = (case s of Old i \<Rightarrow> cs ! i | New j \<Rightarrow> loaded_code (ls ! j))"

lemma slot_code_old: "slot_code cs ls ` Old ` {..< length cs} = set cs"
  by (force simp: slot_code_def in_set_conv_nth image_image)

section \<open>The kernel's contract\<close>

text \<open>
  What a pass relies on: which programs are attached, in which order, and the code of every
  program it has a handle of. An operation that fails changes nothing; a load gives a fresh
  program; an attach adds a program, or replaces one, and a detach removes one.
\<close>

locale v2_kernel =
  fixes ops :: "('k, 'p) v2ops"
    and att :: "'k \<Rightarrow> 'p list"
    and used :: "'k \<Rightarrow> 'p set"
    and code :: "'k \<Rightarrow> 'p \<Rightarrow> instruction list"
    and invar :: "'k \<Rightarrow> bool"
  assumes att_distinct: "invar k \<Longrightarrow> distinct (att k)"
    and att_used: "invar k \<Longrightarrow> set (att k) \<subseteq> used k"
    and code_decoded: "invar k \<Longrightarrow> p \<in> used k \<Longrightarrow> \<exists>raw. decode raw = Inr (code k p)"
    and query_state: "invar k \<Longrightarrow> op_query ops k = (rq, k') \<Longrightarrow>
      invar k' \<and> att k' = att k \<and> used k' = used k \<and> code k' = code k"
    and query_all: "invar k \<Longrightarrow> op_query ops k = (Inr a, k') \<Longrightarrow> inaccessible a = 0 \<Longrightarrow>
      progs a = att k \<and> total_progs a = length (att k)"
    and insns_state: "invar k \<Longrightarrow> op_instructions ops p k = (ri, k') \<Longrightarrow>
      invar k' \<and> att k' = att k \<and> used k' = used k \<and> code k' = code k"
    and insns_code: "invar k \<Longrightarrow> p \<in> used k \<Longrightarrow> op_instructions ops p k = (Inr (is, meta), k') \<Longrightarrow>
      is = code k p"
    and load_state: "invar k \<Longrightarrow> decode raw = Inr is \<Longrightarrow> op_load ops name is k = (rl, k') \<Longrightarrow>
      invar k' \<and> att k' = att k \<and> used k \<subseteq> used k' \<and> (\<forall>p \<in> used k. code k' p = code k p)"
    and load_prog: "invar k \<Longrightarrow> decode raw = Inr is \<Longrightarrow> op_load ops name is k = (Inr p, k') \<Longrightarrow>
      p \<notin> used k \<and> p \<in> used k' \<and> code k' p = is"
    and attach_state: "invar k \<Longrightarrow> p \<in> used k \<Longrightarrow> p \<notin> set (att k) \<Longrightarrow>
      op_attach ops p flags old k = (r, k') \<Longrightarrow> flags = F_ALLOW_MULTI \<Longrightarrow>
      invar k' \<and> used k \<subseteq> used k' \<and> (\<forall>p \<in> used k. code k' p = code k p)
      \<and> (r = Inr () \<longrightarrow>
           set (att k') = insert p (set (att k) - (case old of None \<Rightarrow> {} | Some o' \<Rightarrow> {o'})))
      \<and> (r \<noteq> Inr () \<longrightarrow> set (att k') = set (att k))"
    and detach_state: "invar k \<Longrightarrow> p \<in> used k \<Longrightarrow> op_detach ops p k = (r, k') \<Longrightarrow>
      invar k' \<and> used k \<subseteq> used k' \<and> (\<forall>p \<in> used k. code k' p = code k p)
      \<and> (r = Inr () \<longrightarrow> set (att k') = set (att k) - {p})
      \<and> (r \<noteq> Inr () \<longrightarrow> set (att k') = set (att k))"
begin

text \<open>The relation between a kernel and the slots of a pass.\<close>

definition kern_rel :: "'k \<Rightarrow> 'p list \<Rightarrow> 'p list \<Rightarrow> slot set \<Rightarrow> 'k \<Rightarrow> bool" where
  "kern_rel k0 P N A k \<longleftrightarrow>
     invar k \<and> distinct (P @ N) \<and> set (P @ N) \<subseteq> used k0 \<and> used k0 \<subseteq> used k \<and> A \<subseteq> slots_of P N
     \<and> set (att k) = slot_prog P N ` A \<and> (\<forall>p \<in> used k0. code k p = code k0 p)"

lemma kern_rel_slot:
  assumes "kern_rel k0 P N A k" and "s \<in> slots_of P N"
  shows "slot_prog P N s \<in> used k" and "slot_prog P N s \<in> set (att k) \<longleftrightarrow> s \<in> A"
proof -
  have "slot_prog P N s \<in> set (P @ N)"
    using assms(2) by (auto simp: slots_of_def slot_prog_def)
  then show "slot_prog P N s \<in> used k" using assms(1) by (auto simp: kern_rel_def)
  show "slot_prog P N s \<in> set (att k) \<longleftrightarrow> s \<in> A"
    using assms slot_prog_inj [of P N]
    by (auto simp: kern_rel_def dest: inj_onD)
qed

lemma kern_rel_change:
  assumes "kern_rel k0 P N A k" and "invar k'" and "used k \<subseteq> used k'"
    and "\<forall>p \<in> used k. code k' p = code k p" and "B \<subseteq> slots_of P N"
    and "set (att k') = slot_prog P N ` B"
  shows "kern_rel k0 P N B k'"
  using assms unfolding kern_rel_def by (auto simp: subset_iff)

lemma image_remove:
  assumes "distinct (P @ N)" and "A \<subseteq> slots_of P N" and "s \<in> slots_of P N"
  shows "slot_prog P N ` A - {slot_prog P N s} = slot_prog P N ` (A - {s})"
  using slot_prog_inj [OF assms(1)] assms(2,3) by (auto simp: inj_on_def subset_iff)

lemma rel_attach:
  assumes rel: "kern_rel k0 P N A k" and s: "s \<in> slots_of P N" and "s \<notin> A"
    and op: "op_attach ops (slot_prog P N s) F_ALLOW_MULTI None k = (r, k')"
  shows "kern_rel k0 P N (if r = Inr () then insert s A else A) k'"
proof -
  have k: "invar k" and A: "A \<subseteq> slots_of P N" "set (att k) = slot_prog P N ` A"
    using rel by (auto simp: kern_rel_def)
  note st = attach_state [OF k kern_rel_slot(1) [OF rel s] _ op refl]
  show ?thesis
    using st kern_rel_slot(2) [OF rel s] assms(3) A s
    by (intro kern_rel_change [OF rel]) auto
qed

lemma rel_replace:
  assumes rel: "kern_rel k0 P N A k" and s: "s \<in> slots_of P N" and "s \<notin> A" and o': "o' \<in> slots_of P N"
    and op: "op_attach ops (slot_prog P N s) F_ALLOW_MULTI (Some (slot_prog P N o')) k = (r, k')"
  shows "kern_rel k0 P N (if r = Inr () then insert s (A - {o'}) else A) k'"
proof -
  have k: "invar k" and A: "A \<subseteq> slots_of P N" "set (att k) = slot_prog P N ` A" and d: "distinct (P @ N)"
    using rel by (auto simp: kern_rel_def)
  note st = attach_state [OF k kern_rel_slot(1) [OF rel s] _ op refl]
  show ?thesis
    using st kern_rel_slot(2) [OF rel s] assms(3) A s image_remove [OF d A(1) o']
    by (intro kern_rel_change [OF rel]) auto
qed

lemma rel_detach:
  assumes rel: "kern_rel k0 P N A k" and s: "s \<in> slots_of P N"
    and op: "op_detach ops (slot_prog P N s) k = (r, k')"
  shows "kern_rel k0 P N (if r = Inr () then A - {s} else A) k'"
proof -
  have k: "invar k" and A: "A \<subseteq> slots_of P N" "set (att k) = slot_prog P N ` A" and d: "distinct (P @ N)"
    using rel by (auto simp: kern_rel_def)
  note st = detach_state [OF k kern_rel_slot(1) [OF rel s] op]
  show ?thesis
    using st A image_remove [OF d A(1) s]
    by (intro kern_rel_change [OF rel]) auto
qed

lemmas swap_defs = attach_then_detach_def swap_def bindS_def map_errS_def on_kern_def Let_def

lemma attach_then_detach_rel:
  assumes rel: "kern_rel k0 P N A (kern w)" and i: "i < length P" and j: "j < length N"
    and new: "New j \<notin> A" and run: "attach_then_detach ops (P ! i) (N ! j) w = (r, w')"
  shows "\<exists>B. kern_rel k0 P N B (kern w') \<and> cache w' = cache w \<and> draws w' = draws w
    \<and> (if r = Inr () then B = step_done (Pair i j) A else step_failed (Pair i j) A B)"
proof -
  have so: "Old i \<in> slots_of P N" and sn: "New j \<in> slots_of P N"
    using i j by (auto simp: slots_of_def)
  have pi: "slot_prog P N (Old i) = P ! i" and pj: "slot_prog P N (New j) = N ! j"
    by (simp_all add: slot_prog_def)
  obtain r1 k1 where 1: "op_attach ops (N ! j) F_ALLOW_MULTI None (kern w) = (r1, k1)"
    by (metis surj_pair)
  note rel1 = rel_attach [OF rel sn new, unfolded pj, OF 1]
  show ?thesis
  proof (cases r1)
    case (Inl e)
    then have "r = Inl (AttachNew e)" "w' = w\<lparr>kern := k1\<rparr>"
      using run 1 by (simp_all add: swap_defs)
    with rel1 Inl show ?thesis by (intro exI [of _ A]) simp
  next
    case (Inr u)
    then have rel1': "kern_rel k0 P N (insert (New j) A) k1" using rel1 by simp
    obtain r2 k2 where 2: "op_detach ops (P ! i) k1 = (r2, k2)" by (metis surj_pair)
    note rel2 = rel_detach [OF rel1' so, unfolded pi, OF 2]
    show ?thesis
    proof (cases r2)
      case Inr2: (Inr u)
      then have "r = Inr ()" "w' = w\<lparr>kern := k2\<rparr>"
        using run 1 2 Inr by (simp_all add: swap_defs)
      moreover have "insert (New j) A - {Old i} = step_done (Pair i j) A" by auto
      ultimately show ?thesis
        using rel2 Inr2 by (intro exI [of _ "step_done (Pair i j) A"]) simp
    next
      case Inl2: (Inl d)
      then have rel2': "kern_rel k0 P N (insert (New j) A) k2" using rel2 by simp
      obtain r3 k3 where 3: "op_detach ops (N ! j) k2 = (r3, k3)" by (metis surj_pair)
      note rel3 = rel_detach [OF rel2' sn, unfolded pj, OF 3]
      have "r \<noteq> Inr ()" "w' = w\<lparr>kern := k3\<rparr>"
        using run 1 2 3 Inr Inl2 by (auto simp: swap_defs split: sum.splits)
      moreover have "insert (New j) A - {New j} = A" using new by auto
      ultimately show ?thesis
        using rel3
        by (intro exI [of _ "if r3 = Inr () then A else insert (New j) A"]) (simp split: if_splits)
    qed
  qed
qed

lemma swap_rel:
  assumes rel: "kern_rel k0 P N A (kern w)" and i: "i < length P" and j: "j < length N"
    and new: "New j \<notin> A" and run: "swap ops (P ! i) (N ! j) w = (r, w')"
  shows "\<exists>B. kern_rel k0 P N B (kern w') \<and> cache w' = cache w \<and> draws w' = draws w
    \<and> (if r = Inr () then B = step_done (Pair i j) A else step_failed (Pair i j) A B)"
proof (cases "probe_usable (probe w)")
  case False
  then have "attach_then_detach ops (P ! i) (N ! j) w = (r, w')"
    using run by (simp add: swap_def)
  then show ?thesis by (rule attach_then_detach_rel [OF rel i j new])
next
  case True
  have so: "Old i \<in> slots_of P N" and sn: "New j \<in> slots_of P N"
    using i j by (auto simp: slots_of_def)
  have pi: "slot_prog P N (Old i) = P ! i" and pj: "slot_prog P N (New j) = N ! j"
    by (simp_all add: slot_prog_def)
  obtain r1 k1 where 1: "op_attach ops (N ! j) F_ALLOW_MULTI (Some (P ! i)) (kern w) = (r1, k1)"
    by (metis surj_pair)
  note rel1 = rel_replace [OF rel sn new so, unfolded pi pj, OF 1]
  define w2 where "w2 = w\<lparr>kern := k1, probe := probe_record r1 (probe w)\<rparr>"
  have w2: "kern w2 = k1" "cache w2 = cache w" "draws w2 = draws w" by (simp_all add: w2_def)
  have sw: "swap ops (P ! i) (N ! j) w =
      (case r1 of Inr _ \<Rightarrow> (Inr (), w2)
       | Inl e \<Rightarrow> if probe_usable (probe w2) then (Inl (Replace e), w2)
           else attach_then_detach ops (P ! i) (N ! j) w2)"
    using True 1 by (cases r1) (simp_all add: swap_def on_kern_def w2_def Let_def)
  show ?thesis
  proof (cases r1)
    case (Inr u)
    then have "r = Inr ()" "w' = w2" using run sw by simp_all
    with rel1 Inr w2 show ?thesis
      by (intro exI [of _ "insert (New j) (A - {Old i})"]) simp
  next
    case (Inl e)
    then have rel2: "kern_rel k0 P N A (kern w2)" using rel1 w2 by simp
    show ?thesis
    proof (cases "probe_usable (probe w2)")
      case True2: True
      then have "r = Inl (Replace e)" "w' = w2" using run sw Inl by simp_all
      with rel2 w2 show ?thesis by (intro exI [of _ A]) simp
    next
      case False
      then have "attach_then_detach ops (P ! i) (N ! j) w2 = (r, w')" using run sw Inl by simp
      from attach_then_detach_rel [OF rel2 i j new this] show ?thesis by (simp add: w2)
    qed
  qed
qed

lemma run_step_rel:
  assumes rel: "kern_rel k0 P N A (kern w)" and "set (step_old s) \<subseteq> {..< length P}"
    and "set (step_new s) \<subseteq> {..< length N}" and "\<forall>j \<in> set (step_new s). New j \<notin> A"
    and run: "run_step ops P N s w = (r, w')"
  shows "\<exists>B. kern_rel k0 P N B (kern w') \<and> cache w' = cache w \<and> draws w' = draws w
    \<and> (if r = Inr () then B = step_done s A else step_failed s A B)"
proof (cases s)
  case (Attach j)
  obtain r1 k1 where 1: "op_attach ops (N ! j) F_ALLOW_MULTI None (kern w) = (r1, k1)"
    by (metis surj_pair)
  have "New j \<in> slots_of P N" "New j \<notin> A" using assms(3,4) Attach by (auto simp: slots_of_def)
  note rel1 = rel_attach [OF rel this, unfolded slot_prog_def, simplified, OF 1]
  have "r = map_err Ops r1" "w' = w\<lparr>kern := k1\<rparr>"
    using run 1 Attach by (simp_all add: run_step_def map_errS_def on_kern_def)
  with rel1 Attach show ?thesis
    by (intro exI [of _ "if r1 = Inr () then insert (New j) A else A"]) (cases r1; simp)
next
  case (Detach i)
  obtain r1 k1 where 1: "op_detach ops (P ! i) (kern w) = (r1, k1)" by (metis surj_pair)
  have "Old i \<in> slots_of P N" using assms(2) Detach by (auto simp: slots_of_def)
  note rel1 = rel_detach [OF rel this, unfolded slot_prog_def, simplified, OF 1]
  have "r = map_err Ops r1" "w' = w\<lparr>kern := k1\<rparr>"
    using run 1 Detach by (simp_all add: run_step_def map_errS_def on_kern_def)
  with rel1 Detach show ?thesis
    by (intro exI [of _ "if r1 = Inr () then A - {Old i} else A"]) (cases r1; simp)
next
  case (Pair i j)
  with run assms(2-4) have "i < length P" "j < length N" "New j \<notin> A"
    "swap ops (P ! i) (N ! j) w = (r, w')"
    by (auto simp: run_step_def)
  from swap_rel [OF rel this] show ?thesis unfolding Pair .
qed

text \<open>A run of the steps ends where the plan, abstractly, may stop.\<close>

lemma run_steps_rel:
  assumes "kern_rel k0 P N A (kern w)" and "set (olds ss) \<subseteq> {..< length P}"
    and "set (news ss) \<subseteq> {..< length N}" and "distinct (news ss)"
    and "\<forall>j \<in> set (news ss). New j \<notin> A"
    and "run_steps ops P N index count ss w = (r, w')"
  shows "\<exists>B. kern_rel k0 P N B (kern w') \<and> cache w' = cache w \<and> draws w' = draws w \<and> stops ss A B
    \<and> (r = Inr () \<longrightarrow> B = steps_done ss A)"
  using assms
proof (induction ss arbitrary: A w index)
  case Nil
  then show ?case by (intro exI [of _ A]) (simp add: stop_here)
next
  case (Cons s ss)
  obtain r1 w1 where 1: "run_step ops P N s w = (r1, w1)" by (metis surj_pair)
  have pre: "set (step_old s) \<subseteq> {..< length P}" "set (step_new s) \<subseteq> {..< length N}"
    "\<forall>j \<in> set (step_new s). New j \<notin> A"
    using Cons.prems(2,3,5) by auto
  obtain B where B: "kern_rel k0 P N B (kern w1)" "cache w1 = cache w" "draws w1 = draws w"
    and st: "if r1 = Inr () then B = step_done s A else step_failed s A B"
    using run_step_rel [OF Cons.prems(1) pre 1] by blast
  show ?case
  proof (cases r1)
    case (Inl e)
    then have "r = Inl (Change (Suc index) count e)" "w' = w1"
      using 1 Cons.prems(6) by (simp_all add: bindS_def map_errS_def)
    with B st Inl show ?thesis by (intro exI [of _ B]) (simp add: stop_in)
  next
    case (Inr u)
    then have Beq: "B = step_done s A" using st by simp
    have run: "run_steps ops P N (Suc index) count ss w1 = (r, w')"
      using 1 Cons.prems(6) Inr by (simp add: bindS_def map_errS_def)
    have fresh: "\<forall>j \<in> set (news ss). New j \<notin> B"
      using Cons.prems(4,5) unfolding Beq by (cases s) auto
    have "set (olds ss) \<subseteq> {..< length P}" "set (news ss) \<subseteq> {..< length N}" "distinct (news ss)"
      using Cons.prems(2-4) by auto
    from Cons.IH [OF B(1) this fresh run] B Beq show ?thesis by (auto intro: stop_later)
  qed
qed

lemma load_all_rel:
  assumes "invar (kern w)" and "load_all ops rns w = (r, w')"
  shows "invar (kern w') \<and> att (kern w') = att (kern w) \<and> used (kern w) \<subseteq> used (kern w')
    \<and> (\<forall>p \<in> used (kern w). code (kern w') p = code (kern w) p)
    \<and> cache w' = cache w \<and> draws w' = draws w
    \<and> (\<forall>N. r = Inr N \<longrightarrow> distinct N \<and> set N \<subseteq> used (kern w') - used (kern w)
         \<and> list_all2 (\<lambda>(raw, name) p. decode raw = Inr (code (kern w') p)) rns N)"
  using assms
proof (induction rns arbitrary: w r w')
  case Nil
  then show ?case by auto
next
  case (Cons rn rns)
  obtain raw name where rn: "rn = (raw, name)" by (cases rn)
  show ?case
  proof (cases "decode raw")
    case (Inl e)
    then show ?thesis
      using Cons.prems by (auto simp: rn load_canonical_def from_canonical_def bindS_def)
  next
    case (Inr "is")
    obtain r1 k1 where 1: "op_load ops name is (kern w) = (r1, k1)" by (metis surj_pair)
    note st = load_state [OF Cons.prems(1) Inr 1]
    have lc: "load_canonical ops raw name w = (map_err Ops r1, w\<lparr>kern := k1\<rparr>)"
      using Inr 1 by (simp add: load_canonical_def from_canonical_def bindS_def map_errS_def on_kern_def)
    show ?thesis
    proof (cases r1)
      case (Inl e)
      then have "r = Inl (Ops e)" "w' = w\<lparr>kern := k1\<rparr>"
        using Cons.prems(2) lc by (simp_all add: rn bindS_def)
      with st show ?thesis by simp
    next
      case r1: (Inr p)
      note pr = load_prog [OF Cons.prems(1) Inr 1 [unfolded r1]]
      obtain r2 w2 where 2: "load_all ops rns (w\<lparr>kern := k1\<rparr>) = (r2, w2)" by (metis surj_pair)
      have IH: "invar (kern w2) \<and> att (kern w2) = att k1 \<and> used k1 \<subseteq> used (kern w2)
        \<and> (\<forall>p \<in> used k1. code (kern w2) p = code k1 p) \<and> cache w2 = cache w \<and> draws w2 = draws w
        \<and> (\<forall>N. r2 = Inr N \<longrightarrow> distinct N \<and> set N \<subseteq> used (kern w2) - used k1
             \<and> list_all2 (\<lambda>(raw, name) p. decode raw = Inr (code (kern w2) p)) rns N)"
        using Cons.IH [OF _ 2] st by simp
      have w': "w' = w2"
        using Cons.prems(2) lc r1 2 by (cases r2) (simp_all add: rn bindS_def)
      have r: "r = map_ok ((#) p) r2"
        using Cons.prems(2) lc r1 2 by (cases r2) (auto simp: rn bindS_def)
      have u: "used (kern w) \<subseteq> used (kern w2)" using IH st by blast
      have c: "\<forall>p \<in> used (kern w). code (kern w2) p = code (kern w) p"
        using IH st by (metis subsetD)
      have same: "invar (kern w2)" "att (kern w2) = att (kern w)" "cache w2 = cache w" "draws w2 = draws w"
        using IH st by simp_all
      have new: "distinct (p # N) \<and> set (p # N) \<subseteq> used (kern w2) - used (kern w)
          \<and> list_all2 (\<lambda>(raw, name) p. decode raw = Inr (code (kern w2) p)) (rn # rns) (p # N)"
        if "r2 = Inr N" for N
      proof -
        have N: "distinct N" "set N \<subseteq> used (kern w2) - used k1"
          "list_all2 (\<lambda>(raw, name) p. decode raw = Inr (code (kern w2) p)) rns N"
          using IH that by blast+
        have "p \<in> used (kern w2)" "code (kern w2) p = is" using IH pr by auto
        with N pr st Inr show ?thesis by (auto simp: rn)
      qed
      show ?thesis
        unfolding w' r using same u c new by (cases r2) simp_all
    qed
  qed
qed

text \<open>
  What a pass leaves attached, as code: the kernel's programs are the slots where the plan
  stops, and all its steps are done when it succeeds.
\<close>

lemma execute_rel:
  assumes inv: "invar (kern w)" and P: "P = att (kern w)"
    and wf: "set (olds (steps plan)) \<subseteq> {..< length P}"
      "set (news (steps plan)) \<subseteq> {..< length (loads plan)}" "distinct (news (steps plan))"
      "length (names plan) = length (loads plan)"
    and run: "execute ops P plan w = (r, w')"
  shows "invar (kern w') \<and> cache w' = cache w \<and> draws w' = draws w \<and>
    (\<exists>B. stops (steps plan) (Old ` {..< length P}) B
       \<and> code (kern w') ` set (att (kern w')) = slot_code (map (code (kern w)) P) (loads plan) ` B
       \<and> (r = Inr () \<longrightarrow> B = steps_done (steps plan) (Old ` {..< length P})))"
proof -
  let ?A = "Old ` {..< length P}" and ?cs = "map (code (kern w)) P"
  obtain r1 w1 where 1: "load_all ops (zip (loads plan) (names plan)) w = (r1, w1)" by (metis surj_pair)
  note ld = load_all_rel [OF inv 1]
  have Pu: "set P \<subseteq> used (kern w)" "distinct P" using att_used [OF inv] att_distinct [OF inv] P by auto
  show ?thesis
  proof (cases r1)
    case (Inl e)
    then have "r = Inl e" "w' = w1" using run 1 by (simp_all add: execute_def bindS_def)
    moreover have "code (kern w1) ` set (att (kern w1)) = slot_code ?cs (loads plan) ` ?A"
    proof -
      have "slot_code ?cs (loads plan) ` ?A = set ?cs" using slot_code_old [of ?cs] by simp
      also have "\<dots> = code (kern w1) ` set P" using ld Pu by (auto intro!: image_cong)
      finally show ?thesis using ld P by simp
    qed
    ultimately show ?thesis using ld by (auto intro: stop_here)
  next
    case (Inr N)
    with ld have N: "distinct N" "set N \<subseteq> used (kern w1) - used (kern w)"
      "list_all2 (\<lambda>(raw, name) p. decode raw = Inr (code (kern w1) p)) (zip (loads plan) (names plan)) N"
      by auto
    have len: "length N = length (loads plan)" using list_all2_lengthD [OF N(3)] wf(4) by simp
    have dec: "decode (loads plan ! j) = Inr (code (kern w1) (N ! j))" if "j < length N" for j
      using list_all2_nthD2 [OF N(3) that] that len wf(4) by simp
    have rel: "kern_rel (kern w1) P N ?A (kern w1)"
      using ld N Pu P unfolding kern_rel_def
      by (auto simp: slots_of_def slot_prog_def image_image in_set_conv_nth image_iff)
    have run': "run_steps ops P N 0 (length (steps plan)) (steps plan) w1 = (r, w')"
      using run 1 Inr by (simp add: execute_def bindS_def)
    obtain B where B: "kern_rel (kern w1) P N B (kern w')" "cache w' = cache w1" "draws w' = draws w1"
      "stops (steps plan) ?A B" "r = Inr () \<longrightarrow> B = steps_done (steps plan) ?A"
      using run_steps_rel [OF rel wf(1) _ wf(3) _ run'] wf(2) len by auto
    have old: "code (kern w1) (P ! x) = code (kern w) (P ! x)" if "x < length P" for x
      using ld Pu nth_mem [OF that] by blast
    have "code (kern w') (slot_prog P N s) = slot_code ?cs (loads plan) s" if "s \<in> B" for s
    proof -
      have s: "s \<in> slots_of P N" using B(1) that by (auto simp: kern_rel_def)
      then have "slot_prog P N s \<in> set (P @ N)" by (auto simp: slots_of_def slot_prog_def)
      then have "code (kern w') (slot_prog P N s) = code (kern w1) (slot_prog P N s)"
        using B(1) by (auto simp: kern_rel_def)
      also have "\<dots> = slot_code ?cs (loads plan) s"
        using s dec old by (auto simp: slots_of_def slot_prog_def slot_code_def loaded_code_def)
      finally show ?thesis .
    qed
    then have "code (kern w') ` set (att (kern w')) = slot_code ?cs (loads plan) ` B"
      using B(1) by (auto simp: kern_rel_def image_image)
    with B ld show ?thesis by (auto simp: kern_rel_def)
  qed
qed

end

section \<open>Where a plan may stop\<close>

lemma steps_done_eq: "steps_done ss A = (A - Old ` set (olds ss)) \<union> New ` set (news ss)"
proof (induction ss arbitrary: A)
  case (Cons s ss)
  then show ?case by (cases s) auto
qed simp

inductive_cases stops_NilE: "stops [] A B"
inductive_cases stops_ConsE: "stops (s # ss) A B"

lemma stops_append:
  "stops (xs @ ys) A B \<Longrightarrow> stops xs A B \<or> stops ys (steps_done xs A) B"
proof (induction xs arbitrary: A)
  case (Cons x xs)
  from Cons.prems have "stops (x # (xs @ ys)) A B" by simp
  then show ?case
    by (rule stops_ConsE) (auto intro: stops.intros dest!: Cons.IH)
qed simp

lemma stops_keeps_old: "stops ss A B \<Longrightarrow> Old i \<in> A \<Longrightarrow> i \<notin> set (olds ss) \<Longrightarrow> Old i \<in> B"
proof (induction ss A B rule: stops.induct)
  case (stop_in s A B ss)
  then show ?case by (cases s) auto
next
  case (stop_later ss s A B)
  then show ?case by (cases s) auto
qed

lemma stops_keeps_new: "stops ss A B \<Longrightarrow> New j \<in> A \<Longrightarrow> New j \<in> B"
proof (induction ss A B rule: stops.induct)
  case (stop_in s A B ss)
  then show ?case by (cases s) auto
next
  case (stop_later ss s A B)
  then show ?case by (cases s) auto
qed

text \<open>
  A lineage is guarded: wherever the plan stops, the slot that ends as its program is attached,
  or all the programs it had are.
\<close>

definition guarded :: "plan_step list \<Rightarrow> slot set \<Rightarrow> nat set \<Rightarrow> slot \<Rightarrow> bool" where
  "guarded ss A M s \<longleftrightarrow> (\<forall>B. stops ss A B \<longrightarrow> s \<in> B \<or> Old ` M \<subseteq> B)"

fun not_removed :: "slot \<Rightarrow> plan_step list \<Rightarrow> bool" where
  "not_removed (Old i) ss \<longleftrightarrow> i \<notin> set (olds ss)"
| "not_removed (New j) ss \<longleftrightarrow> True"

lemma stops_keeps: "stops ss A B \<Longrightarrow> s \<in> A \<Longrightarrow> not_removed s ss \<Longrightarrow> s \<in> B"
  by (cases s) (auto dest: stops_keeps_old stops_keeps_new)

lemma guarded_append:
  assumes g: "guarded ss A M s" and keep: "not_removed s ts"
    and rest: "s \<in> steps_done ss A \<or> M \<inter> set (olds ts) = {}"
  shows "guarded (ss @ ts) A M s"
  unfolding guarded_def
proof (intro allI impI)
  fix B
  assume "stops (ss @ ts) A B"
  then consider "stops ss A B" | "stops ts (steps_done ss A) B" using stops_append by blast
  then show "s \<in> B \<or> Old ` M \<subseteq> B"
  proof cases
    case 1
    then show ?thesis using g by (auto simp: guarded_def)
  next
    case 2
    have "s \<in> steps_done ss A \<or> Old ` M \<subseteq> steps_done ss A"
      using g stops_done by (auto simp: guarded_def)
    with 2 keep rest show ?thesis
      by (auto dest: stops_keeps stops_keeps_old)
  qed
qed

lemma guarded_kept: "Old i \<in> A \<Longrightarrow> i \<notin> set (olds ss) \<Longrightarrow> guarded ss A M (Old i)"
  by (auto simp: guarded_def dest: stops_keeps_old)

lemma guarded_untouched: "Old ` M \<subseteq> A \<Longrightarrow> M \<inter> set (olds ss) = {} \<Longrightarrow> guarded ss A M s"
  by (auto simp: guarded_def image_subset_iff dest: stops_keeps_old)

lemma guarded_pair:
  assumes "Old ` M \<subseteq> A" and "M \<inter> set (olds ss) = {}" and "set (olds ts) \<subseteq> M"
  shows "guarded (ss @ Pair i j # ts) A M (New j)"
proof -
  have "guarded (ss @ [Pair i j]) A M (New j)"
    unfolding guarded_def
  proof (intro allI impI)
    fix B
    assume "stops (ss @ [Pair i j]) A B"
    then consider "stops ss A B" | "stops [Pair i j] (steps_done ss A) B" using stops_append by blast
    then show "New j \<in> B \<or> Old ` M \<subseteq> B"
    proof cases
      case 1
      then show ?thesis using assms(1,2) by (auto dest: stops_keeps_old)
    next
      case 2
      have "Old ` M \<subseteq> steps_done ss A" using assms(1,2) by (auto simp: steps_done_eq)
      with 2 show ?thesis by (auto elim!: stops_ConsE stops_NilE)
    qed
  qed
  then have "guarded ((ss @ [Pair i j]) @ ts) A M (New j)"
    by (rule guarded_append) (simp_all add: steps_done_eq)
  then show ?thesis by simp
qed

end
