(* ===== verification/V2_Settled.thy ===== *)
theory V2_Settled
  imports V2_Pass "HOL-Library.Multiset"
begin

text \<open>
  What the plans of \<open>src/src/cgroup/v2plan.rs\<close> settle: every lineage of a pass ends as the
  program the rules make of its original, and is guarded by it or by the programs it had
  wherever the pass stops.
\<close>

section \<open>Plans under construction\<close>

definition plan_wf :: "pass_plan \<Rightarrow> bool" where
  "plan_wf p \<longleftrightarrow> news (steps p) = [0 ..< length (loads p)] \<and> length (names p) = length (loads p)"

text \<open>A plan that continues another and detaches only programs of \<open>D\<close> more.\<close>

definition plan_ext :: "pass_plan \<Rightarrow> pass_plan \<Rightarrow> nat set \<Rightarrow> bool" where
  "plan_ext p p' D \<longleftrightarrow>
     (\<exists>ts ls. steps p' = steps p @ ts \<and> loads p' = loads p @ ls \<and> set (olds ts) \<subseteq> D)"

text \<open>
  The lineage that had the programs \<open>M\<close> ends as the program \<open>d\<close>: a kept program of \<open>K\<close> or a
  loaded one, which guards it.
\<close>

definition settled ::
  "(nat \<Rightarrow> bytes) \<Rightarrow> slot set \<Rightarrow> pass_plan \<Rightarrow> nat set \<Rightarrow> nat set \<Rightarrow> bytes \<Rightarrow> bool" where
  "settled raws A p M K d \<longleftrightarrow>
     (\<exists>s. guarded (steps p) A M s \<and> s \<in> steps_done (steps p) A
        \<and> ((\<exists>i \<in> K. s = Old i \<and> raws i = d) \<or> (\<exists>j < length (loads p). s = New j \<and> loads p ! j = d)))"

lemma plan_ext_refl [simp]: "plan_ext p p D"
  by (simp add: plan_ext_def)

lemma plan_ext_trans: "plan_ext p q D \<Longrightarrow> plan_ext q r E \<Longrightarrow> plan_ext p r (D \<union> E)"
  by (fastforce simp: plan_ext_def)

lemma plan_ext_mono: "plan_ext p q D \<Longrightarrow> D \<subseteq> E \<Longrightarrow> plan_ext p q E"
  by (fastforce simp: plan_ext_def)

lemma plan_ext_olds: "plan_ext p q D \<Longrightarrow> set (olds (steps q)) \<subseteq> set (olds (steps p)) \<union> D"
  by (auto simp: plan_ext_def)

lemma plan_wf_empty [simp]: "plan_wf empty_plan"
  by (simp add: plan_wf_def empty_plan_def)

lemma plan_pair_ext [simp]:
  "plan_wf p \<Longrightarrow> plan_wf (plan_pair i raw name p)" "plan_ext p (plan_pair i raw name p) {i}"
  by (simp_all add: plan_wf_def plan_ext_def plan_pair_def plan_load_def)

lemma plan_attach_ext [simp]:
  "plan_wf p \<Longrightarrow> plan_wf (plan_attach raw name p)" "plan_ext p (plan_attach raw name p) {}"
  by (simp_all add: plan_wf_def plan_ext_def plan_attach_def plan_load_def)

lemma plan_lineage_ext [simp]:
  "plan_wf (plan_lineage n orig meta p) = plan_wf p" "plan_ext p (plan_lineage n orig meta p) {}"
  "steps (plan_lineage n orig meta p) = steps p" "loads (plan_lineage n orig meta p) = loads p"
  by (simp_all add: plan_wf_def plan_ext_def plan_lineage_def)

lemma plan_detach_simps [simp]:
  "steps (plan_detach i p) = steps p @ [Detach i]" "loads (plan_detach i p) = loads p"
  "names (plan_detach i p) = names p" "plan_wf (plan_detach i p) = plan_wf p"
  by (simp_all add: plan_detach_def plan_wf_def)

lemma settled_ext:
  assumes "settled raws A p M K d" and "plan_ext p p' D" and "M \<subseteq> K" and "K \<inter> D = {}"
  shows "settled raws A p' M K d"
proof -
  from assms(1) obtain s where g: "guarded (steps p) A M s" and s: "s \<in> steps_done (steps p) A"
    and c: "(\<exists>i \<in> K. s = Old i \<and> raws i = d) \<or> (\<exists>j < length (loads p). s = New j \<and> loads p ! j = d)"
    by (auto simp: settled_def)
  from assms(2) obtain ts ls where e: "steps p' = steps p @ ts" "loads p' = loads p @ ls"
    "set (olds ts) \<subseteq> D" by (auto simp: plan_ext_def)
  have nr: "not_removed s ts" using c e(3) assms(4) by auto
  have "guarded (steps p @ ts) A M s" by (rule guarded_append [OF g nr]) (simp add: s)
  moreover have "s \<in> steps_done (steps p @ ts) A"
    using s nr by (cases s) (auto simp: steps_done_eq)
  ultimately show ?thesis
    using c by (auto simp: settled_def e nth_append intro!: exI [of _ s])
qed

lemma Ex_less_Suc_split: "(\<exists>j. P j \<and> j < Suc n \<and> Q j) \<longleftrightarrow> (P 0 \<and> Q 0) \<or> (\<exists>j. P (Suc j) \<and> j < n \<and> Q (Suc j))"
  by (metis less_Suc_eq_0_disj not_less_eq)

lemma detach_except_steps:
  "\<exists>ts. steps (detach_except keep i ms p) = steps p @ ts \<and> news ts = []
     \<and> loads (detach_except keep i ms p) = loads p \<and> names (detach_except keep i ms p) = names p
     \<and> set (olds ts) = {ap_index (ms ! j) | j. j < length ms \<and> i + j \<noteq> keep}"
proof (induction ms arbitrary: i p)
  case (Cons m ms)
  define p1 where "p1 = (if i \<noteq> keep then plan_detach (ap_index m) p else p)"
  obtain ts where ts: "steps (detach_except keep (Suc i) ms p1) = steps p1 @ ts" "news ts = []"
    "loads (detach_except keep (Suc i) ms p1) = loads p1" "names (detach_except keep (Suc i) ms p1) = names p1"
    "set (olds ts) = {ap_index (ms ! j) | j. j < length ms \<and> Suc i + j \<noteq> keep}"
    using Cons.IH [of "Suc i" p1] by blast
  have split: "{ap_index ((m # ms) ! j) | j. j < length (m # ms) \<and> i + j \<noteq> keep} =
      (if i \<noteq> keep then {ap_index m} else {}) \<union>
      {ap_index (ms ! j) | j. j < length ms \<and> Suc i + j \<noteq> keep}"
    by (rule set_eqI) (simp add: Ex_less_Suc_split)
  show ?case
    using ts unfolding split
    by (intro exI [of _ "(if i \<noteq> keep then [Detach (ap_index m)] else []) @ ts"])
       (auto simp: p1_def)
qed simp

lemma nth_index_distinct:
  "distinct (map ap_index ms) \<Longrightarrow> k < length ms \<Longrightarrow> j < length ms \<Longrightarrow>
     ap_index (ms ! j) = ap_index (ms ! k) \<longleftrightarrow> j = k"
  by (metis length_map nth_eq_iff_index_eq nth_map)

section \<open>The grant plan\<close>

abbreviation indices :: "attached_prog list \<Rightarrow> nat set" where
  "indices ms \<equiv> ap_index ` set ms"

text \<open>What a plan for one lineage adds: its programs \<open>M\<close> end as \<open>d\<close>, and all that is kept of them is \<open>d\<close>.\<close>

definition lineage_planned ::
  "(nat \<Rightarrow> bytes) \<Rightarrow> slot set \<Rightarrow> pass_plan \<Rightarrow> pass_plan \<Rightarrow> nat set \<Rightarrow> nat set \<Rightarrow> bytes \<Rightarrow> bool" where
  "lineage_planned raws A p p' M K d \<longleftrightarrow>
     plan_wf p' \<and> plan_ext p p' M \<and> settled raws A p' M K d
     \<and> (\<forall>i \<in> M. i \<in> set (olds (steps p')) \<or> raws i = d)
     \<and> (loads p' = loads p \<or> loads p' = loads p @ [d])"

lemma planned_kept:
  assumes "plan_wf p" and "steps p' = steps p @ ts" and "news ts = []" and "loads p' = loads p"
    and "names p' = names p" and "set (olds ts) \<subseteq> M" and "\<forall>j \<in> M. j \<in> set (olds ts) \<or> raws j = d"
    and "i \<in> K" and "Old i \<in> A" and "i \<notin> set (olds (steps p'))" and "raws i = d"
  shows "lineage_planned raws A p p' M K d"
  using assms guarded_kept [OF assms(9,10), of M]
  unfolding lineage_planned_def
  by (auto simp: plan_wf_def plan_ext_def settled_def steps_done_eq intro!: exI [of _ "Old i"])

lemma planned_pair:
  assumes "plan_wf p" and "steps p' = steps p @ Pair i (length (loads p)) # ts" and "news ts = []"
    and "loads p' = loads p @ [d]" and "length (names p') = Suc (length (names p))"
    and "M = insert i (set (olds ts))" and "Old ` M \<subseteq> A" and "M \<inter> set (olds (steps p)) = {}"
  shows "lineage_planned raws A p p' M K d"
proof -
  have "guarded (steps p') A M (New (length (loads p)))"
    unfolding assms(2) by (rule guarded_pair) (use assms in auto)
  then show ?thesis
    using assms unfolding lineage_planned_def
    by (auto simp: plan_wf_def plan_ext_def settled_def steps_done_eq
        intro!: exI [of _ "New (length (loads p))"])
qed

lemma indices_nth: "indices ms = {ap_index (ms ! j) | j. j < length ms}"
  by (force simp: in_set_conv_nth)

lemma grant_group_planned:
  assumes wf: "plan_wf p" and ne: "members g \<noteq> []" and dist: "distinct (map ap_index (members g))"
    and A: "Old ` indices (members g) \<subseteq> A" and fresh: "indices (members g) \<inter> set (olds (steps p)) = {}"
    and raws: "\<forall>m \<in> set (members g). raws (ap_index m) = ap_raw m"
    and run: "grant_group sha rs g p = Inr p'"
  shows "\<exists>d. emit_owned sha rs (wg_nonce g) (wg_original g) = Inr d
    \<and> lineage_planned raws A p p' (indices (members g)) (indices (members g)) d"
proof -
  let ?ms = "members g"
  obtain d where d: "emit_owned sha rs (wg_nonce g) (wg_original g) = Inr d"
    using run by (cases "emit_owned sha rs (wg_nonce g) (wg_original g)") (auto simp: grant_group_def)
  have "lineage_planned raws A p p' (indices ?ms) (indices ?ms) d"
  proof (cases "find_index (\<lambda>m. ap_raw m = d) ?ms")
    case (Some k)
    then have k: "k < length ?ms" "ap_raw (?ms ! k) = d" by (auto dest: find_index_Some)
    obtain ts where ts: "steps p' = steps p @ ts" "news ts = []" "loads p' = loads p" "names p' = names p"
      "set (olds ts) = {ap_index (?ms ! j) | j. j < length ?ms \<and> j \<noteq> k}"
      using run d Some detach_except_steps [of k 0 ?ms p]
      by (auto simp: grant_group_def plan_lineage_def)
    have ki: "ap_index (?ms ! k) \<in> indices ?ms" using k by auto
    show ?thesis
    proof (rule planned_kept [where i = "ap_index (?ms ! k)", OF wf ts(1-4)])
      show "set (olds ts) \<subseteq> indices ?ms" by (auto simp: ts(5))
      show "\<forall>j \<in> indices ?ms. j \<in> set (olds ts) \<or> raws j = d"
        unfolding indices_nth using k raws by (auto simp: ts(5))
      show "ap_index (?ms ! k) \<notin> set (olds (steps p'))"
      proof -
        have "ap_index (?ms ! k) \<notin> set (olds ts)"
          unfolding ts(5) using nth_index_distinct [OF dist] k(1) by fastforce
        with fresh ki show ?thesis unfolding ts(1) by auto
      qed
    qed (use k raws A ki in auto)
  next
    case None
    let ?p1 = "plan_pair (ap_index (hd ?ms)) d OWNED_PROGRAM_NAME p"
    have p': "p' = plan_lineage (wg_nonce g) (wg_original g) (wg_meta g) (detach_except 0 0 ?ms ?p1)"
      using run d None by (simp add: grant_group_def)
    obtain m ms where m: "?ms = m # ms" using ne by (cases ?ms) auto
    obtain ts where ts: "steps p' = steps p @ Pair (ap_index m) (length (loads p)) # ts" "news ts = []"
      "loads p' = loads p @ [d]" "length (names p') = Suc (length (names p))"
      "set (olds ts) = {ap_index (?ms ! j) | j. j < length ?ms \<and> j \<noteq> 0}"
      using detach_except_steps [of 0 0 ?ms ?p1]
      by (auto simp: p' m plan_lineage_def plan_pair_def plan_load_def simp del: detach_except.simps)
    have "indices ?ms = insert (ap_index m) (set (olds ts))"
      unfolding ts(5) m indices_nth [of ms] list.set image_insert
      by (rule arg_cong [of _ _ "insert (ap_index m)"]) (rule set_eqI, simp add: Ex_less_Suc_split)
    with wf ts A fresh show ?thesis by (intro planned_pair)
  qed
  with d show ?thesis by blast
qed

section \<open>All the lineages of a pass\<close>

text \<open>A lineage of a pass: its programs, the programs it may end as, and the program it ends as.\<close>

type_synonym planned = "nat set \<times> nat set \<times> bytes"

definition all_planned ::
  "(nat \<Rightarrow> bytes) \<Rightarrow> slot set \<Rightarrow> pass_plan \<Rightarrow> planned list \<Rightarrow> bool" where
  "all_planned raws A p L \<longleftrightarrow>
     plan_wf p
     \<and> (\<forall>(M, K, d) \<in> set L. M \<subseteq> K \<and> settled raws A p M K d
          \<and> (\<forall>i \<in> M. i \<in> set (olds (steps p)) \<or> raws i = d))
     \<and> set (olds (steps p)) \<subseteq> (\<Union>(M, K, d) \<in> set L. M)
     \<and> set (loads p) \<subseteq> (\<lambda>(M, K, d). d) ` set L"

lemma all_planned_empty [simp]: "all_planned raws A empty_plan []"
  by (simp add: all_planned_def) (simp add: empty_plan_def)

lemma plan_ext_mem: "plan_ext p q D \<Longrightarrow> i \<in> set (olds (steps p)) \<Longrightarrow> i \<in> set (olds (steps q))"
  by (auto simp: plan_ext_def)

lemma all_planned_Cons:
  assumes all: "all_planned raws A p L" and one: "lineage_planned raws A p p' M K d"
    and "M \<subseteq> K" and disj: "\<forall>(M', K', d') \<in> set L. K' \<inter> M = {}"
  shows "all_planned raws A p' ((M, K, d) # L)"
proof -
  have ext: "plan_ext p p' M" using one by (simp add: lineage_planned_def)
  have old: "M' \<subseteq> K' \<and> settled raws A p' M' K' d' \<and> (\<forall>i \<in> M'. i \<in> set (olds (steps p')) \<or> raws i = d')"
    if "(M', K', d') \<in> set L" for M' K' d'
  proof -
    have a: "M' \<subseteq> K'" "settled raws A p M' K' d'" "\<forall>i \<in> M'. i \<in> set (olds (steps p)) \<or> raws i = d'"
      using all that by (auto simp: all_planned_def)
    have "K' \<inter> M = {}" using disj that by auto
    from settled_ext [OF a(2) ext a(1) this] a(1,3) plan_ext_mem [OF ext] show ?thesis by blast
  qed
  have olds: "set (olds (steps p')) \<subseteq> M \<union> (\<Union>(M, K, d) \<in> set L. M)"
    using plan_ext_olds [OF ext] all by (auto simp: all_planned_def)
  have loads: "set (loads p') \<subseteq> insert d ((\<lambda>(M, K, d). d) ` set L)"
    using all one by (auto simp: all_planned_def lineage_planned_def)
  show ?thesis
    unfolding all_planned_def
  proof (intro conjI ballI)
    fix x
    assume x: "x \<in> set ((M, K, d) # L)"
    obtain M' K' d' where e: "x = (M', K', d')" by (cases x)
    show "case x of (M, K, d) \<Rightarrow> M \<subseteq> K \<and> settled raws A p' M K d
        \<and> (\<forall>i \<in> M. i \<in> set (olds (steps p')) \<or> raws i = d)"
    proof (cases "x = (M, K, d)")
      case True
      then show ?thesis using one assms(3) by (simp add: lineage_planned_def)
    next
      case False
      then have "(M', K', d') \<in> set L" using x e by auto
      from old [OF this] show ?thesis by (simp add: e)
    qed
  qed (use olds loads one in \<open>auto simp: lineage_planned_def\<close>)
qed

text \<open>What the rules make of an original: its wrapper, or itself when there are no rules.\<close>

definition desired_for :: "(bytes \<Rightarrow> bytes) \<Rightarrow> device_rule list \<Rightarrow> bytes \<Rightarrow> bytes \<Rightarrow> bool" where
  "desired_for sha rs orig d \<longleftrightarrow>
     (if rs = [] then d = orig else \<exists>n. emit_owned sha rs n orig = Inr d)"

text \<open>A group of attached programs of one lineage.\<close>

definition group_wf :: "wrapper_group \<Rightarrow> bool" where
  "group_wf g \<longleftrightarrow> members g \<noteq> [] \<and> (\<forall>m \<in> set (members g). ap_original m = wg_original g)"

definition group_indices :: "wrapper_group list \<Rightarrow> nat list" where
  "group_indices gs = concat (map (\<lambda>g. map ap_index (members g)) gs)"

lemma group_indices_simps [simp]:
  "group_indices [] = []" "group_indices (g # gs) = map ap_index (members g) @ group_indices gs"
  by (simp_all add: group_indices_def)

definition group_entries ::
  "(bytes \<Rightarrow> bytes) \<Rightarrow> device_rule list \<Rightarrow> wrapper_group list \<Rightarrow> planned list \<Rightarrow> bool" where
  "group_entries sha rs gs L \<longleftrightarrow>
     list_all2 (\<lambda>g (M, K, d). M = indices (members g) \<and> desired_for sha rs (wg_original g) d) gs L"

lemma grant_groups_planned:
  assumes "grant_groups sha rs gs p = Inr p'" and "rs \<noteq> []" and "all_planned raws A p L"
    and "\<forall>g \<in> set gs. group_wf g \<and> (\<forall>m \<in> set (members g). raws (ap_index m) = ap_raw m)"
    and "distinct (group_indices gs)" and "Old ` set (group_indices gs) \<subseteq> A"
    and "\<forall>(M, K, d) \<in> set L. K \<inter> set (group_indices gs) = {}"
  shows "\<exists>Lg. all_planned raws A p' (rev Lg @ L) \<and> group_entries sha rs gs Lg
    \<and> (\<forall>(M, K, d) \<in> set Lg. K \<subseteq> set (group_indices gs))"
  using assms
proof (induction gs arbitrary: p L)
  case Nil
  then show ?case by (intro exI [of _ "[]"]) (simp add: group_entries_def)
next
  case (Cons g gs)
  obtain p1 where p1: "grant_group sha rs g p = Inr p1" and rest: "grant_groups sha rs gs p1 = Inr p'"
    using Cons.prems(1) by (cases "grant_group sha rs g p") auto
  let ?M = "indices (members g)"
  have wf: "plan_wf p" and ol: "set (olds (steps p)) \<subseteq> (\<Union>(M, K, d) \<in> set L. M)"
    and MK: "\<forall>(M, K, d) \<in> set L. M \<subseteq> K"
    using Cons.prems(3) by (auto simp: all_planned_def)
  have dis: "\<forall>(M, K, d) \<in> set L. K \<inter> ?M = {}" using Cons.prems(7) by fastforce
  have fresh: "?M \<inter> set (olds (steps p)) = {}" using ol MK dis by fastforce
  have "members g \<noteq> []" "distinct (map ap_index (members g))" "Old ` ?M \<subseteq> A"
    "\<forall>m \<in> set (members g). raws (ap_index m) = ap_raw m"
    using Cons.prems(4-6) by (auto simp: group_wf_def)
  from grant_group_planned [OF wf this(1-3) fresh this(4) p1]
  obtain d where d: "emit_owned sha rs (wg_nonce g) (wg_original g) = Inr d"
    "lineage_planned raws A p p1 ?M ?M d" by blast
  have all1: "all_planned raws A p1 ((?M, ?M, d) # L)"
    by (rule all_planned_Cons [OF Cons.prems(3) d(2)]) (use dis in auto)
  have dis1: "\<forall>(M, K, d) \<in> set ((?M, ?M, d) # L). K \<inter> set (group_indices gs) = {}"
    using Cons.prems(5,7) by auto
  from Cons.IH [OF rest Cons.prems(2) all1 _ _ _ dis1] Cons.prems(4-6)
  obtain Lg where Lg: "all_planned raws A p' (rev Lg @ (?M, ?M, d) # L)" "group_entries sha rs gs Lg"
    "\<forall>(M, K, d) \<in> set Lg. K \<subseteq> set (group_indices gs)" by auto
  then show ?case
    using d(1) Cons.prems(2)
    by (intro exI [of _ "(?M, ?M, d) # Lg"]) (auto simp: group_entries_def desired_for_def)
qed

definition bare_entries ::
  "(bytes \<Rightarrow> bytes) \<Rightarrow> device_rule list \<Rightarrow> attached_prog list \<Rightarrow> planned list \<Rightarrow> bool" where
  "bare_entries sha rs bs L \<longleftrightarrow>
     list_all2 (\<lambda>b (M, K, d). M = {ap_index b} \<and> desired_for sha rs (ap_raw b) d) bs L"

lemma planned_bare:
  assumes "plan_wf p" and "i \<notin> set (olds (steps p))" and "Old i \<in> A"
  shows "lineage_planned raws A p (plan_lineage n orig meta (plan_pair i d name p)) {i} {i} d"
  by (rule planned_pair [where i = i and ts = "[]", OF assms(1)])
     (use assms in \<open>auto simp: plan_lineage_def plan_pair_def plan_load_def\<close>)

lemma grant_bare_planned:
  assumes "grant_bare sha rand rs b p d0 = (Inr p', d1)" and "rs \<noteq> []" and "plan_wf p"
    and "ap_index b \<notin> set (olds (steps p))" and "Old (ap_index b) \<in> A"
  shows "\<exists>d. desired_for sha rs (ap_raw b) d
    \<and> lineage_planned raws A p p' {ap_index b} {ap_index b} d"
proof -
  obtain n d where "emit_owned sha rs n (ap_raw b) = Inr d"
    "p' = plan_lineage n (ap_raw b) (ap_meta b) (plan_pair (ap_index b) d OWNED_PROGRAM_NAME p)"
    using assms(1)
    by (auto simp: grant_bare_def result_simps)
  with planned_bare [OF assms(3-5)] assms(2) show ?thesis by (auto simp: desired_for_def)
qed

lemma grant_bares_planned:
  assumes "grant_bares sha rand rs bs p d0 = (Inr p', d1)" and "rs \<noteq> []" and "all_planned raws A p L"
    and "distinct (map ap_index bs)" and "Old ` indices bs \<subseteq> A"
    and "\<forall>(M, K, d) \<in> set L. K \<inter> indices bs = {}"
  shows "\<exists>Lb. all_planned raws A p' (rev Lb @ L) \<and> bare_entries sha rs bs Lb"
  using assms
proof (induction bs arbitrary: p L d0)
  case Nil
  then show ?case by (intro exI [of _ "[]"]) (simp add: bare_entries_def retS_def)
next
  case (Cons b bs)
  obtain p1 d2 where p1: "grant_bare sha rand rs b p d0 = (Inr p1, d2)"
    and rest: "grant_bares sha rand rs bs p1 d2 = (Inr p', d1)"
    using Cons.prems(1) by (auto simp: result_simps)
  have wf: "plan_wf p" and ol: "set (olds (steps p)) \<subseteq> (\<Union>(M, K, d) \<in> set L. M)"
    and MK: "\<forall>(M, K, d) \<in> set L. M \<subseteq> K"
    using Cons.prems(3) by (auto simp: all_planned_def)
  have dis: "\<forall>(M, K, d) \<in> set L. K \<inter> {ap_index b} = {}" using Cons.prems(6) by fastforce
  have fresh: "ap_index b \<notin> set (olds (steps p))" using ol MK dis by fastforce
  have A: "Old (ap_index b) \<in> A" using Cons.prems(5) by simp
  obtain d where d: "desired_for sha rs (ap_raw b) d"
    "lineage_planned raws A p p1 {ap_index b} {ap_index b} d"
    using grant_bare_planned [OF p1 Cons.prems(2) wf fresh A] by blast
  let ?L = "({ap_index b}, {ap_index b}, d) # L"
  have all1: "all_planned raws A p1 ?L"
    by (rule all_planned_Cons [OF Cons.prems(3) d(2)]) (use dis in auto)
  have dis1: "\<forall>(M, K, d) \<in> set ?L. K \<inter> indices bs = {}"
  proof -
    have "\<forall>(M, K, d) \<in> set L. K \<inter> indices bs = {}" using Cons.prems(6) by fastforce
    with Cons.prems(4) show ?thesis by simp
  qed
  have "distinct (map ap_index bs)" "Old ` indices bs \<subseteq> A" using Cons.prems(4,5) by auto
  from Cons.IH [OF rest Cons.prems(2) all1 this dis1]
  obtain Lb where "all_planned raws A p' (rev Lb @ ?L)" "bare_entries sha rs bs Lb" by blast
  then show ?case
    using d(1) by (intro exI [of _ "({ap_index b}, {ap_index b}, d) # Lb"]) (simp add: bare_entries_def)
qed

section \<open>The rebuild plan\<close>

lemma planned_attach:
  assumes "plan_wf p"
  shows "lineage_planned raws A p (plan_lineage n orig meta (plan_attach d name p)) {} {} d"
  using assms unfolding lineage_planned_def
  by (auto simp: plan_wf_def plan_ext_def settled_def steps_done_eq guarded_def plan_lineage_def
      plan_attach_def plan_load_def)

definition rebuilt_entries ::
  "(bytes \<Rightarrow> bytes) \<Rightarrow> device_rule list \<Rightarrow> cached_lineage list \<Rightarrow> planned list \<Rightarrow> bool" where
  "rebuilt_entries sha rs ls L \<longleftrightarrow>
     list_all2 (\<lambda>l (M, K, d). M = {} \<and> desired_for sha rs (cl_original l) d) ls L"

lemma rebuild_lineage_planned:
  assumes "rebuild_lineage sha rand rs l p d0 = (Inr p', d1)" and "plan_wf p"
  shows "\<exists>d. desired_for sha rs (cl_original l) d \<and> lineage_planned raws A p p' {} {} d"
proof -
  obtain n d name where "desired_for sha rs (cl_original l) d"
    "p' = plan_lineage n (cl_original l) (cl_meta l) (plan_attach d name p)"
    using assms(1)
    by (cases "rs = []") (auto simp: rebuild_lineage_def desired_for_def result_simps)
  with planned_attach [OF assms(2)] show ?thesis by blast
qed

lemma add_rebuild_planned:
  assumes "add_rebuild sha rand rs ls p d0 = (Inr p', d1)" and "all_planned raws A p L"
  shows "\<exists>Lr. all_planned raws A p' (rev Lr @ L) \<and> rebuilt_entries sha rs ls Lr"
  using assms
proof (induction ls arbitrary: p L d0)
  case Nil
  then show ?case by (intro exI [of _ "[]"]) (simp add: rebuilt_entries_def retS_def)
next
  case (Cons l ls)
  obtain p1 d2 where p1: "rebuild_lineage sha rand rs l p d0 = (Inr p1, d2)"
    and rest: "add_rebuild sha rand rs ls p1 d2 = (Inr p', d1)"
    using Cons.prems(1) by (auto simp: result_simps)
  have "plan_wf p" using Cons.prems(2) by (simp add: all_planned_def)
  from rebuild_lineage_planned [OF p1 this]
  obtain d where d: "desired_for sha rs (cl_original l) d" "lineage_planned raws A p p1 {} {} d" by blast
  have "all_planned raws A p1 (({}, {}, d) # L)"
    by (rule all_planned_Cons [OF Cons.prems(2) d(2)]) auto
  from Cons.IH [OF rest this]
  obtain Lr where "all_planned raws A p' (rev Lr @ ({}, {}, d) # L)" "rebuilt_entries sha rs ls Lr" by blast
  then show ?case
    using d(1) by (intro exI [of _ "({}, {}, d) # Lr"]) (simp add: rebuilt_entries_def)
qed

section \<open>The restore plan\<close>

lemma detach_all_steps:
  "steps (detach_all ms p) = steps p @ map (Detach \<circ> ap_index) ms"
  "loads (detach_all ms p) = loads p" "names (detach_all ms p) = names p"
  by (induction ms arbitrary: p) (simp_all add: detach_all_def)

lemma detaches_olds [simp]:
  "olds (map (Detach \<circ> ap_index) ms) = map ap_index ms" "news (map (Detach \<circ> ap_index) ms) = []"
  by (induction ms) simp_all

lemma restore_group_planned:
  assumes wf: "plan_wf p" and ne: "members g \<noteq> []" and A: "Old ` (indices (members g) \<union> indices bares) \<subseteq> A"
    and fresh: "(indices (members g) \<union> indices bares) \<inter> set (olds (steps p)) = {}"
    and disj: "indices (members g) \<inter> indices bares = {}"
    and raws: "\<forall>b \<in> set bares. raws (ap_index b) = ap_raw b"
    and len: "length available = length bares"
    and run: "restore_group bares g (available, p) = (available', p')"
  shows "length available' = length bares"
    and "lineage_planned raws A p p' (indices (members g)) (indices (members g) \<union> indices bares)
           (wg_original g)"
proof -
  let ?f = "find_index (\<lambda>(b, free). free \<and> ap_raw b = wg_original g) (zip bares available)"
  show "length available' = length bares"
    using run len by (cases ?f) (auto simp: restore_group_def Let_def)
  show "lineage_planned raws A p p' (indices (members g)) (indices (members g) \<union> indices bares)
      (wg_original g)"
  proof (cases ?f)
    case (Some i)
    then have i: "i < length bares" "ap_raw (bares ! i) = wg_original g"
      using len by (auto dest!: find_index_Some)
    have p': "p' = plan_lineage (wg_nonce g) (wg_original g) (wg_meta g) (detach_all (members g) p)"
      using run Some by (simp add: restore_group_def Let_def)
    have b: "ap_index (bares ! i) \<in> indices bares" "bares ! i \<in> set bares" using i by simp_all
    have nb: "ap_index (bares ! i) \<notin> set (olds (steps p))" "ap_index (bares ! i) \<notin> indices (members g)"
      using b(1) fresh disj by auto
    show ?thesis
      by (rule planned_kept [where i = "ap_index (bares ! i)" and ts = "map (Detach \<circ> ap_index) (members g)",
            OF wf])
         (use b nb i raws A in \<open>auto simp: p' plan_lineage_def detach_all_steps\<close>)
  next
    case None
    obtain m ms where m: "members g = m # ms" using ne by (cases "members g") auto
    have p': "p' = plan_lineage (wg_nonce g) (wg_original g) (wg_meta g)
        (detach_all ms (plan_pair (ap_index m) (wg_original g) [] p))"
      using run None m by (simp add: restore_group_def Let_def)
    show ?thesis
      by (rule planned_pair [where i = "ap_index m" and ts = "map (Detach \<circ> ap_index) ms", OF wf])
         (use m A fresh in \<open>auto simp: p' plan_lineage_def plan_pair_def plan_load_def detach_all_steps\<close>)
  qed
qed

lemma restore_groups_planned:
  assumes "foldl (\<lambda>s g. restore_group bares g s) (available, p) gs = (available', p')"
    and "length available = length bares" and "all_planned raws A p L"
    and "\<forall>g \<in> set gs. group_wf g" and "\<forall>b \<in> set bares. raws (ap_index b) = ap_raw b"
    and "distinct (group_indices gs)" and "set (group_indices gs) \<inter> indices bares = {}"
    and "Old ` (set (group_indices gs) \<union> indices bares) \<subseteq> A"
    and "\<forall>(M, K, d) \<in> set L. K \<inter> set (group_indices gs) = {} \<and> M \<inter> indices bares = {}"
  shows "\<exists>Lg. all_planned raws A p' (rev Lg @ L) \<and> group_entries sha [] gs Lg
    \<and> length available' = length bares
    \<and> (\<forall>(M, K, d) \<in> set Lg. K \<subseteq> set (group_indices gs) \<union> indices bares \<and> M \<inter> indices bares = {})"
  using assms
proof (induction gs arbitrary: available p L)
  case Nil
  then show ?case by (intro exI [of _ "[]"]) (simp add: group_entries_def)
next
  case (Cons g gs)
  let ?M = "indices (members g)" and ?G = "set (group_indices gs)" and ?B = "indices bares"
  obtain av1 p1 where p1: "restore_group bares g (available, p) = (av1, p1)" by (metis surj_pair)
  with Cons.prems(1) have rest: "foldl (\<lambda>s g. restore_group bares g s) (av1, p1) gs = (available', p')"
    by simp
  have wf: "plan_wf p" and ol: "set (olds (steps p)) \<subseteq> (\<Union>(M, K, d) \<in> set L. M)"
    and MK: "\<forall>(M, K, d) \<in> set L. M \<subseteq> K"
    using Cons.prems(3) by (auto simp: all_planned_def)
  have g: "members g \<noteq> []" "Old ` (?M \<union> ?B) \<subseteq> A" "?M \<inter> ?B = {}"
    using Cons.prems(4,7,8) by (auto simp: group_wf_def)
  have dis: "\<forall>(M, K, d) \<in> set L. K \<inter> ?M = {}" "\<forall>(M, K, d) \<in> set L. K \<inter> ?G = {} \<and> M \<inter> ?B = {}"
    using Cons.prems(9) by fastforce+
  have fresh: "(?M \<union> ?B) \<inter> set (olds (steps p)) = {}" using ol MK dis by fastforce
  note one = restore_group_planned [OF wf g(1,2) fresh g(3) Cons.prems(5,2) p1]
  let ?L = "(?M, ?M \<union> ?B, wg_original g) # L"
  have all1: "all_planned raws A p1 ?L"
    by (rule all_planned_Cons [OF Cons.prems(3) one(2)]) (use dis in auto)
  have "?M \<inter> ?G = {}" "?G \<inter> ?B = {}" using Cons.prems(6,7) by auto
  with dis(2) g(3) have dis1: "\<forall>(M, K, d) \<in> set ?L. K \<inter> ?G = {} \<and> M \<inter> ?B = {}"
    by (simp add: Int_Un_distrib2 Int_Un_distrib Int_commute)
  have "\<forall>g \<in> set gs. group_wf g" "distinct (group_indices gs)" "?G \<inter> ?B = {}" "Old ` (?G \<union> ?B) \<subseteq> A"
    using Cons.prems(4,6-8) by auto
  from Cons.IH [OF rest one(1) all1 this(1) Cons.prems(5) this(2-4) dis1]
  obtain Lg where Lg: "all_planned raws A p' (rev Lg @ ?L)" "group_entries sha [] gs Lg"
    "length available' = length bares"
    "\<forall>(M, K, d) \<in> set Lg. K \<subseteq> ?G \<union> ?B \<and> M \<inter> ?B = {}" by blast
  from Lg(4) have "\<forall>(M, K, d) \<in> set Lg. K \<subseteq> set (group_indices (g # gs)) \<union> ?B \<and> M \<inter> ?B = {}"
    by fastforce
  with Lg g(3) show ?case
    by (intro exI [of _ "(?M, ?M \<union> ?B, wg_original g) # Lg"])
       (simp add: group_entries_def desired_for_def, blast)
qed

text \<open>The bare programs stay as they are.\<close>

lemma restore_bares_steps:
  "steps (foldl restore_bare p bfs) = steps p" "loads (foldl restore_bare p bfs) = loads p"
  "names (foldl restore_bare p bfs) = names p"
  by (induction bfs arbitrary: p) (auto simp: restore_bare_def plan_lineage_def split: prod.splits)

lemma all_planned_same:
  "all_planned raws A p L \<Longrightarrow> steps p' = steps p \<Longrightarrow> loads p' = loads p \<Longrightarrow> names p' = names p
     \<Longrightarrow> all_planned raws A p' L"
  by (simp add: all_planned_def settled_def plan_wf_def)

lemma all_planned_bares:
  assumes "all_planned raws A p L" and "indices bs \<inter> set (olds (steps p)) = {}"
    and "Old ` indices bs \<subseteq> A" and "\<forall>b \<in> set bs. raws (ap_index b) = ap_raw b"
  shows "all_planned raws A p (map (\<lambda>b. ({ap_index b}, {ap_index b}, ap_raw b)) bs @ L)"
proof -
  have kept: "settled raws A p {ap_index b} {ap_index b} (ap_raw b)" if "b \<in> set bs" for b
    using assms that guarded_kept [of "ap_index b" A "steps p" "{ap_index b}"]
    unfolding settled_def
    by (intro exI [of _ "Old (ap_index b)"]) (auto simp: steps_done_eq)
  have raw: "raws (ap_index b) = ap_raw b" if "b \<in> set bs" for b using assms(4) that by simp
  show ?thesis
    using assms(1) unfolding all_planned_def set_append image_Un
    by (auto simp: kept raw)
qed

lemma bare_entries_kept:
  "bare_entries sha [] bs (map (\<lambda>b. ({ap_index b}, {ap_index b}, ap_raw b)) bs)"
  by (simp add: bare_entries_def list_all2_conv_all_nth desired_for_def)

text \<open>The programs of a pass, grouped.\<close>

definition groups_wf ::
  "(nat \<Rightarrow> bytes) \<Rightarrow> slot set \<Rightarrow> wrapper_group list \<Rightarrow> attached_prog list \<Rightarrow> bool" where
  "groups_wf raws A gs bs \<longleftrightarrow>
     (\<forall>g \<in> set gs. group_wf g \<and> (\<forall>m \<in> set (members g). raws (ap_index m) = ap_raw m))
     \<and> (\<forall>b \<in> set bs. raws (ap_index b) = ap_raw b)
     \<and> distinct (group_indices gs @ map ap_index bs) \<and> Old ` set (group_indices gs @ map ap_index bs) \<subseteq> A"

definition pass_entries ::
  "(bytes \<Rightarrow> bytes) \<Rightarrow> device_rule list \<Rightarrow> wrapper_group list \<Rightarrow> attached_prog list \<Rightarrow> planned list \<Rightarrow> bool" where
  "pass_entries sha rs gs bs L \<longleftrightarrow>
     (\<exists>Lg Lb. set L = set Lg \<union> set Lb \<and> group_entries sha rs gs Lg \<and> bare_entries sha rs bs Lb)"

lemma plan_grant_planned:
  assumes run: "plan_grant sha rand gs bs rs d0 = (Inr p, d1)" and "rs \<noteq> []" and wf: "groups_wf raws A gs bs"
  shows "\<exists>L. all_planned raws A p L \<and> pass_entries sha rs gs bs L"
proof -
  obtain p1 where p1: "grant_groups sha rs gs empty_plan = Inr p1"
    and p: "grant_bares sha rand rs bs p1 d0 = (Inr p, d1)"
    using run by (auto simp: plan_grant_def result_simps)
  have gs: "\<forall>g \<in> set gs. group_wf g \<and> (\<forall>m \<in> set (members g). raws (ap_index m) = ap_raw m)"
    "distinct (group_indices gs)" "Old ` set (group_indices gs) \<subseteq> A"
    and bs: "distinct (map ap_index bs)" "Old ` indices bs \<subseteq> A"
    and di: "set (group_indices gs) \<inter> indices bs = {}"
    using wf by (auto simp: groups_wf_def)
  from grant_groups_planned [OF p1 assms(2) all_planned_empty gs]
  obtain Lg where Lg: "all_planned raws A p1 (rev Lg)" "group_entries sha rs gs Lg"
    "\<forall>(M, K, d) \<in> set Lg. K \<subseteq> set (group_indices gs)" by auto
  have "\<forall>(M, K, d) \<in> set (rev Lg). K \<inter> indices bs = {}" using Lg(3) di by fastforce
  from grant_bares_planned [OF p assms(2) Lg(1) bs this]
  obtain Lb where "all_planned raws A p (rev Lb @ rev Lg)" "bare_entries sha rs bs Lb" by blast
  with Lg(2) show ?thesis
    unfolding pass_entries_def by (intro exI [of _ "rev Lb @ rev Lg"] conjI exI [of _ Lg] exI [of _ Lb]) auto
qed

lemma plan_restore_planned:
  assumes wf: "groups_wf raws A gs bs"
  shows "\<exists>L. all_planned raws A (plan_restore gs bs) L \<and> pass_entries sha [] gs bs L"
proof -
  obtain av p1 where fold: "foldl (\<lambda>s g. restore_group bs g s) (replicate (length bs) True, empty_plan) gs = (av, p1)"
    by (metis surj_pair)
  have p: "plan_restore gs bs = foldl restore_bare p1 (zip bs av)"
    by (simp add: plan_restore_def fold)
  have gs: "\<forall>g \<in> set gs. group_wf g" "\<forall>b \<in> set bs. raws (ap_index b) = ap_raw b"
    "distinct (group_indices gs)" "set (group_indices gs) \<inter> indices bs = {}"
    "Old ` (set (group_indices gs) \<union> indices bs) \<subseteq> A"
    using wf by (auto simp: groups_wf_def)
  from restore_groups_planned [OF fold _ all_planned_empty gs, of sha]
  obtain Lg where Lg: "all_planned raws A p1 (rev Lg)" "group_entries sha [] gs Lg"
    "\<forall>(M, K, d) \<in> set Lg. K \<subseteq> set (group_indices gs) \<union> indices bs \<and> M \<inter> indices bs = {}" by auto
  have all: "all_planned raws A (plan_restore gs bs) (rev Lg)"
    by (rule all_planned_same [OF Lg(1)]) (simp_all add: p restore_bares_steps)
  then have "set (olds (steps (plan_restore gs bs))) \<subseteq> (\<Union>(M, K, d) \<in> set Lg. M)"
    by (simp add: all_planned_def)
  then have "indices bs \<inter> set (olds (steps (plan_restore gs bs))) = {}" using Lg(3) by fastforce
  from all_planned_bares [OF all this _ gs(2)] gs(5)
  have "all_planned raws A (plan_restore gs bs)
      (map (\<lambda>b. ({ap_index b}, {ap_index b}, ap_raw b)) bs @ rev Lg)" by auto
  with Lg(2) bare_entries_kept [of sha bs] show ?thesis
    unfolding pass_entries_def
    by (intro exI [of _ "map (\<lambda>b. ({ap_index b}, {ap_index b}, ap_raw b)) bs @ rev Lg"] conjI exI [of _ Lg]
        exI [of _ "map (\<lambda>b. ({ap_index b}, {ap_index b}, ap_raw b)) bs"]) auto
qed

section \<open>Grouping\<close>

definition group_members :: "wrapper_group list \<Rightarrow> attached_prog list" where
  "group_members gs = concat (map members gs)"

lemma group_members_simps [simp]:
  "group_members [] = []" "group_members (g # gs) = members g @ group_members gs"
  "group_members (gs @ hs) = group_members gs @ group_members hs"
  by (simp_all add: group_members_def)

lemma group_indices_members: "group_indices gs = map ap_index (group_members gs)"
  by (simp add: group_indices_def group_members_def map_concat comp_def)

lemma group_members_update:
  "i < length gs \<Longrightarrow> mset (group_members (gs[i := (gs ! i)\<lparr>members := members (gs ! i) @ [c]\<rparr>])) =
     add_mset c (mset (group_members gs))"
  by (induction gs arbitrary: i) (auto split: nat.splits)

lemma add_member_mset: "mset (group_members (add_member c gs)) = add_mset c (mset (group_members gs))"
  by (cases "find_index (same_lineage c) gs")
     (auto simp: add_member_def group_members_update dest: find_index_Some)

lemma add_member_wf:
  assumes "\<forall>g \<in> set gs. group_wf g"
  shows "\<forall>g \<in> set (add_member c gs). group_wf g"
proof (cases "find_index (same_lineage c) gs")
  case None
  with assms show ?thesis by (auto simp: add_member_def group_wf_def)
next
  case (Some i)
  then have i: "i < length gs" "same_lineage c (gs ! i)" by (auto dest: find_index_Some)
  then have "group_wf (gs ! i)" using assms by simp
  with i have "group_wf ((gs ! i)\<lparr>members := members (gs ! i) @ [c]\<rparr>)"
    by (auto simp: group_wf_def same_lineage_def)
  with assms Some show ?thesis
    by (auto simp: add_member_def dest!: set_update_subset_insert [THEN subsetD])
qed

lemma group_loop_inv:
  "group_loop cs gs bs = (gs', bs') \<Longrightarrow> \<forall>g \<in> set gs. group_wf g \<Longrightarrow>
     (\<forall>g \<in> set gs'. group_wf g) \<and> set bs' \<subseteq> set bs \<union> {c \<in> set cs. \<not> ap_owned c}
     \<and> mset (group_members gs') + mset bs' = mset cs + mset (group_members gs) + mset bs"
proof (induction cs arbitrary: gs bs)
  case (Cons c cs)
  show ?case
  proof (cases "ap_owned c")
    case True
    with Cons.prems have "group_loop cs (add_member c gs) bs = (gs', bs')" by simp
    from Cons.IH [OF this add_member_wf [OF Cons.prems(2)]] show ?thesis
      by (auto simp: add_member_mset)
  next
    case False
    with Cons.prems have "group_loop cs gs (bs @ [c]) = (gs', bs')" by simp
    from Cons.IH [OF this Cons.prems(2)] False show ?thesis by auto
  qed
qed simp

lemma group_wrappers_wf:
  assumes g: "group_wrappers cs = (gs, bs)" and ix: "map ap_index cs = [0 ..< length cs]"
  shows "groups_wf (\<lambda>i. ap_raw (cs ! i)) (Old ` {..< length cs}) gs bs"
    and "set (group_members gs) \<union> set bs = set cs" and "\<forall>b \<in> set bs. \<not> ap_owned b"
    and "\<forall>g \<in> set gs. group_wf g"
proof -
  have inv: "\<forall>g \<in> set gs. group_wf g" "set bs \<subseteq> {c \<in> set cs. \<not> ap_owned c}"
    "mset (group_members gs @ bs) = mset cs"
    using group_loop_inv [of cs "[]" "[]" gs bs] g by (auto simp: group_wrappers_def)
  then have sets: "set (group_members gs @ bs) = set cs" by (metis mset_eq_setD)
  have idx: "mset (map ap_index (group_members gs @ bs)) = mset [0 ..< length cs]"
    using inv(3) ix by (metis mset_map)
  have dist: "distinct (map ap_index (group_members gs @ bs))"
    using mset_eq_imp_distinct_iff [OF idx] by simp
  have range: "set (map ap_index (group_members gs @ bs)) = {..< length cs}"
    using mset_eq_setD [OF idx] by auto
  have raw: "ap_raw (cs ! ap_index c) = ap_raw c" if "c \<in> set cs" for c
  proof -
    from that obtain i where i: "i < length cs" "c = cs ! i" by (auto simp: in_set_conv_nth)
    with arg_cong [OF ix, of "\<lambda>xs. xs ! i"] show ?thesis by simp
  qed
  have mem: "m \<in> set cs" if "g \<in> set gs" "m \<in> set (members g)" for g m
    using that sets by (auto simp: group_members_def)
  show "groups_wf (\<lambda>i. ap_raw (cs ! i)) (Old ` {..< length cs}) gs bs"
    using inv dist range raw mem sets by (auto simp: groups_wf_def group_indices_members)
  show "set (group_members gs) \<union> set bs = set cs" using sets by simp
  show "\<forall>b \<in> set bs. \<not> ap_owned b" using inv(2) by auto
  show "\<forall>g \<in> set gs. group_wf g" by (rule inv(1))
qed

section \<open>What a pass plans\<close>

lemma missing_loop_subset: "set (missing_loop ls gs bs gu bu) \<subseteq> set ls"
proof (induction ls arbitrary: gu bu)
  case (Cons l ls)
  then show ?case by (auto split: option.splits)
qed simp

text \<open>
  The lineages of a plan are those of the attached programs, each with all its programs, and
  rebuilt ones whose originals are cached.
\<close>

definition traced ::
  "(bytes \<Rightarrow> bytes) \<Rightarrow> device_rule list \<Rightarrow> attached_prog list \<Rightarrow> bytes set \<Rightarrow> planned list \<Rightarrow> bool" where
  "traced sha rs cs cached L \<longleftrightarrow>
     (\<forall>i < length cs. \<exists>M K d. (M, K, d) \<in> set L \<and> i \<in> M)
     \<and> (\<forall>M K d. (M, K, d) \<in> set L \<longrightarrow> (\<exists>orig. desired_for sha rs orig d
          \<and> (\<forall>i \<in> M. i < length cs \<and> ap_original (cs ! i) = orig) \<and> (M = {} \<longrightarrow> orig \<in> cached)))"

lemma list_all2_left: "list_all2 R xs ys \<Longrightarrow> x \<in> set xs \<Longrightarrow> \<exists>y \<in> set ys. R x y"
  by (induction rule: list_all2_induct) auto

lemma list_all2_right: "list_all2 R xs ys \<Longrightarrow> y \<in> set ys \<Longrightarrow> \<exists>x \<in> set xs. R x y"
  by (induction rule: list_all2_induct) auto

lemma group_entries_left:
  assumes "group_entries sha rs gs L" and "g \<in> set gs"
  shows "\<exists>K d. (indices (members g), K, d) \<in> set L"
  using list_all2_left [OF assms(1) [unfolded group_entries_def] assms(2)] by auto

lemma group_entries_right:
  assumes "group_entries sha rs gs L" and "(M, K, d) \<in> set L"
  shows "\<exists>g \<in> set gs. M = indices (members g) \<and> desired_for sha rs (wg_original g) d"
  using list_all2_right [OF assms(1) [unfolded group_entries_def] assms(2)] by simp

lemma bare_entries_left:
  assumes "bare_entries sha rs bs L" and "b \<in> set bs"
  shows "\<exists>K d. ({ap_index b}, K, d) \<in> set L"
  using list_all2_left [OF assms(1) [unfolded bare_entries_def] assms(2)] by auto

lemma bare_entries_right:
  assumes "bare_entries sha rs bs L" and "(M, K, d) \<in> set L"
  shows "\<exists>b \<in> set bs. M = {ap_index b} \<and> desired_for sha rs (ap_raw b) d"
  using list_all2_right [OF assms(1) [unfolded bare_entries_def] assms(2)] by simp

lemma pass_entries_traced:
  assumes g: "group_wrappers cs = (gs, bs)" and ix: "map ap_index cs = [0 ..< length cs]"
    and bare: "\<forall>c \<in> set cs. \<not> ap_owned c \<longrightarrow> ap_original c = ap_raw c"
    and L: "pass_entries sha rs gs bs L"
  shows "traced sha rs cs cached L"
proof -
  obtain Lg Lb where set: "set L = set Lg \<union> set Lb" and Lg: "group_entries sha rs gs Lg"
    and Lb: "bare_entries sha rs bs Lb"
    using L by (auto simp: pass_entries_def)
  note wf = group_wrappers_wf [OF g ix]
  have idx: "ap_index (cs ! i) = i" if "i < length cs" for i
    using arg_cong [OF ix, of "\<lambda>xs. xs ! i"] that by simp
  have own: "ap_index c < length cs" "cs ! ap_index c = c" if "c \<in> set cs" for c
    using that idx by (auto simp: in_set_conv_nth)
  have cover: "\<exists>M K d. (M, K, d) \<in> set L \<and> i \<in> M" if i: "i < length cs" for i
  proof -
    from i wf(2) consider g where "g \<in> set gs" "cs ! i \<in> set (members g)" | "cs ! i \<in> set bs"
      by (auto simp: group_members_def dest: nth_mem)
    then show ?thesis
    proof cases
      case 1
      then have "i \<in> indices (members g)" using idx [OF i] by (metis imageI)
      with group_entries_left [OF Lg 1(1)] show ?thesis unfolding set by blast
    next
      case 2
      with idx [OF i] bare_entries_left [OF Lb 2] show ?thesis unfolding set by auto
    qed
  qed
  have orig: "\<exists>orig. desired_for sha rs orig d \<and> (\<forall>i \<in> M. i < length cs \<and> ap_original (cs ! i) = orig)
      \<and> (M = {} \<longrightarrow> orig \<in> cached)" if "(M, K, d) \<in> set L" for M K d
  proof -
    from that set consider "(M, K, d) \<in> set Lg" | "(M, K, d) \<in> set Lb" by auto
    then show ?thesis
    proof cases
      case 1
      then obtain g where g: "g \<in> set gs" "M = indices (members g)" "desired_for sha rs (wg_original g) d"
        using group_entries_right [OF Lg] by blast
      then have "group_wf g" "set (members g) \<subseteq> set cs" using wf(2,4) by (auto simp: group_members_def)
      with g own show ?thesis by (intro exI [of _ "wg_original g"]) (auto simp: group_wf_def)
    next
      case 2
      then obtain b where b: "b \<in> set bs" "M = {ap_index b}" "desired_for sha rs (ap_raw b) d"
        using bare_entries_right [OF Lb] by blast
      then have bc: "b \<in> set cs" "\<not> ap_owned b" using wf(2,3) by auto
      with bare have "ap_original b = ap_raw b" by blast
      with b own [OF bc(1)] show ?thesis by (intro exI [of _ "ap_raw b"]) simp
    qed
  qed
  from cover orig show ?thesis unfolding traced_def by blast
qed

lemma traced_rebuilt:
  assumes "traced sha rs cs cached L" and "rebuilt_entries sha rs ls Lr" and "cl_original ` set ls \<subseteq> cached"
  shows "traced sha rs cs cached (rev Lr @ L)"
proof -
  have new: "M = {} \<and> (\<exists>orig \<in> cached. desired_for sha rs orig d)" if "(M, K, d) \<in> set Lr" for M K d
    using list_all2_right [OF assms(2) [unfolded rebuilt_entries_def] that] assms(3) by auto
  with assms(1) show ?thesis
    unfolding traced_def set_append set_rev Un_iff by blast
qed

text \<open>The originals of the lineages that an interrupted rebuild has yet to attach.\<close>

definition cached_originals :: "cache_entry \<Rightarrow> bytes set" where
  "cached_originals e = (if rebuilding e then cl_original ` set (lineages e) else {})"

lemma plan_pass_planned:
  assumes run: "plan_pass sha rand entry cs rs d0 = (Inr p, d1)"
    and ix: "map ap_index cs = [0 ..< length cs]"
    and bare: "\<forall>c \<in> set cs. \<not> ap_owned c \<longrightarrow> ap_original c = ap_raw c"
  shows "\<exists>L. all_planned (\<lambda>i. ap_raw (cs ! i)) (Old ` {..< length cs}) p L
    \<and> traced sha rs cs (cached_originals entry) L"
proof -
  let ?raws = "\<lambda>i. ap_raw (cs ! i)" and ?A = "Old ` {..< length cs}"
  obtain gs bs where g: "group_wrappers cs = (gs, bs)" by (metis surj_pair)
  note wf = group_wrappers_wf(1) [OF g ix]
  obtain p1 d2 where p1: "(if rs = [] then retS (plan_restore gs bs) else plan_grant sha rand gs bs rs) d0 = (Inr p1, d2)"
    and p: "(if rebuilding entry
        then add_rebuild sha rand rs (missing_lineages (lineages entry) gs bs) p1 else retS p1) d2 = (Inr p, d1)"
    using run by (auto simp: plan_pass_def g result_simps)
  obtain L where L: "all_planned ?raws ?A p1 L" "pass_entries sha rs gs bs L"
  proof (cases "rs = []")
    case True
    then show ?thesis using p1 plan_restore_planned [OF wf, of sha] that by (auto simp: retS_def)
  next
    case False
    then have "plan_grant sha rand gs bs rs d0 = (Inr p1, d2)" using p1 by simp
    from plan_grant_planned [OF this False wf] that show ?thesis by blast
  qed
  have tr: "traced sha rs cs (cached_originals entry) L"
    by (rule pass_entries_traced [OF g ix bare L(2)])
  show ?thesis
  proof (cases "rebuilding entry")
    case False
    then show ?thesis using p L(1) tr by (auto simp: retS_def)
  next
    case True
    with p have "add_rebuild sha rand rs (missing_lineages (lineages entry) gs bs) p1 d2 = (Inr p, d1)" by simp
    from add_rebuild_planned [OF this L(1)]
    obtain Lr where Lr: "all_planned ?raws ?A p (rev Lr @ L)"
      "rebuilt_entries sha rs (missing_lineages (lineages entry) gs bs) Lr" by blast
    have "cl_original ` set (missing_lineages (lineages entry) gs bs) \<subseteq> cached_originals entry"
      using missing_loop_subset True unfolding missing_lineages_def cached_originals_def
      by (simp add: image_mono)
    from traced_rebuilt [OF tr Lr(2) this] Lr(1) show ?thesis by blast
  qed
qed

end
