(* ===== verification/V2_Correct.thy ===== *)
theory V2_Correct
  imports V2_Settled
begin

text \<open>
  What a pass of the cgroup v2 controller, \<open>src/src/cgroup/v2.rs\<close>, leaves attached, on every
  kernel that keeps the contract \<open>v2_kernel\<close>: a filter stays attached whatever fails, a pass
  that succeeds leaves the programs the rules make of the originals, and a request is allowed
  only where the programs before or the desired ones allow it.
\<close>

section \<open>Programs as bytes\<close>

definition runs_as :: "instruction list \<Rightarrow> bytes \<Rightarrow> bool" where
  "runs_as is raw \<longleftrightarrow> (\<forall>q. run_insns is q = run_device_filter raw q)"

text \<open>The original of an attached program: itself, unless it is a wrapper.\<close>

definition original_of :: "(bytes \<Rightarrow> bytes) \<Rightarrow> instruction list \<Rightarrow> bytes" where
  "original_of sha is =
     (case canonical_bytes is of
        Inl e \<Rightarrow> []
      | Inr raw \<Rightarrow> (case parse_owned_innermost sha raw of Inr (Some owned) \<Rightarrow> original owned | _ \<Rightarrow> raw))"

lemma run_canon: "run_loop n (map canon is) ctx rs pc = run_loop n is ctx rs pc"
proof (induction n arbitrary: rs pc)
  case (Suc n)
  then show ?case
    by (cases "fetch is pc") (auto simp: run_loop.simps fetch_map exec_canon cong: outcome.case_cong)
qed (simp add: run_loop.simps)

lemma runs_as_canonical:
  assumes "decode raw0 = Inr is" and "canonical_bytes is = Inr raw"
  shows "runs_as is raw"
proof -
  obtain bss where "traverse encode is = Inr bss" "raw = concat bss"
    using assms(2) by (auto simp: canonical_bytes_def encode_all_concat)
  with decode_encode_decode [OF assms(1)] have "decode raw = Inr (map canon is)" by simp
  then show ?thesis by (simp add: runs_as_def run_device_filter_def run_insns_def run_canon)
qed

lemma runs_as_loaded: "decode raw = Inr is \<Longrightarrow> runs_as is raw"
  by (simp add: runs_as_def run_device_filter_def)

section \<open>Where a planned pass stops\<close>

definition slot_bytes :: "(nat \<Rightarrow> bytes) \<Rightarrow> bytes list \<Rightarrow> slot \<Rightarrow> bytes" where
  "slot_bytes raws ls s = (case s of Old i \<Rightarrow> raws i | New j \<Rightarrow> ls ! j)"

lemma planned_stop:
  assumes "all_planned raws A p L" and "stops (steps p) A B" and "(M, K, d) \<in> set L"
  shows "Old ` M \<subseteq> B \<or> (\<exists>s \<in> B. slot_bytes raws (loads p) s = d)"
proof -
  have "settled raws A p M K d" using assms(1,3) by (auto simp: all_planned_def)
  then show ?thesis
    using assms(2) unfolding settled_def guarded_def by (fastforce simp: slot_bytes_def)
qed

lemma planned_done:
  assumes "all_planned raws (Old ` {..< length cs}) p L" and "traced sha rs cs cached L"
    and B: "B = steps_done (steps p) (Old ` {..< length cs})"
  shows "s \<in> B \<Longrightarrow> \<exists>M K. (M, K, slot_bytes raws (loads p) s) \<in> set L"
    and "(M, K, d) \<in> set L \<Longrightarrow> \<exists>s \<in> B. slot_bytes raws (loads p) s = d"
proof -
  have wf: "plan_wf p" and ls: "set (loads p) \<subseteq> (\<lambda>(M, K, d). d) ` set L"
    using assms(1) by (auto simp: all_planned_def)
  show "\<exists>M K. (M, K, slot_bytes raws (loads p) s) \<in> set L" if s: "s \<in> B"
  proof (cases s)
    case (Old i)
    with s B have i: "i < length cs" "i \<notin> set (olds (steps p))" by (auto simp: steps_done_eq)
    then obtain M K d where L: "(M, K, d) \<in> set L" "i \<in> M" using assms(2) unfolding traced_def by blast
    then have "raws i = d" using assms(1) i(2) by (auto simp: all_planned_def)
    with L Old show ?thesis by (auto simp: slot_bytes_def)
  next
    case (New j)
    with s B wf have "j < length (loads p)" by (auto simp: steps_done_eq plan_wf_def)
    then have "loads p ! j \<in> (\<lambda>(M, K, d). d) ` set L" using ls by auto
    with New show ?thesis by (auto simp: slot_bytes_def)
  qed
  show "\<exists>s \<in> B. slot_bytes raws (loads p) s = d" if "(M, K, d) \<in> set L"
  proof -
    have "settled raws (Old ` {..< length cs}) p M K d" using assms(1) that by (auto simp: all_planned_def)
    then obtain s where "s \<in> B" "slot_bytes raws (loads p) s = d"
      by (auto simp: settled_def slot_bytes_def B)
    then show ?thesis by blast
  qed
qed

section \<open>Classification\<close>

context v2_kernel
begin

definition same_kernel :: "'k \<Rightarrow> 'k \<Rightarrow> bool" where
  "same_kernel k k' \<longleftrightarrow> invar k' \<and> att k' = att k \<and> used k' = used k \<and> code k' = code k"

definition classified :: "(bytes \<Rightarrow> bytes) \<Rightarrow> 'k \<Rightarrow> nat \<Rightarrow> 'p \<Rightarrow> attached_prog \<Rightarrow> bool" where
  "classified sha k index p c \<longleftrightarrow>
     ap_index c = index \<and> canonical_bytes (code k p) = Inr (ap_raw c)
     \<and> ap_original c = original_of sha (code k p) \<and> (\<not> ap_owned c \<longrightarrow> ap_original c = ap_raw c)"

lemma classify_rel:
  assumes inv: "invar (kern w)" and p: "p \<in> used (kern w)" and run: "classify sha ops index p w = (r, w')"
  shows "same_kernel (kern w) (kern w') \<and> cache w' = cache w \<and> draws w' = draws w
    \<and> (\<forall>c. r = Inr c \<longrightarrow> classified sha (kern w) index p c)"
proof -
  obtain r1 k1 where 1: "op_instructions ops p (kern w) = (r1, k1)" by (metis surj_pair)
  have w': "w' = w\<lparr>kern := k1\<rparr>"
    using run 1
    by (auto simp: classify_def bindS_def map_errS_def on_kern_def split: sum.splits option.splits prod.splits)
  have "classified sha (kern w) index p c" if c: "r = Inr c" for c
  proof -
    from run [unfolded c] obtain "is" meta raw parsed where ri: "r1 = Inr (is, meta)"
      and raw: "canonical_bytes is = Inr raw" and parsed: "parse_owned_innermost sha raw = Inr parsed"
      and rest: "(case parsed of
         None \<Rightarrow> retS \<lparr>ap_index = index, ap_raw = raw, ap_meta = meta, ap_owned = False, ap_nonce = 0,
                 ap_original = raw\<rparr>
       | Some owned \<Rightarrow> bindS (liftS (gate (original owned) meta)) (\<lambda>_.
             retS \<lparr>ap_index = index, ap_raw = raw, ap_meta = meta, ap_owned = True,
                   ap_nonce = nonce owned, ap_original = original owned\<rparr>)) (w\<lparr>kern := k1\<rparr>) = (Inr c, w')"
      using 1 by (auto simp: classify_def result_simps on_kern_def)
    have "is = code (kern w) p" using insns_code [OF inv p] 1 ri by simp
    with raw parsed rest show ?thesis
      by (cases parsed) (auto simp: classified_def original_of_def result_simps)
  qed
  with insns_state [OF inv 1] show ?thesis by (simp add: w' same_kernel_def)
qed

lemma classified_same: "same_kernel k k' \<Longrightarrow> classified sha k' = classified sha k"
  by (simp add: classified_def same_kernel_def fun_eq_iff)

lemma classify_all_rel:
  assumes "invar (kern w)" and "set ps \<subseteq> used (kern w)" and "classify_all sha ops index ps w = (r, w')"
  shows "same_kernel (kern w) (kern w') \<and> cache w' = cache w \<and> draws w' = draws w
    \<and> (\<forall>cs. r = Inr cs \<longrightarrow> length cs = length ps
         \<and> (\<forall>i < length ps. classified sha (kern w) (index + i) (ps ! i) (cs ! i)))"
  using assms
proof (induction ps arbitrary: index w r)
  case Nil
  then show ?case by (auto simp: same_kernel_def)
next
  case (Cons p ps)
  obtain r1 w1 where 1: "classify sha ops index p w = (r1, w1)" by (metis surj_pair)
  have p: "p \<in> used (kern w)" using Cons.prems(2) by simp
  note c1 = classify_rel [OF Cons.prems(1) p 1]
  show ?case
  proof (cases r1)
    case (Inl e)
    with 1 Cons.prems(3) have "r = Inl e" "w' = w1" by (auto simp: bindS_def)
    with c1 show ?thesis by simp
  next
    case (Inr c)
    obtain r2 w2 where 2: "classify_all sha ops (Suc index) ps w1 = (r2, w2)" by (metis surj_pair)
    have w1: "invar (kern w1)" "set ps \<subseteq> used (kern w1)" using c1 Cons.prems(2) by (auto simp: same_kernel_def)
    from 1 2 Inr Cons.prems(3) have w': "w' = w2" and r: "r = map_ok ((#) c) r2"
      by (cases r2; auto simp: bindS_def)+
    note IH = Cons.IH [OF w1 2 [folded w']]
    have same: "same_kernel (kern w) (kern w1)" using c1 by blast
    then have "same_kernel (kern w) (kern w')" using IH by (simp add: same_kernel_def)
    moreover have "length cs = length (p # ps)
        \<and> (\<forall>i < length (p # ps). classified sha (kern w) (index + i) ((p # ps) ! i) (cs ! i))" if "r = Inr cs" for cs
    proof -
      from that r obtain cs' where cs': "r2 = Inr cs'" "cs = c # cs'" by (cases r2) auto
      with IH have "length cs' = length ps"
        "\<forall>i < length ps. classified sha (kern w) (Suc index + i) (ps ! i) (cs' ! i)"
        by (simp_all add: classified_same [OF same])
      with c1 Inr show ?thesis by (auto simp: cs'(2) less_Suc_eq_0_disj)
    qed
    ultimately show ?thesis using c1 IH by simp
  qed
qed

end

section \<open>A pass\<close>

text \<open>The errors of the execution: a load or a change of the attachments failed.\<close>

fun late_error :: "cgroup_error \<Rightarrow> bool" where
  "late_error (Change n m e) = True"
| "late_error (Ops e) = True"
| "late_error (DecodeErr e) = True"
| "late_error e = False"

lemma run_steps_late: "run_steps ops P N n m ss w = (Inl e, w') \<Longrightarrow> late_error e"
  by (induction ss arbitrary: n w) (auto simp: result_simps)

lemma load_all_late: "load_all ops rns w = (Inl e, w') \<Longrightarrow> late_error e"
  by (induction rns arbitrary: w) (auto simp: result_simps load_canonical_def)

lemma commit_late: "commit ops i ps p rebuild w = (Inl e, w') \<Longrightarrow> late_error e"
  by (auto simp: commit_def execute_def result_simps set_cache_def split: if_splits
      dest: run_steps_late load_all_late)

context v2_kernel
begin

lemma commit_rel:
  assumes inv: "invar (kern w)" and wf: "plan_wf p"
    and olds: "set (olds (steps p)) \<subseteq> {..< length (att (kern w))}"
    and run: "commit ops i (att (kern w)) p rebuild w = (r, w')"
  shows "invar (kern w')
    \<and> cache w' = cache_set i \<lparr>lineages = plan_lineages p, rebuilding = rebuild \<and> r \<noteq> Inr ()\<rparr> (cache w)
    \<and> (\<exists>B. stops (steps p) (Old ` {..< length (att (kern w))}) B
       \<and> code (kern w') ` set (att (kern w')) =
           slot_code (map (code (kern w)) (att (kern w))) (loads p) ` B
       \<and> (r = Inr () \<longrightarrow> B = steps_done (steps p) (Old ` {..< length (att (kern w))})))"
proof -
  define w1 where "w1 = w\<lparr>cache := cache_set i \<lparr>lineages = plan_lineages p, rebuilding = rebuild\<rparr> (cache w)\<rparr>"
  have w1: "kern w1 = kern w" "cache w1 = cache_set i \<lparr>lineages = plan_lineages p, rebuilding = rebuild\<rparr> (cache w)"
    by (simp_all add: w1_def)
  obtain r2 w2 where 2: "execute ops (att (kern w)) p w1 = (r2, w2)" by (metis surj_pair)
  have news: "set (news (steps p)) \<subseteq> {..< length (loads p)}" "distinct (news (steps p))"
    "length (names p) = length (loads p)"
    using wf by (auto simp: plan_wf_def)
  note ex = execute_rel [of w1, unfolded w1, OF inv refl olds news 2]
  have end_state: "r = r2 \<and> kern w' = kern w2
      \<and> cache w' = cache_set i \<lparr>lineages = plan_lineages p, rebuilding = rebuild \<and> r \<noteq> Inr ()\<rparr> (cache w)"
    using run 2 ex w1(2)
    by (cases r2; cases rebuild) (auto simp: commit_def set_cache_def bindS_def retS_def w1_def cache_set_def)
  then have e: "r = r2" "kern w' = kern w2" by auto
  show ?thesis unfolding e(2) using ex end_state unfolding e(1) by blast
qed

definition pass_ran ::
  "(bytes \<Rightarrow> bytes) \<Rightarrow> device_rule list \<Rightarrow> bytes set \<Rightarrow> 'k \<Rightarrow> 'k \<Rightarrow> (unit, cgroup_error) result \<Rightarrow> bool" where
  "pass_ran sha rs cached k k' r \<longleftrightarrow>
     (\<exists>cs p L B. length cs = length (att k) \<and> (\<forall>i < length cs. classified sha k i (att k ! i) (cs ! i))
        \<and> all_planned (\<lambda>i. ap_raw (cs ! i)) (Old ` {..< length cs}) p L \<and> traced sha rs cs cached L
        \<and> stops (steps p) (Old ` {..< length cs}) B
        \<and> code k' ` set (att k') = slot_code (map (code k) (att k)) (loads p) ` B
        \<and> (r = Inr () \<longrightarrow> B = steps_done (steps p) (Old ` {..< length cs})))"

lemma planned_pass_ran:
  assumes inv: "invar (kern w)" and len: "length cs = length (att (kern w))"
    and cs: "\<forall>i < length cs. classified sha (kern w) i (att (kern w) ! i) (cs ! i)"
    and plan: "plan_pass sha rand entry cs rs d0 = (Inr p, d1)"
    and run: "commit ops i (att (kern w)) p rebuild w = (r, w')"
  shows "invar (kern w') \<and> pass_ran sha rs (cached_originals entry) (kern w) (kern w') r
    \<and> cache w' = cache_set i \<lparr>lineages = plan_lineages p, rebuilding = rebuild \<and> r \<noteq> Inr ()\<rparr> (cache w)"
proof -
  have ix: "map ap_index cs = [0 ..< length cs]"
    using cs by (intro nth_equalityI) (auto simp: classified_def)
  have bare: "\<forall>c \<in> set cs. \<not> ap_owned c \<longrightarrow> ap_original c = ap_raw c"
    using cs by (auto simp: classified_def in_set_conv_nth)
  obtain L where L: "all_planned (\<lambda>i. ap_raw (cs ! i)) (Old ` {..< length cs}) p L"
    "traced sha rs cs (cached_originals entry) L"
    using plan_pass_planned [OF plan ix bare] by blast
  have wf: "plan_wf p" "set (olds (steps p)) \<subseteq> {..< length (att (kern w))}"
  proof -
    show "plan_wf p" using L(1) by (simp add: all_planned_def)
    have "i < length cs" if "(M, K, d) \<in> set L" "i \<in> M" for M K d i
      using L(2) that unfolding traced_def by blast
    then have "(\<Union>(M, K, d) \<in> set L. M) \<subseteq> {..< length cs}" by auto
    moreover have "set (olds (steps p)) \<subseteq> (\<Union>(M, K, d) \<in> set L. M)"
      using L(1) by (simp add: all_planned_def)
    ultimately show "set (olds (steps p)) \<subseteq> {..< length (att (kern w))}"
      unfolding len [symmetric] by (rule order_trans [rotated])
  qed
  note cm = commit_rel [OF inv wf run, folded len]
  then obtain B where "stops (steps p) (Old ` {..< length cs}) B"
    "code (kern w') ` set (att (kern w')) = slot_code (map (code (kern w)) (att (kern w))) (loads p) ` B"
    "r = Inr () \<longrightarrow> B = steps_done (steps p) (Old ` {..< length cs})" by blast
  with len cs L have "pass_ran sha rs (cached_originals entry) (kern w) (kern w') r"
    unfolding pass_ran_def by blast
  with cm show ?thesis by simp
qed

text \<open>A pass on a cgroup with filters: it fails and changes no attachment, or it runs a plan.\<close>

definition outcome_of ::
  "(bytes \<Rightarrow> bytes) \<Rightarrow> device_rule list \<Rightarrow> identity \<Rightarrow> 'k world \<Rightarrow> (unit, cgroup_error) result \<Rightarrow> 'k world \<Rightarrow> bool" where
  "outcome_of sha rs i w r w' \<longleftrightarrow> invar (kern w')
     \<and> ((r \<noteq> Inr () \<and> att (kern w') = att (kern w) \<and> code (kern w') = code (kern w) \<and> cache w' = cache w)
        \<or> pass_ran sha rs (cached_originals (cache_get i (cache w))) (kern w) (kern w') r
          \<and> (\<forall>e. r = Inl e \<longrightarrow> late_error e)
          \<and> (\<exists>ls. cache w' = cache_set i \<lparr>lineages = ls,
               rebuilding = rebuilding (cache_get i (cache w)) \<and> r \<noteq> Inr ()\<rparr> (cache w)))"

lemma outcome_unchanged:
  "same_kernel (kern w) (kern v) \<Longrightarrow> cache v = cache w \<Longrightarrow> outcome_of sha rs i w (Inl e) v"
  by (simp add: outcome_of_def same_kernel_def)

lemma outcome_same:
  assumes "same_kernel (kern w) (kern v)" and "cache v = cache w" and "outcome_of sha rs i v r w'"
  shows "outcome_of sha rs i w r w'"
  using assms by (simp add: outcome_of_def same_kernel_def pass_ran_def classified_def)

lemma classified_outcome:
  assumes inv: "invar (kern w)"
    and run: "bindS (classify_all sha ops 0 (att (kern w))) (\<lambda>classified. \<lambda>w.
       let entry = cache_get i (cache w) in
       bindS (on_draws (plan_pass sha rand entry classified rs)) (\<lambda>plan.
         commit ops i ps plan (rebuilding entry)) w) w = (r, w')"
    and ps: "ps = att (kern w)"
  shows "outcome_of sha rs i w r w'"
proof -
  obtain r1 w1 where 1: "classify_all sha ops 0 (att (kern w)) w = (r1, w1)" by (metis surj_pair)
  note c = classify_all_rel [OF inv att_used [OF inv] 1]
  show ?thesis
  proof (cases r1)
    case (Inl e)
    with run 1 have "r = Inl e" "w' = w1" by (simp_all add: bindS_def)
    with c show ?thesis by (simp add: outcome_unchanged)
  next
    case (Inr cs)
    let ?e = "cache_get i (cache w1)"
    obtain r2 d2 where 2: "plan_pass sha rand ?e cs rs (draws w1) = (r2, d2)" by (metis surj_pair)
    define w2 where "w2 = w1\<lparr>draws := d2\<rparr>"
    have w2: "kern w2 = kern w1" "cache w2 = cache w" using c by (simp_all add: w2_def)
    have same: "same_kernel (kern w) (kern w2)" using c w2 by simp
    show ?thesis
    proof (cases r2)
      case r2: (Inl e)
      with run 1 2 Inr have "r = Inl e" "w' = w2" by (simp_all add: bindS_def on_draws_def w2_def Let_def)
      with same w2 show ?thesis by (simp add: outcome_unchanged)
    next
      case r2: (Inr p)
      with run 1 2 Inr have cm: "commit ops i ps p (rebuilding ?e) w2 = (r, w')"
        by (simp add: bindS_def on_draws_def w2_def Let_def)
      have k2: "invar (kern w2)" "att (kern w2) = att (kern w)" using same by (simp_all add: same_kernel_def)
      have cs: "length cs = length (att (kern w2))"
        "\<forall>i < length cs. classified sha (kern w2) i (att (kern w2) ! i) (cs ! i)"
        using c Inr k2(2) by (auto simp: classified_same [OF same])
      have "cache w1 = cache w2" using c w2 by simp
      with planned_pass_ran [OF k2(1) cs 2 [unfolded r2] cm [unfolded ps, folded k2(2)]]
      have "outcome_of sha rs i w2 r w'" using cm by (auto simp: outcome_of_def dest: commit_late)
      with same w2(2) show ?thesis by (rule outcome_same)
    qed
  qed
qed

lemma pass_outcome:
  assumes inv: "invar (kern w)" and ne: "att (kern w) \<noteq> []"
    and run: "set_rules sha rand ops i rs w = (r, w')"
  shows "outcome_of sha rs i w r w'"
proof -
  obtain rq k1 where q: "op_query ops (kern w) = (rq, k1)" by (metis surj_pair)
  define w1 where "w1 = w\<lparr>kern := k1\<rparr>"
  have same: "same_kernel (kern w) (kern w1)" "cache w1 = cache w"
    using query_state [OF inv q] by (simp_all add: same_kernel_def w1_def)
  show ?thesis
  proof (cases rq)
    case (Inl e)
    with run q have "r = Inl (Query e)" "w' = w1"
      by (simp_all add: set_rules_def bindS_def map_errS_def on_kern_def w1_def)
    with same show ?thesis by (simp add: outcome_unchanged)
  next
    case (Inr a)
    consider (inaccessible) "inaccessible a > 0" | (empty) "inaccessible a = 0" "total_progs a = 0"
      | (flags) "inaccessible a = 0" "total_progs a \<noteq> 0" "attach_flags a AND F_ALLOW_MULTI = 0"
      | (all) "inaccessible a = 0" "total_progs a \<noteq> 0" "attach_flags a AND F_ALLOW_MULTI \<noteq> 0" by auto
    then show ?thesis
    proof cases
      case inaccessible
      with run q Inr have "r = Inl (FiltersInaccessible (inaccessible a) (total_progs a))" "w' = w1"
        by (simp_all add: set_rules_def bindS_def map_errS_def on_kern_def w1_def)
      with same show ?thesis by (simp add: outcome_unchanged)
    next
      case empty
      with query_all [OF inv q [unfolded Inr]] ne show ?thesis by simp
    next
      case flags
      with run q Inr have "r = Inl (UnsupportedAttachMode (attach_flags a))" "w' = w1"
        by (simp_all add: set_rules_def bindS_def map_errS_def on_kern_def w1_def)
      with same show ?thesis by (simp add: outcome_unchanged)
    next
      case all
      have k1: "invar (kern w1)" "att (kern w1) = att (kern w)" "progs a = att (kern w)"
        using same query_all [OF inv q [unfolded Inr] all(1)] by (simp_all add: same_kernel_def)
      have "bindS (classify_all sha ops 0 (att (kern w1))) (\<lambda>classified. \<lambda>w.
          let entry = cache_get i (cache w) in
          bindS (on_draws (plan_pass sha rand entry classified rs)) (\<lambda>plan.
            commit ops i (progs a) plan (rebuilding entry)) w) w1 = (r, w')"
        using run q Inr all k1
        by (simp add: set_rules_def bindS_def map_errS_def on_kern_def w1_def)
      from classified_outcome [OF k1(1) this] k1 have "outcome_of sha rs i w1 r w'" by simp
      with same show ?thesis by (rule outcome_same)
    qed
  qed
qed

end

section \<open>What the attached programs allow\<close>

definition allows :: "instruction list \<Rightarrow> dev_request \<Rightarrow> bool" where
  "allows is q \<longleftrightarrow> (\<exists>v. run_insns is q = Some v \<and> v \<noteq> 0)"

definition filter_allows :: "bytes \<Rightarrow> dev_request \<Rightarrow> bool" where
  "filter_allows raw q \<longleftrightarrow> (\<exists>v. run_device_filter raw q = Some v \<and> v \<noteq> 0)"

text \<open>The kernel allows a request when every attached program does.\<close>

definition cgroup_allows :: "instruction list set \<Rightarrow> dev_request \<Rightarrow> bool" where
  "cgroup_allows C q \<longleftrightarrow> (\<forall>is \<in> C. allows is q)"

lemma runs_as_allows: "runs_as is raw \<Longrightarrow> allows is q = filter_allows raw q"
  by (simp add: runs_as_def allows_def filter_allows_def)

lemma runs_as_loaded_code: "runs_as (loaded_code raw) raw"
proof (cases "decode raw")
  case (Inl e)
  then show ?thesis
    by (simp add: runs_as_def loaded_code_def run_device_filter_def run_insns_def run_loop.simps fetch_def)
next
  case (Inr "is")
  then show ?thesis by (simp add: loaded_code_def runs_as_loaded)
qed

lemma stops_old: "stops ss A B \<Longrightarrow> Old i \<in> B \<Longrightarrow> Old i \<in> A"
proof (induction ss A B rule: stops.induct)
  case (stop_in s A B ss)
  then show ?case by (cases s) auto
next
  case (stop_later ss s A B)
  then show ?case by (cases s) auto
qed

context v2_kernel
begin

lemma pass_slots:
  assumes inv: "invar k" and ran: "pass_ran sha rs cached k k' r"
  shows "\<And>is. is \<in> code k ` set (att k) \<Longrightarrow> \<exists>d. desired_for sha rs (original_of sha is) d
       \<and> (is \<in> code k' ` set (att k') \<or> (\<exists>is' \<in> code k' ` set (att k'). runs_as is' d))
       \<and> (r = Inr () \<longrightarrow> (\<exists>is' \<in> code k' ` set (att k'). runs_as is' d))"
    and "\<And>is. r = Inr () \<Longrightarrow> is \<in> code k' ` set (att k') \<Longrightarrow>
       \<exists>orig d. desired_for sha rs orig d \<and> runs_as is d
         \<and> orig \<in> original_of sha ` code k ` set (att k) \<union> cached"
proof -
  obtain cs p L B where len: "length cs = length (att k)"
    and cs': "\<forall>i < length cs. classified sha k i (att k ! i) (cs ! i)"
    and L: "all_planned (\<lambda>i. ap_raw (cs ! i)) (Old ` {..< length cs}) p L" "traced sha rs cs cached L"
    and B: "stops (steps p) (Old ` {..< length cs}) B"
    and codes: "code k' ` set (att k') = slot_code (map (code k) (att k)) (loads p) ` B"
    and dn: "r = Inr () \<longrightarrow> B = steps_done (steps p) (Old ` {..< length cs})"
    using ran unfolding pass_ran_def by (elim exE conjE) (rule that)
  note cs = cs' [rule_format] and done' = dn [rule_format]
  let ?raws = "\<lambda>i. ap_raw (cs ! i)" and ?code = "slot_code (map (code k) (att k)) (loads p)"
  have run: "runs_as (?code s) (slot_bytes ?raws (loads p) s)" if "s \<in> B" for s
  proof (cases s)
    case (New j)
    then show ?thesis by (simp add: slot_code_def slot_bytes_def runs_as_loaded_code)
  next
    case (Old i)
    then have i: "i < length cs" using stops_old [OF B] that by auto
    then have "att k ! i \<in> used k" using att_used [OF inv] len by auto
    with code_decoded [OF inv] obtain raw where "decode raw = Inr (code k (att k ! i))" by blast
    with runs_as_canonical cs [OF i] have "runs_as (code k (att k ! i)) (?raws i)"
      by (auto simp: classified_def)
    with i len Old show ?thesis by (simp add: slot_code_def slot_bytes_def)
  qed
  have att: "\<exists>i < length cs. is = code k (att k ! i) \<and> original_of sha is = ap_original (cs ! i)"
    if "is \<in> code k ` set (att k)" for "is"
  proof -
    from that obtain i where "i < length cs" "is = code k (att k ! i)" by (auto simp: in_set_conv_nth len)
    with cs [of i] show ?thesis by (auto simp: classified_def)
  qed
  {
    fix "is"
    assume "is \<in> code k ` set (att k)"
    with att obtain i where i: "i < length cs" "is = code k (att k ! i)"
      "original_of sha is = ap_original (cs ! i)" by blast
    then obtain M K d where M: "(M, K, d) \<in> set L" "i \<in> M" using L(2) unfolding traced_def by blast
    from L(2) M(1) obtain orig where "desired_for sha rs orig d" "\<forall>i \<in> M. ap_original (cs ! i) = orig"
      unfolding traced_def by blast
    with i(3) M(2) have d: "desired_for sha rs (original_of sha is) d" by simp
    have "is \<in> ?code ` B \<or> (\<exists>is' \<in> ?code ` B. runs_as is' d)"
    proof (cases "Old i \<in> B")
      case True
      moreover have "?code (Old i) = is" using i len by (simp add: slot_code_def)
      ultimately show ?thesis by blast
    next
      case False
      with planned_stop [OF L(1) B M(1)] M(2) obtain s where "s \<in> B" "slot_bytes ?raws (loads p) s = d"
        by blast
      with run [of s] show ?thesis by blast
    qed
    moreover have "\<exists>is' \<in> ?code ` B. runs_as is' d" if "r = Inr ()"
      using planned_done(2) [OF L done' [OF that] M(1)] run by blast
    ultimately show "\<exists>d. desired_for sha rs (original_of sha is) d
       \<and> (is \<in> code k' ` set (att k') \<or> (\<exists>is' \<in> code k' ` set (att k'). runs_as is' d))
       \<and> (r = Inr () \<longrightarrow> (\<exists>is' \<in> code k' ` set (att k'). runs_as is' d))"
      using d unfolding codes by blast
  }
  {
    fix "is"
    assume r: "r = Inr ()" and "is \<in> code k' ` set (att k')"
    then obtain s where s: "s \<in> B" "is = ?code s" unfolding codes by blast
    from planned_done(1) [OF L done' [OF r] s(1)] obtain M K where
      M: "(M, K, slot_bytes ?raws (loads p) s) \<in> set L" by blast
    with L(2) obtain orig where o: "desired_for sha rs orig (slot_bytes ?raws (loads p) s)"
      "\<forall>i \<in> M. i < length cs \<and> ap_original (cs ! i) = orig" "M = {} \<longrightarrow> orig \<in> cached"
      unfolding traced_def by blast
    have "orig \<in> original_of sha ` code k ` set (att k) \<union> cached"
    proof (cases "M = {}")
      case False
      then obtain i where "i < length cs" "ap_original (cs ! i) = orig" using o(2) by blast
      with cs [of i] len show ?thesis by (auto simp: classified_def)
    qed (use o(3) in simp)
    with o(1) run [OF s(1)] s(2) show "\<exists>orig d. desired_for sha rs orig d \<and> runs_as is d
         \<and> orig \<in> original_of sha ` code k ` set (att k) \<union> cached" by blast
  }
qed

end

context v2_kernel
begin

lemma keeps_filter:
  assumes "invar (kern w)" and "att (kern w) \<noteq> []" and "set_rules sha rand ops i rs w = (r, w')"
  shows "att (kern w') \<noteq> []"
proof -
  let ?cached = "cached_originals (cache_get i (cache w))"
  from pass_outcome [OF assms] consider "att (kern w') = att (kern w)"
    | "pass_ran sha rs ?cached (kern w) (kern w') r" by (auto simp: outcome_of_def)
  then show ?thesis
  proof cases
    case 1
    with assms(2) show ?thesis by simp
  next
    case 2
    from assms(2) have "code (kern w) (hd (att (kern w))) \<in> code (kern w) ` set (att (kern w))" by simp
    from pass_slots(1) [OF assms(1) 2 this] show ?thesis by auto
  qed
qed

lemma stays_or_settles:
  assumes "invar (kern w)" and "att (kern w) \<noteq> []" and "set_rules sha rand ops i rs w = (r, w')"
    and "is \<in> code (kern w) ` set (att (kern w))"
  shows "is \<in> code (kern w') ` set (att (kern w'))
    \<or> (\<exists>d. desired_for sha rs (original_of sha is) d \<and> (\<exists>is' \<in> code (kern w') ` set (att (kern w')). runs_as is' d))"
proof -
  let ?cached = "cached_originals (cache_get i (cache w))"
  from pass_outcome [OF assms(1-3)] consider "att (kern w') = att (kern w)" "code (kern w') = code (kern w)"
    | "pass_ran sha rs ?cached (kern w) (kern w') r" by (auto simp: outcome_of_def)
  then show ?thesis
  proof cases
    case 1
    with assms(4) show ?thesis by simp
  next
    case 2
    from pass_slots(1) [OF assms(1) 2 assms(4)] show ?thesis by blast
  qed
qed

lemma success_programs:
  assumes "invar (kern w)" and "att (kern w) \<noteq> []" and "set_rules sha rand ops i rs w = (Inr (), w')"
  shows "is \<in> code (kern w) ` set (att (kern w)) \<Longrightarrow> \<exists>d. desired_for sha rs (original_of sha is) d
      \<and> (\<exists>is' \<in> code (kern w') ` set (att (kern w')). runs_as is' d)"
    and "is' \<in> code (kern w') ` set (att (kern w')) \<Longrightarrow> \<exists>orig d. desired_for sha rs orig d \<and> runs_as is' d
      \<and> orig \<in> original_of sha ` code (kern w) ` set (att (kern w)) \<union> cached_originals (cache_get i (cache w))"
proof -
  have ran: "pass_ran sha rs (cached_originals (cache_get i (cache w))) (kern w) (kern w') (Inr ())"
    using pass_outcome [OF assms] by (simp add: outcome_of_def)
  from pass_slots [OF assms(1) ran]
  show "is \<in> code (kern w) ` set (att (kern w)) \<Longrightarrow> \<exists>d. desired_for sha rs (original_of sha is) d
      \<and> (\<exists>is' \<in> code (kern w') ` set (att (kern w')). runs_as is' d)"
    and "is' \<in> code (kern w') ` set (att (kern w')) \<Longrightarrow> \<exists>orig d. desired_for sha rs orig d \<and> runs_as is' d
      \<and> orig \<in> original_of sha ` code (kern w) ` set (att (kern w)) \<union> cached_originals (cache_get i (cache w))"
    by blast+
qed

end

text \<open>What the program that the rules make of an original answers.\<close>

lemma desired_verdict:
  assumes "desired_for sha rs orig d" and "valid_request q" and "run_tracked orig q = Some v"
  shows "filter_allows d q \<longleftrightarrow> (case rules_verdict rs q of Some b \<Rightarrow> b | None \<Rightarrow> filter_allows orig q)"
proof (cases "rs = []")
  case True
  with assms(1) show ?thesis by (simp add: desired_for_def rules_verdict_def)
next
  case False
  with assms(1) obtain n where "emit_owned sha rs n orig = Inr d" by (auto simp: desired_for_def)
  from wrapper_verdict [OF this assms(2,3)] run_tracked_run [OF assms(3)] show ?thesis
    by (auto simp: filter_allows_def verdict_def split: option.splits)
qed

context v2_kernel
begin

lemma success_verdict:
  assumes "invar (kern w)" and "att (kern w) \<noteq> []"
    and "\<not> rebuilding (cache_get i (cache w))"
    and "set_rules sha rand ops i rs w = (Inr (), w')" and "valid_request q"
    and "\<forall>is \<in> code (kern w) ` set (att (kern w)). run_tracked (original_of sha is) q \<noteq> None"
  shows "cgroup_allows (code (kern w') ` set (att (kern w'))) q \<longleftrightarrow>
    (case rules_verdict rs q of
       Some b \<Rightarrow> b
     | None \<Rightarrow> \<forall>is \<in> code (kern w) ` set (att (kern w)). filter_allows (original_of sha is) q)"
proof -
  let ?C = "code (kern w) ` set (att (kern w))" and ?C' = "code (kern w') ` set (att (kern w'))"
  let ?v = "\<lambda>orig. case rules_verdict rs q of Some b \<Rightarrow> b | None \<Rightarrow> filter_allows orig q"
  note succ = success_programs [OF assms(1,2,4)]
  have des: "filter_allows d q = ?v (original_of sha is)"
    if "is \<in> ?C" "desired_for sha rs (original_of sha is) d" for "is" d
    using assms(6) that desired_verdict [OF that(2) assms(5)] by auto
  have "cgroup_allows ?C' q \<longleftrightarrow> (\<forall>is \<in> ?C. ?v (original_of sha is))"
  proof
    assume all: "cgroup_allows ?C' q"
    show "\<forall>is \<in> ?C. ?v (original_of sha is)"
    proof
      fix "is"
      assume c: "is \<in> ?C"
      from succ(1) [OF c] obtain d is' where d: "desired_for sha rs (original_of sha is) d"
        "is' \<in> ?C'" "runs_as is' d" by blast
      then have "filter_allows d q" using all runs_as_allows by (auto simp: cgroup_allows_def)
      with des [OF c d(1)] show "?v (original_of sha is)" by simp
    qed
  next
    assume all: "\<forall>is \<in> ?C. ?v (original_of sha is)"
    have "allows is' q" if is': "is' \<in> ?C'" for is'
    proof -
      from succ(2) [OF is'] assms(3) obtain orig d where d: "desired_for sha rs orig d" "runs_as is' d"
        "orig \<in> original_of sha ` ?C" by (auto simp: cached_originals_def)
      then obtain "is" where c: "is \<in> ?C" "orig = original_of sha is" by blast
      with des [OF c(1)] d all have "filter_allows d q" by simp
      with runs_as_allows [OF d(2)] show ?thesis by simp
    qed
    then show "cgroup_allows ?C' q" by (simp add: cgroup_allows_def)
  qed
  also have "\<dots> \<longleftrightarrow> (case rules_verdict rs q of Some b \<Rightarrow> b
     | None \<Rightarrow> \<forall>is \<in> ?C. filter_allows (original_of sha is) q)"
    using assms(2) by (cases "rules_verdict rs q") auto
  finally show ?thesis .
qed

end

section \<open>The properties of a pass\<close>

text \<open>
  C8. A cgroup with a device filter is never left without one: whatever a pass does, and
  whichever kernel operation fails in the middle of it, some filter is attached after it.
\<close>

theorem pass_keeps_filter:
  assumes "v2_kernel ops att used code invar" and "invar (kern w)" and "att (kern w) \<noteq> []"
    and "set_rules sha rand ops i rs w = (r, w')"
  shows "att (kern w') \<noteq> []"
  by (rule v2_kernel.keeps_filter [OF assms])

text \<open>
  C1. After a pass that succeeds the cgroup allows a request exactly when the last rule that
  matches it allows it, or no rule matches it and every original filter allows it. With no rules
  the originals alone decide.
\<close>

theorem pass_verdict:
  assumes "v2_kernel ops att used code invar" and "invar (kern w)" and "att (kern w) \<noteq> []"
    and "\<not> rebuilding (cache_get i (cache w))"
    and "set_rules sha rand ops i rs w = (Inr (), w')" and "valid_request q"
    and "\<forall>is \<in> code (kern w) ` set (att (kern w)). run_tracked (original_of sha is) q \<noteq> None"
  shows "cgroup_allows (code (kern w') ` set (att (kern w'))) q \<longleftrightarrow>
    (case rules_verdict rs q of
       Some b \<Rightarrow> b
     | None \<Rightarrow> \<forall>is \<in> code (kern w) ` set (att (kern w)). filter_allows (original_of sha is) q)"
  by (rule v2_kernel.success_verdict [OF assms])

text \<open>
  C5. Whatever fails in a pass, what the cgroup allows after it every program attached before
  allowed, or the rules allow over that program's original: no intermediate state is wider than
  the two states it lies between.
\<close>

theorem pass_never_wider:
  assumes "v2_kernel ops att used code invar" and "invar (kern w)" and "att (kern w) \<noteq> []"
    and "set_rules sha rand ops i rs w = (r, w')" and "valid_request q"
    and "is \<in> code (kern w) ` set (att (kern w))" and "run_tracked (original_of sha is) q = Some v"
    and "cgroup_allows (code (kern w') ` set (att (kern w'))) q"
  shows "allows is q \<or>
    (case rules_verdict rs q of Some b \<Rightarrow> b | None \<Rightarrow> filter_allows (original_of sha is) q)"
proof -
  from v2_kernel.stays_or_settles [OF assms(1-4,6)] consider "is \<in> code (kern w') ` set (att (kern w'))"
    | d is' where "desired_for sha rs (original_of sha is) d" "is' \<in> code (kern w') ` set (att (kern w'))"
      "runs_as is' d" by blast
  then show ?thesis
  proof cases
    case 1
    with assms(8) show ?thesis by (auto simp: cgroup_allows_def)
  next
    case 2
    then have "filter_allows d q" using assms(8) runs_as_allows by (auto simp: cgroup_allows_def)
    with desired_verdict [OF 2(1) assms(5,7)] show ?thesis by simp
  qed
qed


section \<open>The rebuild of a cgroup with no filter\<close>

lemma rebuild_lineage_original:
  "rebuild_lineage sha rand rs l p d0 = (Inr p', d1) \<Longrightarrow>
     map cl_original (plan_lineages p') = map cl_original (plan_lineages p) @ [cl_original l]"
  by (auto simp: rebuild_lineage_def plan_lineage_def plan_attach_def plan_load_def result_simps split: if_splits)

lemma add_rebuild_originals:
  "add_rebuild sha rand rs ls p d0 = (Inr p', d1) \<Longrightarrow>
     map cl_original (plan_lineages p') = map cl_original (plan_lineages p) @ map cl_original ls"
  by (induction ls arbitrary: p d0) (auto simp: result_simps rebuild_lineage_original)

lemma cache_get_set [simp]: "cache_get i (cache_set i e c) = e"
  by (simp add: cache_get_def cache_set_def)

text \<open>What a rebuild that succeeds attaches: the programs the rules make of the cached originals.\<close>

definition rebuilt_as ::
  "(bytes \<Rightarrow> bytes) \<Rightarrow> device_rule list \<Rightarrow> cached_lineage list \<Rightarrow> instruction list set \<Rightarrow> bool" where
  "rebuilt_as sha rs ls C \<longleftrightarrow>
     (\<forall>l \<in> set ls. \<exists>d. desired_for sha rs (cl_original l) d \<and> (\<exists>is \<in> C. runs_as is d))
     \<and> (\<forall>is \<in> C. \<exists>l \<in> set ls. \<exists>d. desired_for sha rs (cl_original l) d \<and> runs_as is d)"

context v2_kernel
begin

lemma rebuild_commit:
  assumes inv: "invar (kern w)" and none: "att (kern w) = []"
    and plan: "add_rebuild sha rand rs ls empty_plan d0 = (Inr p, d1)"
    and run: "commit ops i [] p True w = (r, w')"
  shows "r = Inr () \<Longrightarrow> rebuilt_as sha rs ls (code (kern w') ` set (att (kern w')))"
    and "cache w' = cache_set i \<lparr>lineages = plan_lineages p, rebuilding = r \<noteq> Inr ()\<rparr> (cache w)"
proof -
  obtain L where L: "all_planned (\<lambda>i. []) {} p (rev L)" "rebuilt_entries sha rs ls L"
    using add_rebuild_planned [OF plan all_planned_empty] by auto
  have M: "M = {} \<and> (\<exists>l \<in> set ls. desired_for sha rs (cl_original l) d)" if "(M, K, d) \<in> set L" for M K d
    using list_all2_right [OF L(2) [unfolded rebuilt_entries_def] that] by auto
  have wf: "plan_wf p" and "set (olds (steps p)) \<subseteq> (\<Union>(M, K, d) \<in> set L. M)"
    using L(1) by (simp_all add: all_planned_def)
  moreover have "(\<Union>(M, K, d) \<in> set L. M) = {}" using M by auto
  ultimately have olds: "set (olds (steps p)) \<subseteq> {}" by simp
  note cm = commit_rel [OF inv wf, unfolded none, simplified, OF _ run]
  show "cache w' = cache_set i \<lparr>lineages = plan_lineages p, rebuilding = r \<noteq> Inr ()\<rparr> (cache w)"
    using cm olds by simp
  assume r: "r = Inr ()"
  from cm olds r have codes: "code (kern w') ` set (att (kern w')) = slot_code [] (loads p) ` steps_done (steps p) {}"
    by auto
  have run_slot: "runs_as (slot_code [] (loads p) s) (slot_bytes (\<lambda>i. []) (loads p) s)"
    if "s \<in> steps_done (steps p) {}" for s
    using that by (auto simp: steps_done_eq slot_code_def slot_bytes_def runs_as_loaded_code)
  have tr: "traced sha rs [] (cl_original ` set ls) (rev L)"
    using M unfolding traced_def by fastforce
  note pd = planned_done [of "\<lambda>i. []" "[]", simplified, OF L(1) tr refl, simplified]
  show "rebuilt_as sha rs ls (code (kern w') ` set (att (kern w')))"
    unfolding rebuilt_as_def codes
  proof (intro conjI ballI)
    fix l
    assume "l \<in> set ls"
    from list_all2_left [OF L(2) [unfolded rebuilt_entries_def] this]
    obtain M K d where d: "(M, K, d) \<in> set L" "desired_for sha rs (cl_original l) d" by auto
    from pd(2) [OF d(1)] run_slot d(2)
    show "\<exists>d. desired_for sha rs (cl_original l) d
      \<and> (\<exists>is \<in> slot_code [] (loads p) ` steps_done (steps p) {}. runs_as is d)" by blast
  next
    fix "is"
    assume "is \<in> slot_code [] (loads p) ` steps_done (steps p) {}"
    then obtain s where s: "s \<in> steps_done (steps p) {}" "is = slot_code [] (loads p) s" by blast
    from pd(1) [OF s(1)] M run_slot [OF s(1)] s(2)
    show "\<exists>l \<in> set ls. \<exists>d. desired_for sha rs (cl_original l) d \<and> runs_as is d" by blast
  qed
qed

lemma rebuild_outcome:
  assumes inv: "invar (kern w)" and none: "att (kern w) = []"
    and run: "set_rules sha rand ops i rs w = (r, w')"
  shows "r \<noteq> Inr () \<and> cache w' = cache w \<or>
    (map cl_original (lineages (cache_get i (cache w'))) = map cl_original (lineages (cache_get i (cache w)))
     \<and> (rebuilding (cache_get i (cache w')) \<longleftrightarrow> r \<noteq> Inr ())
     \<and> (r = Inr () \<longrightarrow> rebuilt_as sha rs (lineages (cache_get i (cache w))) (code (kern w') ` set (att (kern w')))))"
proof -
  let ?ls = "lineages (cache_get i (cache w))"
  obtain rq k1 where q: "op_query ops (kern w) = (rq, k1)" by (metis surj_pair)
  define w1 where "w1 = w\<lparr>kern := k1\<rparr>"
  have w1: "invar (kern w1)" "att (kern w1) = []" "cache w1 = cache w"
    using query_state [OF inv q] none by (simp_all add: w1_def)
  consider e where "r = Inl e" "w' = w1"
    | "?ls \<noteq> []" "bindS (on_draws (add_rebuild sha rand rs ?ls empty_plan)) (\<lambda>plan. commit ops i [] plan True) w1 = (r, w')"
  proof (cases rq)
    case (Inl e)
    with run q that(1) show thesis
      by (auto simp: set_rules_def bindS_def map_errS_def on_kern_def w1_def)
  next
    case (Inr a)
    with query_all [OF inv] q none have t: "inaccessible a = 0 \<Longrightarrow> total_progs a = 0" by auto
    show thesis
    proof (cases "inaccessible a > 0 \<or> ?ls = []")
      case True
      with run q Inr t that(1) show thesis
        by (auto simp: set_rules_def bindS_def map_errS_def on_kern_def w1_def rebuild_pass_def Let_def split: if_splits)
    next
      case False
      with run q Inr t that(2) show thesis
        by (simp add: set_rules_def bindS_def [of "map_errS _ _"] map_errS_def on_kern_def w1_def rebuild_pass_def Let_def)
    qed
  qed
  then show ?thesis
  proof cases
    case 1
    with w1 show ?thesis by simp
  next
    case 2
    obtain rp d1 where p: "add_rebuild sha rand rs ?ls empty_plan (draws w1) = (rp, d1)" by (metis surj_pair)
    show ?thesis
    proof (cases rp)
      case (Inl e)
      with 2(2) p w1 show ?thesis by (auto simp: bindS_def on_draws_def)
    next
      case (Inr plan)
      with 2(2) p have cm: "commit ops i [] plan True (w1\<lparr>draws := d1\<rparr>) = (r, w')"
        by (simp add: bindS_def on_draws_def)
      note rc = rebuild_commit [of "w1\<lparr>draws := d1\<rparr>", simplified, OF w1(1,2) p [unfolded Inr] cm]
      have "map cl_original (plan_lineages plan) = map cl_original ?ls"
        using add_rebuild_originals [OF p [unfolded Inr]] by (simp add: empty_plan_def)
      with rc show ?thesis by simp
    qed
  qed
qed

end


end
