(* ===== verification/V2fake.thy ===== *)
theory V2fake
  imports V2_Correct
begin

text \<open>
  The fake of the kernel operations, \<open>src/src/cgroup/v2fake.rs\<close>: one cgroup's attachment
  list, the recorded calls and the failures to inject. A handle is the name of its program; the
  flag that a handle was closed is not modelled. The fake keeps the contract \<open>v2_kernel\<close>, so
  the properties of a pass hold on it under every choice of failures.
\<close>

record fake_state =
  fk_attached :: "string list"
  fk_flags :: u32
  fk_inaccessible :: nat
  fk_errs :: "string \<Rightarrow> errno option"
  fk_calls :: "string list"
  fk_loads :: nat
  fk_insts :: "string \<Rightarrow> instruction list option"
  fk_names :: "string \<Rightarrow> string option"
  fk_meta :: prog_meta

definition runtime_original :: "instruction list" where
  "runtime_original = [alu32_imm MOV R0 0, exit_insn]"

definition fake_new :: "string list \<Rightarrow> fake_state" where
  "fake_new ns =
     \<lparr>fk_attached = ns, fk_flags = F_ALLOW_MULTI, fk_inaccessible = 0, fk_errs = (\<lambda>_. None),
      fk_calls = [], fk_loads = 0, fk_insts = (\<lambda>_. None), fk_names = (\<lambda>_. None),
      fk_meta = \<lparr>map_ids_known = True, map_count = 0\<rparr>\<rparr>"

definition fake_fail :: "string \<Rightarrow> errno \<Rightarrow> fake_state \<Rightarrow> fake_state" where
  "fake_fail call errno s = s\<lparr>fk_errs := (fk_errs s)(call \<mapsto> errno)\<rparr>"

definition instructions_of :: "fake_state \<Rightarrow> string \<Rightarrow> instruction list" where
  "instructions_of s name = (case fk_insts s name of Some is \<Rightarrow> is | None \<Rightarrow> runtime_original)"

text \<open>Records a call and says whether it is to fail.\<close>

definition fake_record :: "string \<Rightarrow> fake_state \<Rightarrow> errno option \<times> fake_state" where
  "fake_record call s = (fk_errs s call, s\<lparr>fk_calls := fk_calls s @ [call]\<rparr>)"

definition fake_query :: "(fake_state, string attached, ops_error) call" where
  "fake_query s =
     (Inr \<lparr>progs = fk_attached s, total_progs = length (fk_attached s) + fk_inaccessible s,
           inaccessible = fk_inaccessible s, attach_flags = fk_flags s\<rparr>, s)"

definition loaded_name :: "nat \<Rightarrow> string" where
  "loaded_name n = ''N'' @ show_nat n"

definition fake_load :: "string \<Rightarrow> instruction list \<Rightarrow> (fake_state, string, ops_error) call" where
  "fake_load name is s =
     (let s1 = s\<lparr>fk_loads := fk_loads s + 1\<rparr>; prog = loaded_name (fk_loads s1) in
      case fake_record (''load '' @ prog) s1 of
        (Some errno, s2) \<Rightarrow> (Inl (OpLoad (Verifier errno None [])), s2)
      | (None, s2) \<Rightarrow>
          (Inr prog, s2\<lparr>fk_insts := (fk_insts s2)(prog \<mapsto> is), fk_names := (fk_names s2)(prog \<mapsto> name)\<rparr>))"

text \<open>
  The assertion that the flags are \<open>F_ALLOW_MULTI\<close> holds at every call: the controller passes
  nothing else.
\<close>

definition fake_attach ::
  "string \<Rightarrow> u32 \<Rightarrow> string option \<Rightarrow> (fake_state, unit, ops_error) call" where
  "fake_attach prog flags replace s =
     (let call = (case replace of
                    Some old \<Rightarrow> ''replace '' @ old @ ''->'' @ prog
                  | None \<Rightarrow> ''attach '' @ prog) in
      case fake_record call s of
        (Some errno, s1) \<Rightarrow> (Inl (OpAttach flags errno), s1)
      | (None, s1) \<Rightarrow>
          (case replace of
             None \<Rightarrow> (Inr (), s1\<lparr>fk_attached := fk_attached s1 @ [prog]\<rparr>)
           | Some old \<Rightarrow>
               (case find_index (\<lambda>name. name = old) (fk_attached s1) of
                  None \<Rightarrow> (Inl (OpAttach flags ENOENT), s1)
                | Some index \<Rightarrow> (Inr (), s1\<lparr>fk_attached := (fk_attached s1)[index := prog]\<rparr>))))"

definition fake_detach :: "string \<Rightarrow> (fake_state, unit, ops_error) call" where
  "fake_detach prog s =
     (case fake_record (''detach '' @ prog) s of
        (Some errno, s1) \<Rightarrow> (Inl (OpDetach errno), s1)
      | (None, s1) \<Rightarrow> (Inr (), s1\<lparr>fk_attached := filter (\<lambda>name. name \<noteq> prog) (fk_attached s1)\<rparr>))"

definition fake_instructions ::
  "string \<Rightarrow> (fake_state, instruction list \<times> prog_meta, ops_error) call" where
  "fake_instructions prog s = (Inr (instructions_of s prog, fk_meta s), s)"

definition fake_ops :: "(fake_state, string) v2ops" where
  "fake_ops =
     \<lparr>op_query = fake_query, op_load = fake_load, op_attach = fake_attach,
      op_detach = fake_detach, op_instructions = fake_instructions\<rparr>"

section \<open>The fake keeps the contract\<close>

text \<open>The names that no later load can give.\<close>

definition fake_used :: "fake_state \<Rightarrow> string set" where
  "fake_used s = {name. \<forall>n > fk_loads s. name \<noteq> loaded_name n}"

definition fake_invar :: "fake_state \<Rightarrow> bool" where
  "fake_invar s \<longleftrightarrow> distinct (fk_attached s) \<and> set (fk_attached s) \<subseteq> fake_used s
     \<and> (\<forall>name is. fk_insts s name = Some is \<longrightarrow> (\<exists>raw. decode raw = Inr is))"

lemma loaded_name_inj: "loaded_name m = loaded_name n \<longleftrightarrow> m = n"
  by (auto simp: loaded_name_def dest: show_nat_inj)

lemma runtime_original_decoded: "decode deny_all = Inr runtime_original"
  by (simp add: runtime_original_def deny_all_decode)

lemmas fake_defs = fake_ops_def fake_query_def fake_load_def fake_attach_def fake_detach_def
  fake_instructions_def fake_record_def Let_def

lemma fake_load_state:
  assumes inv: "fake_invar k" and dec: "decode raw = Inr is" and run: "fake_load name is k = (rl, k')"
  shows "fake_invar k' \<and> fk_attached k' = fk_attached k \<and> fake_used k \<subseteq> fake_used k'
    \<and> (\<forall>p \<in> fake_used k. instructions_of k' p = instructions_of k p)
    \<and> (\<forall>p. rl = Inr p \<longrightarrow> p \<notin> fake_used k \<and> p \<in> fake_used k' \<and> instructions_of k' p = is)"
proof -
  let ?n = "loaded_name (fk_loads k + 1)"
  have fresh: "?n \<notin> fake_used k" by (auto simp: fake_used_def)
  have k': "fk_attached k' = fk_attached k" "fk_loads k' = fk_loads k + 1"
    "fk_insts k' = (if rl = Inr ?n then (fk_insts k)(?n \<mapsto> is) else fk_insts k)"
    and rl: "\<And>p. rl = Inr p \<Longrightarrow> p = ?n"
    using run by (auto simp: fake_defs split: option.splits)
  have used: "fake_used k \<subseteq> fake_used k'" by (fastforce simp: fake_used_def k'(2))
  have new: "?n \<in> fake_used k'" by (auto simp: fake_used_def k'(2) loaded_name_inj)
  have "fake_invar k'"
    using inv dec used by (auto simp: fake_invar_def k' split: if_splits)
  moreover have "instructions_of k' p = instructions_of k p" if "p \<in> fake_used k" for p
    using that fresh by (auto simp: instructions_of_def k')
  ultimately show ?thesis
    using k'(1) used new fresh rl by (auto simp: instructions_of_def k')
qed

lemma fake_attached_change:
  assumes "fake_invar k" and "k' = k\<lparr>fk_calls := cs, fk_attached := ns\<rparr>" and "distinct ns"
    and "set ns \<subseteq> fake_used k"
  shows "fake_invar k'" and "fake_used k' = fake_used k" and "instructions_of k' = instructions_of k"
  using assms by (auto simp: fake_invar_def fake_used_def instructions_of_def fun_eq_iff)

lemma fake_attach_state:
  assumes inv: "fake_invar k" and p: "p \<in> fake_used k" "p \<notin> set (fk_attached k)"
    and run: "fake_attach p flags old k = (r, k')"
  shows "fake_invar k' \<and> fake_used k' = fake_used k \<and> instructions_of k' = instructions_of k
    \<and> (r = Inr () \<longrightarrow> set (fk_attached k') =
         insert p (set (fk_attached k) - (case old of None \<Rightarrow> {} | Some o' \<Rightarrow> {o'})))
    \<and> (r \<noteq> Inr () \<longrightarrow> set (fk_attached k') = set (fk_attached k))"
proof -
  let ?ns = "fk_attached k"
  have ns: "distinct ?ns" "set ?ns \<subseteq> fake_used k" using inv by (auto simp: fake_invar_def)
  obtain cs ns where k': "k' = k\<lparr>fk_calls := cs, fk_attached := ns\<rparr>"
    and ok: "r = Inr () \<and> (case old of None \<Rightarrow> ns = ?ns @ [p]
        | Some o' \<Rightarrow> \<exists>i < length ?ns. ?ns ! i = o' \<and> ns = ?ns[i := p]) \<or> r \<noteq> Inr () \<and> ns = ?ns"
    using run by (cases old) (auto simp: fake_defs split: option.splits dest!: find_index_Some)
  have "distinct ns \<and> set ns \<subseteq> fake_used k \<and>
      (r = Inr () \<longrightarrow> set ns = insert p (set ?ns - (case old of None \<Rightarrow> {} | Some o' \<Rightarrow> {o'})))
      \<and> (r \<noteq> Inr () \<longrightarrow> set ns = set ?ns)"
    using ok ns p by (cases old) (auto simp: set_update_distinct distinct_list_update)
  with fake_attached_change [OF inv k'] k' show ?thesis by simp
qed

lemma fake_detach_state:
  assumes inv: "fake_invar k" and run: "fake_detach p k = (r, k')"
  shows "fake_invar k' \<and> fake_used k' = fake_used k \<and> instructions_of k' = instructions_of k
    \<and> (r = Inr () \<longrightarrow> set (fk_attached k') = set (fk_attached k) - {p})
    \<and> (r \<noteq> Inr () \<longrightarrow> set (fk_attached k') = set (fk_attached k))"
proof -
  let ?ns = "fk_attached k"
  have ns: "distinct ?ns" "set ?ns \<subseteq> fake_used k" using inv by (auto simp: fake_invar_def)
  obtain cs ns where k': "k' = k\<lparr>fk_calls := cs, fk_attached := ns\<rparr>"
    and ok: "r = Inr () \<and> ns = filter (\<lambda>name. name \<noteq> p) ?ns \<or> r \<noteq> Inr () \<and> ns = ?ns"
    using run by (auto simp: fake_defs split: option.splits)
  have "distinct ns" "set ns \<subseteq> fake_used k" using ok ns by auto
  with fake_attached_change [OF inv k'] k' ok show ?thesis by auto
qed

interpretation fake: v2_kernel fake_ops fk_attached fake_used instructions_of fake_invar
proof (unfold_locales, goal_cases)
  case (1 k)
  then show ?case by (simp add: fake_invar_def)
next
  case (2 k)
  then show ?case by (simp add: fake_invar_def)
next
  case (3 k p)
  then show ?case
    using runtime_original_decoded
    by (cases "fk_insts k p") (auto simp: fake_invar_def instructions_of_def)
next
  case (4 k rq k')
  then show ?case by (auto simp: fake_defs)
next
  case (5 k a k')
  then show ?case by (auto simp: fake_defs)
next
  case (6 k p ri k')
  then show ?case by (auto simp: fake_defs)
next
  case (7 k p "is" meta k')
  then show ?case by (auto simp: fake_defs)
next
  case (8 k raw "is" name rl k')
  then show ?case using fake_load_state by (simp add: fake_ops_def)
next
  case (9 k raw "is" name p k')
  then show ?case using fake_load_state by (simp add: fake_ops_def)
next
  case (10 k p flags old r k')
  then show ?case using fake_attach_state [of k p flags old r k'] by (simp add: fake_ops_def)
next
  case (11 k p r k')
  then show ?case using fake_detach_state [of k p r k'] by (simp add: fake_ops_def)
qed

section \<open>Passes on the fake\<close>

definition test_identity :: identity where
  "test_identity = \<lparr>id_path = ''/sys/fs/cgroup/test'', id_inode = 4242\<rparr>"

definition fake_world :: "fake_state \<Rightarrow> filter_cache \<Rightarrow> fake_state world" where
  "fake_world s c = \<lparr>kern = s, probe = ReplaceUnknown, cache = c, draws = 0\<rparr>"

definition empty_cache :: filter_cache where
  "empty_cache i = None"

lemma runtime_canonical: "canonical_bytes runtime_original = Inr deny_all"
  by code_simp

lemma runtime_bare: "parse_owned zero_sha deny_all = Inr None"
  by (simp add: parse_owned_def from_canonical_def deny_all_decode magic_defs)

lemma fake_new_invar: "fake_invar (fake_new [''O1''])"
proof -
  have "''O1'' \<noteq> loaded_name n" for n by (simp add: loaded_name_def)
  then show ?thesis by (simp add: fake_invar_def fake_new_def fake_used_def)
qed

text \<open>A grant on a bare filter: it is classified, wrapped, loaded and put in the filter's place.\<close>

definition bare_prog :: attached_prog where
  "bare_prog = \<lparr>ap_index = 0, ap_raw = deny_all, ap_meta = no_maps, ap_owned = False, ap_nonce = 0,
     ap_original = deny_all\<rparr>"

lemma gate_deny_all: "gate deny_all no_maps = Inr ()"
  by (simp add: gate_def from_canonical_def deny_all_decode deny_all_gate)

lemma fake_classify:
  assumes "fk_insts (kern w) ''O1'' = None" and "fk_meta (kern w) = no_maps"
  shows "classify_all zero_sha fake_ops 0 [''O1''] w = (Inr [bare_prog], w)"
  using assms
  by (simp add: classify_def bindS_def map_errS_def on_kern_def fake_ops_def fake_instructions_def
      instructions_of_def runtime_canonical parse_owned_innermost_def runtime_bare bare_prog_def)

definition grant_plan :: "bytes \<Rightarrow> pass_plan" where
  "grant_plan raw = \<lparr>loads = [raw], names = [OWNED_PROGRAM_NAME], steps = [Pair 0 0],
     plan_lineages = [\<lparr>cl_nonce = 7, cl_original = deny_all, cl_meta = no_maps\<rparr>]\<rparr>"

lemma empty_entry_rebuilding: "\<not> rebuilding empty_entry"
  by (simp add: empty_entry_def)

lemma fake_plan:
  assumes "emit_owned zero_sha [null_rw] 7 deny_all = Inr raw"
  shows "plan_pass zero_sha (\<lambda>_. Inr 7) empty_entry [bare_prog] [null_rw] 0 = (Inr (grant_plan raw), 1)"
  by (simp add: plan_pass_def group_wrappers_def bare_prog_def plan_grant_def grant_bare_def bindS_def
      gate_deny_all new_nonce_def assms empty_entry_def grant_plan_def plan_lineage_def plan_pair_def
      plan_load_def empty_plan_def)

lemma fake_grant:
  assumes e: "emit_owned zero_sha [null_rw] 7 deny_all = Inr raw" and d: "decode raw = Inr is"
  shows "\<exists>w'. set_rules zero_sha (\<lambda>_. Inr 7) fake_ops test_identity [null_rw]
     (fake_world (fake_new [''O1'']) empty_cache) = (Inr (), w')"
proof -
  let ?w = "fake_world (fake_new [''O1'']) empty_cache"
  have w: "fk_insts (kern ?w) ''O1'' = None" "fk_meta (kern ?w) = no_maps" "cache_get test_identity (cache ?w) = empty_entry"
    "op_query fake_ops (kern ?w) = (Inr \<lparr>progs = [''O1''], total_progs = 1, inaccessible = 0, attach_flags = 2\<rparr>, kern ?w)"
    "draws ?w = 0"
    by (simp_all add: fake_world_def fake_new_def no_maps_def cache_get_def empty_cache_def fake_ops_def
      fake_query_def F_ALLOW_MULTI_def)
  have "set_rules zero_sha (\<lambda>_. Inr 7) fake_ops test_identity [null_rw] ?w =
    commit fake_ops test_identity [''O1''] (grant_plan raw) False (?w\<lparr>draws := 1\<rparr>)"
    unfolding set_rules_def
    by (simp add: bindS_def map_errS_def on_kern_def w fake_classify [OF w(1,2)] on_draws_def fake_plan [OF e]
      F_ALLOW_MULTI_def Let_def empty_entry_rebuilding del: classify_all.simps)
  then show ?thesis
    using d
    by (simp add: commit_def bindS_def set_cache_def execute_def grant_plan_def load_canonical_def
      from_canonical_def map_errS_def on_kern_def fake_defs fake_world_def fake_new_def run_step_def swap_def
      probe_usable_def)
qed

lemma fake_grant_total:
  "\<exists>w'. set_rules zero_sha (\<lambda>_. Inr 7) fake_ops test_identity [null_rw]
     (fake_world (fake_new [''O1'']) empty_cache) = (Inr (), w')"
proof -
  obtain raw where "emit_owned zero_sha [null_rw] 7 deny_all = Inr raw"
    using emit_wrappable [OF deny_all_decode deny_all_gate, of "[null_rw]"] null_rw_fields by auto
  moreover from this obtain "is" where "decode raw = Inr is" by (rule emit_owned_decode)
  ultimately show ?thesis by (rule fake_grant)
qed

lemma fake_original: "original_of zero_sha runtime_original = deny_all"
  by (simp add: original_of_def runtime_canonical parse_owned_innermost_def runtime_bare)

lemma fake_codes: "instructions_of (kern (fake_world (fake_new [''O1'']) empty_cache))
    ` set (fk_attached (kern (fake_world (fake_new [''O1'']) empty_cache))) = {runtime_original}"
  by (simp add: fake_world_def fake_new_def instructions_of_def)

lemma fake_start:
  "fake_invar (kern (fake_world (fake_new [''O1'']) empty_cache))"
  "fk_attached (kern (fake_world (fake_new [''O1'']) empty_cache)) \<noteq> []"
  "\<not> rebuilding (cache_get test_identity (cache (fake_world (fake_new [''O1'']) empty_cache)))"
  using fake_new_invar by (simp_all add: fake_world_def fake_new_def cache_get_def empty_cache_def empty_entry_def)

lemma fake_grant_allows:
  assumes "set_rules zero_sha (\<lambda>_. Inr 7) fake_ops test_identity [null_rw]
     (fake_world (fake_new [''O1'']) empty_cache) = (Inr (), w')"
  shows "cgroup_allows (instructions_of (kern w') ` set (fk_attached (kern w'))) (char_request 1 3 2)"
  using fake.success_verdict [OF fake_start assms null_request] null_rw_matches
  by (simp add: fake_codes fake_original deny_all_denies)

section \<open>The properties hold on the fake\<close>

theorem pass_keeps_filter_witness:
  "\<exists>r w'. set_rules zero_sha (\<lambda>_. Inr 7) fake_ops test_identity [null_rw]
      (fake_world (fake_fail ''detach O1'' EINVAL (fake_fail ''replace O1->N1'' EINVAL (fake_new [''O1'']))) empty_cache) = (r, w')
    \<and> fk_attached (kern w') \<noteq> []"
proof -
  let ?w = "fake_world (fake_fail ''detach O1'' EINVAL (fake_fail ''replace O1->N1'' EINVAL (fake_new [''O1'']))) empty_cache"
  have "fake_invar (kern ?w)" "fk_attached (kern ?w) \<noteq> []"
    using fake_new_invar by (simp_all add: fake_world_def fake_fail_def fake_invar_def fake_used_def fake_new_def)
  moreover obtain r w' where "set_rules zero_sha (\<lambda>_. Inr 7) fake_ops test_identity [null_rw] ?w = (r, w')"
    by (metis surj_pair)
  ultimately show ?thesis using pass_keeps_filter [OF fake.v2_kernel_axioms] by blast
qed

theorem pass_verdict_witness:
  "\<exists>w'. set_rules zero_sha (\<lambda>_. Inr 7) fake_ops test_identity [null_rw]
      (fake_world (fake_new [''O1'']) empty_cache) = (Inr (), w')
    \<and> cgroup_allows (instructions_of (kern w') ` set (fk_attached (kern w'))) (char_request 1 3 2)"
proof -
  obtain w' where run: "set_rules zero_sha (\<lambda>_. Inr 7) fake_ops test_identity [null_rw]
      (fake_world (fake_new [''O1'']) empty_cache) = (Inr (), w')"
    using fake_grant_total by blast
  with pass_verdict [OF fake.v2_kernel_axioms fake_start run null_request] null_rw_matches
  show ?thesis by (simp add: fake_codes fake_original deny_all_denies)
qed

theorem pass_never_wider_witness:
  "allows runtime_original (char_request 1 3 2) \<or>
    (case rules_verdict [null_rw] (char_request 1 3 2) of
       Some b \<Rightarrow> b | None \<Rightarrow> filter_allows deny_all (char_request 1 3 2))"
proof -
  obtain w' where run: "set_rules zero_sha (\<lambda>_. Inr 7) fake_ops test_identity [null_rw]
      (fake_world (fake_new [''O1'']) empty_cache) = (Inr (), w')"
    using fake_grant_total by blast
  from pass_never_wider [OF fake.v2_kernel_axioms fake_start(1,2) run null_request _ _ fake_grant_allows [OF run],
      of runtime_original 0]
  show ?thesis unfolding fake_codes fake_original by (simp add: deny_all_denies)
qed


definition rebuild_cache :: filter_cache where
  "rebuild_cache i =
     Some \<lparr>lineages = [\<lparr>cl_nonce = 0, cl_original = deny_all, cl_meta = no_maps\<rparr>], rebuilding = False\<rparr>"


end
