(* ===== verification/V1set.thy ===== *)
theory V1set
  imports V2plan "HOL-Library.Char_ord" "HOL-Library.Product_Lexorder"
begin

text \<open>
  The cgroup v1 controller: the ledger of \<open>src/src/cgroup/ledger.rs\<close> and the exceptions of
  \<open>src/src/cgroup/v1set.rs\<close>. The \<open>devices.*\<close> files are an interface on a kernel state \<open>'k\<close>.
  A \<open>BTreeSet\<close> is a set, iterated in the order of its elements.
\<close>

section \<open>Bits and entries\<close>

definition V1_READ :: u8 where "V1_READ = 1"
definition V1_WRITE :: u8 where "V1_WRITE = push_bit 1 1"
definition V1_MKNOD :: u8 where "V1_MKNOD = push_bit 2 1"
definition ACCESS_BITS :: "u8 list" where "ACCESS_BITS = [V1_READ, V1_WRITE, V1_MKNOD]"

lemmas v1_bits = V1_READ_def V1_WRITE_def V1_MKNOD_def

definition DEVICES_LIST :: string where "DEVICES_LIST = ''devices.list''"
definition DEVICES_ALLOW :: string where "DEVICES_ALLOW = ''devices.allow''"
definition DEVICES_DENY :: string where "DEVICES_DENY = ''devices.deny''"

datatype dev_bit = DevBit (bit_kind: char) (bit_major: int) (bit_minor: int) (bit_access: u8)

definition bit_key :: "dev_bit \<Rightarrow> char \<times> int \<times> int \<times> u8" where
  "bit_key b = (bit_kind b, bit_major b, bit_minor b, bit_access b)"

lemma bit_key_inj: "bit_key a = bit_key b \<Longrightarrow> a = b"
  by (cases a; cases b) (simp add: bit_key_def)

text \<open>The derived order: kind, major, minor, access.\<close>

instantiation dev_bit :: linorder
begin

definition less_eq_dev_bit :: "dev_bit \<Rightarrow> dev_bit \<Rightarrow> bool" where
  "less_eq_dev_bit a b \<longleftrightarrow> bit_key a \<le> bit_key b"

definition less_dev_bit :: "dev_bit \<Rightarrow> dev_bit \<Rightarrow> bool" where
  "less_dev_bit a b \<longleftrightarrow> bit_key a < bit_key b"

instance
  by standard (auto simp: less_eq_dev_bit_def less_dev_bit_def dest: bit_key_inj)

end

record list_entry =
  le_kind :: char
  le_major :: int
  le_minor :: int
  le_access :: u8

definition access_string :: "u8 \<Rightarrow> string" where
  "access_string acc =
     map snd (filter (\<lambda>(b, letter). acc AND b \<noteq> 0)
       [(V1_READ, CHR ''r''), (V1_WRITE, CHR ''w''), (V1_MKNOD, CHR ''m'')])"

definition bit_line :: "dev_bit \<Rightarrow> string" where
  "bit_line b =
     [bit_kind b] @ '' '' @ show_int (bit_major b) @ '':'' @ show_int (bit_minor b) @ '' ''
       @ access_string (bit_access b)"

definition covers :: "list_entry \<Rightarrow> dev_bit \<Rightarrow> bool" where
  "covers e b \<longleftrightarrow>
     (le_kind e = CHR ''a'' \<or> le_kind e = bit_kind b)
     \<and> (le_major e = WILDCARD \<or> le_major e = bit_major b)
     \<and> (le_minor e = WILDCARD \<or> le_minor e = bit_minor b)
     \<and> le_access e AND bit_access b \<noteq> 0"

definition covered :: "list_entry list \<Rightarrow> dev_bit \<Rightarrow> bool" where
  "covered es b \<longleftrightarrow> (\<exists>e \<in> set es. covers e b)"

section \<open>Parsing\<close>

fun parse_access_from :: "u8 \<Rightarrow> string list \<Rightarrow> (u8, string) result" where
  "parse_access_from acc [] = Inr acc"
| "parse_access_from acc (letter # letters) =
     (if letter = ''r'' then parse_access_from (acc OR V1_READ) letters
      else if letter = ''w'' then parse_access_from (acc OR V1_WRITE) letters
      else if letter = ''m'' then parse_access_from (acc OR V1_MKNOD) letters
      else Inl letter)"

definition parse_access_letters :: "string \<Rightarrow> (u8, string) result" where
  "parse_access_letters s = parse_access_from 0 (chars s)"

definition parse_num :: "string \<Rightarrow> (int, list_entry_cause) result" where
  "parse_num field =
     (if field = ''*'' then Inr WILDCARD else map_err (ListNumber field) (parse_i64 field))"

text \<open>One line of \<open>devices.list\<close>; an empty one is skipped.\<close>

definition parse_list_line :: "string \<Rightarrow> (list_entry option, cgroup_error) result" where
  "parse_list_line raw =
     (let line = trim (from_utf8_lossy raw); malformed = ListEntry line in
      if line = [] then Inr None
      else case split_whitespace line of
        [knd, numbers, acc] \<Rightarrow>
          if knd \<notin> {''a'', ''b'', ''c''} then Inl (malformed None)
          else (case split_on CHR '':'' numbers of
            [ma, mi] \<Rightarrow>
              bindR (map_err (malformed \<circ> Some) (parse_num ma)) (\<lambda>ma'.
              bindR (map_err (malformed \<circ> Some) (parse_num mi)) (\<lambda>mi'.
              bindR (map_err (malformed \<circ> Some \<circ> ListAccess) (parse_access_letters acc)) (\<lambda>acc'.
                Inr (Some \<lparr>le_kind = hd knd, le_major = ma', le_minor = mi', le_access = acc'\<rparr>))))
          | _ \<Rightarrow> Inl (malformed None))
      | _ \<Rightarrow> Inl (malformed None))"

fun parse_list_lines :: "(string, line_too_long) result list \<Rightarrow> (list_entry list, cgroup_error) result" where
  "parse_list_lines [] = Inr []"
| "parse_list_lines (l # ls) =
     bindR (map_err ReadList l) (\<lambda>raw.
     bindR (parse_list_line raw) (\<lambda>e.
     bindR (parse_list_lines ls) (\<lambda>es.
       Inr (case e of None \<Rightarrow> es | Some x \<Rightarrow> x # es))))"

definition parse_devices_list :: "string \<Rightarrow> (list_entry list, cgroup_error) result" where
  "parse_devices_list data = parse_list_lines (lines data)"

section \<open>The ledger\<close>

type_synonym ledger = "identity \<Rightarrow> dev_bit set option"

definition ledger_forget :: "identity \<Rightarrow> ledger \<Rightarrow> ledger" where
  "ledger_forget i l = l(i := None)"

definition ledger_owned :: "identity \<Rightarrow> ledger \<Rightarrow> dev_bit set" where
  "ledger_owned i l = (case l i of None \<Rightarrow> {} | Some bs \<Rightarrow> bs)"

definition ledger_add :: "identity \<Rightarrow> dev_bit \<Rightarrow> ledger \<Rightarrow> ledger" where
  "ledger_add i b l = l(i \<mapsto> insert b (ledger_owned i l))"

definition ledger_remove :: "identity \<Rightarrow> dev_bit \<Rightarrow> ledger \<Rightarrow> ledger" where
  "ledger_remove i b l =
     (case l i of
        None \<Rightarrow> l
      | Some bs \<Rightarrow> (if bs - {b} = {} then l(i := None) else l(i \<mapsto> bs - {b})))"

section \<open>The baseline and the desired bits\<close>

definition is_exact :: "list_entry \<Rightarrow> bool" where
  "is_exact e \<longleftrightarrow> le_kind e \<noteq> CHR ''a'' \<and> le_major e \<noteq> WILDCARD \<and> le_minor e \<noteq> WILDCARD"

definition clear_bit :: "list_entry \<Rightarrow> dev_bit \<Rightarrow> list_entry" where
  "clear_bit e b =
     (if bit_kind b = le_kind e \<and> bit_major b = le_major e \<and> bit_minor b = le_minor e
      then e\<lparr>le_access := le_access e AND NOT (bit_access b)\<rparr> else e)"

definition without_owned :: "list_entry list \<Rightarrow> dev_bit set \<Rightarrow> list_entry list" where
  "without_owned es owned =
     filter (\<lambda>e. le_access e \<noteq> 0)
       (map (\<lambda>e. if is_exact e then foldl clear_bit e (sorted_list_of_set owned) else e) es)"

definition rule_bits :: "device_rule \<Rightarrow> (dev_bit set, cgroup_error) result" where
  "rule_bits r =
     (if \<not> allow r then Inl DenyRule
      else case (major r, minor r) of
        (Some ma, Some mi) \<Rightarrow>
          if kind r \<notin> {''c'', ''b''} \<or> ma < 0 \<or> mi < 0 then Inl (ConcreteRule (go_struct_text r))
          else bindR (map_err UnknownAccessLetter (parse_access_letters (access r))) (\<lambda>acc.
            Inr (set (map (DevBit (hd (kind r)) ma mi) (filter (\<lambda>one. acc AND one \<noteq> 0) ACCESS_BITS))))
      | _ \<Rightarrow> Inl (ConcreteRule (go_struct_text r)))"

fun expand_rules :: "device_rule list \<Rightarrow> (dev_bit set, cgroup_error) result" where
  "expand_rules [] = Inr {}"
| "expand_rules (r # rs) =
     bindR (rule_bits r) (\<lambda>bs. bindR (expand_rules rs) (\<lambda>bits. Inr (bs \<union> bits)))"

section \<open>Setting the rules\<close>

record 'k v1files =
  f_read :: "string \<Rightarrow> ('k, string, file_error) call"
  f_write :: "string \<Rightarrow> string \<Rightarrow> ('k, unit, file_error) call"

record 'k v1world =
  v1_kern :: 'k
  v1_ledger :: ledger

definition on_files :: "('k, 'a, file_error) call \<Rightarrow> ('k v1world, 'a, file_error) call" where
  "on_files m w = (case m (v1_kern w) of (r, k) \<Rightarrow> (r, w\<lparr>v1_kern := k\<rparr>))"

definition read_list :: "'k v1files \<Rightarrow> ('k v1world, list_entry list, cgroup_error) call" where
  "read_list files =
     bindS (map_errS File (on_files (f_read files DEVICES_LIST))) (\<lambda>data.
       liftS (parse_devices_list data))"

text \<open>
  The revocations, in the order of the bits: a bit that the baseline covers is forgotten, any
  other one is denied. The result is the set of the forgotten bits.
\<close>

fun revoke_loop ::
  "'k v1files \<Rightarrow> identity \<Rightarrow> list_entry list \<Rightarrow> dev_bit set \<Rightarrow> dev_bit list \<Rightarrow> dev_bit set
    \<Rightarrow> ('k v1world, dev_bit set, cgroup_error) call" where
  "revoke_loop files i baseline owned_new [] forgotten w = (Inr forgotten, w)"
| "revoke_loop files i baseline owned_new (b # bs) forgotten w =
     (if b \<in> owned_new then revoke_loop files i baseline owned_new bs forgotten w
      else if covered baseline b then
        revoke_loop files i baseline owned_new bs (insert b forgotten)
          (w\<lparr>v1_ledger := ledger_remove i b (v1_ledger w)\<rparr>)
      else case on_files (f_write files DEVICES_DENY (bit_line b)) w of
        (Inl e, w1) \<Rightarrow> (Inl (Revoke (bit_line b) e), w1)
      | (Inr _, w1) \<Rightarrow>
          revoke_loop files i baseline owned_new bs forgotten
            (w1\<lparr>v1_ledger := ledger_remove i b (v1_ledger w1)\<rparr>))"

text \<open>The grants: a failed one is an error of the call, and the others go on.\<close>

fun grant_loop ::
  "'k v1files \<Rightarrow> identity \<Rightarrow> list_entry list \<Rightarrow> dev_bit list \<Rightarrow> 'k v1world
    \<Rightarrow> cgroup_error list \<times> 'k v1world" where
  "grant_loop files i es [] w = ([], w)"
| "grant_loop files i es (b # bs) w =
     (case (if covered es b then (Inr (), w)
            else on_files (f_write files DEVICES_ALLOW (bit_line b)) w) of
        (Inl e, w1) \<Rightarrow>
          (case grant_loop files i es bs w1 of (errs, w2) \<Rightarrow> (Grant (bit_line b) e # errs, w2))
      | (Inr _, w1) \<Rightarrow>
          grant_loop files i es bs (w1\<lparr>v1_ledger := ledger_add i b (v1_ledger w1)\<rparr>))"

definition show_bool :: "bool \<Rightarrow> string" where
  "show_bool b = (if b then ''true'' else ''false'')"

definition verify ::
  "'k v1files \<Rightarrow> dev_bit set \<Rightarrow> dev_bit set \<Rightarrow> dev_bit set \<Rightarrow> ('k v1world, unit, cgroup_error) call" where
  "verify files owned_old owned_new forgotten =
     bindS (map_errS Verify (read_list files)) (\<lambda>after.
       let checked = sorted_list_of_set ((owned_old - forgotten) \<union> owned_new);
           mismatched =
             map (\<lambda>b. bit_line b @ '' (want '' @ show_bool (b \<in> owned_new) @ '')'')
               (filter (\<lambda>b. covered after b \<noteq> (b \<in> owned_new)) checked)
       in if mismatched = [] then retS () else liftS (Inl (Drift mismatched)))"

definition v1_set_device_rules ::
  "'k v1files \<Rightarrow> identity \<Rightarrow> device_rule list \<Rightarrow> ('k v1world, unit, cgroup_error) call" where
  "v1_set_device_rules files i rs =
     bindS (liftS (expand_rules rs)) (\<lambda>desired.
     bindS (read_list files) (\<lambda>es. \<lambda>w.
       let owned_old = ledger_owned i (v1_ledger w);
           baseline = without_owned es owned_old;
           owned_new = {b \<in> desired. \<not> covered baseline b}
       in bindS (revoke_loop files i baseline owned_new (sorted_list_of_set owned_old) {}) (\<lambda>forgotten. \<lambda>w1.
            case grant_loop files i es (sorted_list_of_set owned_new) w1 of (errors, w2) \<Rightarrow>
              (case verify files owned_old owned_new forgotten w2 of (rv, w3) \<Rightarrow>
                 let errors' = errors @ (case rv of Inl e \<Rightarrow> [e] | Inr _ \<Rightarrow> []) in
                 (if errors' = [] then Inr () else Inl (Joined errors'), w3))) w))"

end
