(* ===== verification/V1_Correct.thy ===== *)
theory V1_Correct
  imports V1set
begin

text \<open>
  What \<open>set_device_rules\<close> of \<open>src/src/cgroup/v1set.rs\<close> does to the exceptions of a cgroup, on
  every kernel that keeps the contract \<open>v1_kernel\<close>: the runtime's own exceptions are kept
  whatever fails, a success makes the daemon's exceptions exactly the rules, and revocations come
  before grants.
\<close>

section \<open>Access bits\<close>

definition wf_bit :: "dev_bit \<Rightarrow> bool" where
  "wf_bit b \<longleftrightarrow> bit_kind b \<in> {CHR ''b'', CHR ''c''} \<and> 0 \<le> bit_major b \<and> 0 \<le> bit_minor b
     \<and> bit_major b \<le> I64_MAX \<and> bit_minor b \<le> I64_MAX \<and> bit_access b \<in> set ACCESS_BITS"

lemma access_bit_exp: "x \<in> set ACCESS_BITS \<longleftrightarrow> (\<exists>n < 3. x = 2 ^ n)"
proof -
  have "(\<exists>n < (3 :: nat). x = 2 ^ n) \<longleftrightarrow> x = 2 ^ 0 \<or> x = 2 ^ 1 \<or> x = 2 ^ 2"
    by (simp add: numeral_3_eq_3 less_Suc_eq ex_disj_distrib conj_disj_distribR)
  then show ?thesis by (auto simp: ACCESS_BITS_def v1_bits)
qed

lemma access_bit_test: "(acc AND 2 ^ n :: u8) \<noteq> 0 \<longleftrightarrow> bit acc n"
  by (simp add: and_exp_eq_0_iff_not_bit)

lemma access_exp_inj: "m < 3 \<Longrightarrow> n < 3 \<Longrightarrow> (2 ^ m :: u8) = 2 ^ n \<longleftrightarrow> m = n"
proof
  assume "m < 3" "n < 3" "(2 ^ m :: u8) = 2 ^ n"
  then have "bit (2 ^ m :: u8) n" by (simp add: bit_simps)
  then show "m = n" by (simp add: bit_simps)
qed simp

lemma access_clear:
  assumes "x \<in> set ACCESS_BITS" and "y \<in> set ACCESS_BITS"
  shows "(acc AND NOT x) AND y \<noteq> 0 \<longleftrightarrow> acc AND y \<noteq> 0 \<and> x \<noteq> y"
proof -
  obtain m n where x: "m < 3" "x = 2 ^ m" and y: "n < 3" "y = 2 ^ n"
    using assms by (auto simp: access_bit_exp)
  have "bit (NOT x) n \<longleftrightarrow> m \<noteq> n" using x y by (auto simp: bit_simps)
  then show ?thesis
    using access_exp_inj [OF x(1) y(1)] unfolding x(2) y(2) access_bit_test by (auto simp: bit_simps)
qed

section \<open>Coverage\<close>

definition wild_covers :: "list_entry set \<Rightarrow> dev_bit \<Rightarrow> bool" where
  "wild_covers W b \<longleftrightarrow> (\<exists>e \<in> W. covers e b)"

text \<open>The entries of a list: the wildcard ones, and the bits of the exact ones.\<close>

definition lists :: "list_entry set \<Rightarrow> dev_bit set \<Rightarrow> list_entry list \<Rightarrow> bool" where
  "lists W E es \<longleftrightarrow> {e \<in> set es. \<not> is_exact e} = W
     \<and> (\<forall>b. wf_bit b \<longrightarrow> ((\<exists>e \<in> set es. is_exact e \<and> covers e b) \<longleftrightarrow> b \<in> E))"

lemma covered_lists:
  assumes "lists W E es" and "wf_bit b"
  shows "covered es b \<longleftrightarrow> wild_covers W b \<or> b \<in> E"
  using assms unfolding lists_def covered_def wild_covers_def by blast

lemma clear_bit_fields [simp]:
  "le_kind (clear_bit e b) = le_kind e" "le_major (clear_bit e b) = le_major e"
  "le_minor (clear_bit e b) = le_minor e" "is_exact (clear_bit e b) = is_exact e"
  by (simp_all add: clear_bit_def is_exact_def)

lemma clear_bits_exact [simp]: "is_exact (foldl clear_bit e bs) = is_exact e"
  by (induction bs arbitrary: e) simp_all

lemma covers_clear_bit:
  assumes "is_exact e" and "wf_bit b" and "wf_bit c"
  shows "covers (clear_bit e c) b \<longleftrightarrow> covers e b \<and> c \<noteq> b"
proof -
  have "covers (clear_bit e c) b \<longleftrightarrow> covers e b
      \<and> (bit_kind c = le_kind e \<and> bit_major c = le_major e \<and> bit_minor c = le_minor e \<longrightarrow> bit_access c \<noteq> bit_access b)"
    using assms access_clear [of "bit_access c" "bit_access b" "le_access e"]
    by (auto simp: covers_def clear_bit_def wf_bit_def)
  then show ?thesis
    using assms by (cases b; cases c) (auto simp: covers_def is_exact_def)
qed

lemma covers_clear_bits:
  "is_exact e \<Longrightarrow> wf_bit b \<Longrightarrow> \<forall>c \<in> set bs. wf_bit c \<Longrightarrow>
     covers (foldl clear_bit e bs) b \<longleftrightarrow> covers e b \<and> b \<notin> set bs"
  by (induction bs arbitrary: e) (auto simp: covers_clear_bit)

lemma covers_access: "covers e b \<Longrightarrow> le_access e \<noteq> 0"
  by (auto simp: covers_def)

lemma covered_filter_map:
  "covered (filter (\<lambda>e. le_access e \<noteq> 0) (map f es)) b \<longleftrightarrow> (\<exists>e \<in> set es. covers (f e) b)"
  by (auto simp: covered_def dest: covers_access)

lemma covered_without_owned:
  assumes "lists W E es" and "wf_bit b" and "finite owned" and "\<forall>c \<in> owned. wf_bit c"
  shows "covered (without_owned es owned) b \<longleftrightarrow> wild_covers W b \<or> b \<in> E - owned"
proof -
  let ?f = "\<lambda>e. if is_exact e then foldl clear_bit e (sorted_list_of_set owned) else e"
  have f: "covers (?f e) b \<longleftrightarrow> covers e b \<and> (is_exact e \<longrightarrow> b \<notin> owned)" for e
    using assms(2-4) by (simp add: covers_clear_bits)
  have "covered (without_owned es owned) b \<longleftrightarrow> (\<exists>e \<in> set es. covers (?f e) b)"
    unfolding without_owned_def by (rule covered_filter_map)
  also have "\<dots> \<longleftrightarrow> (\<exists>e \<in> {e \<in> set es. \<not> is_exact e}. covers e b)
      \<or> (\<exists>e \<in> set es. is_exact e \<and> covers e b) \<and> b \<notin> owned"
    unfolding f by auto
  also have "\<dots> \<longleftrightarrow> wild_covers W b \<or> b \<in> E - owned"
    using assms(1,2) by (simp add: lists_def wild_covers_def)
  finally show ?thesis .
qed

section \<open>The desired bits\<close>

text \<open>The numbers of a rule are 64-bit integers.\<close>

definition i64_rule :: "device_rule \<Rightarrow> bool" where
  "i64_rule r \<longleftrightarrow> (\<forall>n. major r = Some n \<longrightarrow> n \<le> I64_MAX) \<and> (\<forall>n. minor r = Some n \<longrightarrow> n \<le> I64_MAX)"

lemma rule_bits_wf: "rule_bits r = Inr bs \<Longrightarrow> i64_rule r \<Longrightarrow> finite bs \<and> (\<forall>b \<in> bs. wf_bit b)"
  by (auto simp: rule_bits_def wf_bit_def i64_rule_def result_simps split: if_splits option.splits)

lemma expand_rules_wf:
  "expand_rules rs = Inr bs \<Longrightarrow> \<forall>r \<in> set rs. i64_rule r \<Longrightarrow> finite bs \<and> (\<forall>b \<in> bs. wf_bit b)"
  by (induction rs arbitrary: bs) (auto simp: result_simps dest!: rule_bits_wf)

section \<open>The ledger\<close>

lemma ledger_owned_simps [simp]:
  "ledger_owned i (ledger_add i b l) = insert b (ledger_owned i l)"
  "ledger_owned i (ledger_remove i b l) = ledger_owned i l - {b}"
  "ledger_owned i (ledger_forget i l) = {}"
  by (simp_all add: ledger_owned_def ledger_add_def ledger_remove_def ledger_forget_def split: option.splits)

section \<open>The kernel's contract\<close>

text \<open>
  A cgroup has wildcard exceptions, which no exact write touches, and exact bits. A list that is
  read shows them; a write that succeeds adds or removes its bit, one that fails changes nothing.
\<close>

locale v1_kernel =
  fixes files :: "'k v1files"
    and wild :: "'k \<Rightarrow> list_entry set"
    and exact :: "'k \<Rightarrow> dev_bit set"
    and invar :: "'k \<Rightarrow> bool"
  assumes read_state: "invar k \<Longrightarrow> f_read files name k = (r, k') \<Longrightarrow>
      invar k' \<and> wild k' = wild k \<and> exact k' = exact k"
    and read_shows: "invar k \<Longrightarrow> f_read files DEVICES_LIST k = (Inr data, k') \<Longrightarrow>
      parse_devices_list data = Inr es \<Longrightarrow> lists (wild k) (exact k) es"
    and allow_state: "invar k \<Longrightarrow> wf_bit b \<Longrightarrow> f_write files DEVICES_ALLOW (bit_line b) k = (u, k') \<Longrightarrow>
      invar k' \<and> wild k' = wild k \<and> exact k' = (if u = Inr () then insert b (exact k) else exact k)"
    and deny_state: "invar k \<Longrightarrow> wf_bit b \<Longrightarrow> f_write files DEVICES_DENY (bit_line b) k = (u, k') \<Longrightarrow>
      invar k' \<and> wild k' = wild k \<and> exact k' = (if u = Inr () then exact k - {b} else exact k)"
begin

definition effective :: "'k \<Rightarrow> dev_bit \<Rightarrow> bool" where
  "effective k b \<longleftrightarrow> wild_covers (wild k) b \<or> b \<in> exact k"

text \<open>The baseline: what is effective without the bits of the ledger.\<close>

definition base :: "identity \<Rightarrow> 'k v1world \<Rightarrow> dev_bit \<Rightarrow> bool" where
  "base i w b \<longleftrightarrow> wild_covers (wild (v1_kern w)) b \<or> b \<in> exact (v1_kern w) - ledger_owned i (v1_ledger w)"

definition v1_ok :: "identity \<Rightarrow> 'k v1world \<Rightarrow> bool" where
  "v1_ok i w \<longleftrightarrow> invar (v1_kern w) \<and> finite (ledger_owned i (v1_ledger w))
     \<and> (\<forall>b \<in> ledger_owned i (v1_ledger w). wf_bit b)"

lemma read_list_rel:
  assumes "invar (v1_kern w)" and "read_list files w = (r, w')"
  shows "invar (v1_kern w') \<and> wild (v1_kern w') = wild (v1_kern w) \<and> exact (v1_kern w') = exact (v1_kern w)
    \<and> v1_ledger w' = v1_ledger w \<and> (\<forall>es. r = Inr es \<longrightarrow> lists (wild (v1_kern w)) (exact (v1_kern w)) es)"
proof -
  obtain rd k1 where 1: "f_read files DEVICES_LIST (v1_kern w) = (rd, k1)" by (metis surj_pair)
  have w': "w' = w\<lparr>v1_kern := k1\<rparr>"
    using assms(2) 1 by (cases rd) (auto simp: read_list_def bindS_def map_errS_def on_files_def)
  have "lists (wild (v1_kern w)) (exact (v1_kern w)) es" if "r = Inr es" for es
    using assms that 1 read_shows [OF assms(1)]
    by (cases rd) (auto simp: read_list_def bindS_def map_errS_def on_files_def)
  with read_state [OF assms(1) 1] show ?thesis by (simp add: w')
qed

text \<open>
  After the revocations, or some of them: the bits \<open>D\<close> are denied and \<open>F\<close> forgotten, all when
  no write failed.
\<close>

definition revoked ::
  "identity \<Rightarrow> list_entry list \<Rightarrow> dev_bit set \<Rightarrow> dev_bit set \<Rightarrow> 'k v1world \<Rightarrow> 'k v1world \<Rightarrow> dev_bit set \<Rightarrow> dev_bit set \<Rightarrow> bool" where
  "revoked i baseline new S w w' D F \<longleftrightarrow> invar (v1_kern w') \<and> wild (v1_kern w') = wild (v1_kern w)
     \<and> exact (v1_kern w') = exact (v1_kern w) - D
     \<and> ledger_owned i (v1_ledger w') = ledger_owned i (v1_ledger w) - (D \<union> F)
     \<and> D \<subseteq> {b \<in> S. b \<notin> new \<and> \<not> covered baseline b} \<and> F \<subseteq> {b \<in> S. b \<notin> new \<and> covered baseline b}"

lemma revoked_refl: "invar (v1_kern w) \<Longrightarrow> revoked i baseline new S w w {} {}"
  by (simp add: revoked_def)

lemma revoked_mono: "revoked i baseline new S w w' D F \<Longrightarrow> S \<subseteq> S' \<Longrightarrow> revoked i baseline new S' w w' D F"
  unfolding revoked_def by blast

lemma revoked_forget:
  assumes "revoked i baseline new S (w\<lparr>v1_ledger := ledger_remove i b (v1_ledger w)\<rparr>) w' D F"
    and "b \<notin> new" and "covered baseline b"
  shows "revoked i baseline new (insert b S) w w' D (insert b F)"
  using assms by (auto simp: revoked_def)

lemma revoked_deny:
  assumes "revoked i baseline new S (w\<lparr>v1_kern := k1, v1_ledger := ledger_remove i b (v1_ledger w)\<rparr>) w' D F"
    and "wild k1 = wild (v1_kern w)" and "exact k1 = exact (v1_kern w) - {b}"
    and "b \<notin> new" and "\<not> covered baseline b"
  shows "revoked i baseline new (insert b S) w w' (insert b D) F"
  using assms by (auto simp: revoked_def)

lemma revoke_loop_rel:
  assumes "invar (v1_kern w)" and "\<forall>b \<in> set bs. wf_bit b"
    and "revoke_loop files i baseline new bs forgotten w = (r, w')"
  shows "\<exists>D F. revoked i baseline new (set bs) w w' D F
    \<and> (\<forall>fs. r = Inr fs \<longrightarrow> fs = forgotten \<union> F \<and> D \<union> F = set bs - new)"
  using assms
proof (induction bs arbitrary: forgotten w)
  case Nil
  then show ?case using revoked_refl [of w] by (intro exI [of _ "{}"]) auto
next
  case (Cons b bs)
  have wf: "wf_bit b" "\<forall>b \<in> set bs. wf_bit b" using Cons.prems(2) by auto
  consider (new) "b \<in> new" | (base) "b \<notin> new" "covered baseline b" | (deny) "b \<notin> new" "\<not> covered baseline b"
    by blast
  then show ?case
  proof cases
    case new
    with Cons.prems have "revoke_loop files i baseline new bs forgotten w = (r, w')" by simp
    from Cons.IH [OF Cons.prems(1) wf(2) this] obtain D F where "revoked i baseline new (set bs) w w' D F"
      "\<forall>fs. r = Inr fs \<longrightarrow> fs = forgotten \<union> F \<and> D \<union> F = set bs - new" by blast
    moreover have "set (b # bs) - new = set bs - new" using new by auto
    ultimately show ?thesis using revoked_mono [OF _ set_subset_Cons] by metis
  next
    case base
    let ?w = "w\<lparr>v1_ledger := ledger_remove i b (v1_ledger w)\<rparr>"
    from base Cons.prems have "revoke_loop files i baseline new bs (insert b forgotten) ?w = (r, w')" by simp
    from Cons.IH [OF _ wf(2) this] Cons.prems(1) obtain D F where "revoked i baseline new (set bs) ?w w' D F"
      "\<forall>fs. r = Inr fs \<longrightarrow> fs = insert b forgotten \<union> F \<and> D \<union> F = set bs - new" by auto
    moreover have "set (b # bs) - new = insert b (set bs - new)" using base by auto
    ultimately show ?thesis using revoked_forget [OF _ base, of i "set bs" w w' D F]
      by (intro exI [of _ D] exI [of _ "insert b F"]) simp
  next
    case deny
    obtain u k1 where 1: "f_write files DEVICES_DENY (bit_line b) (v1_kern w) = (u, k1)" by (metis surj_pair)
    note st = deny_state [OF Cons.prems(1) wf(1) 1]
    show ?thesis
    proof (cases u)
      case (Inl e)
      with deny 1 Cons.prems(3) have "r = Inl (Revoke (bit_line b) e)" "w' = w\<lparr>v1_kern := k1\<rparr>"
        by (simp_all add: on_files_def)
      with st Inl show ?thesis by (intro exI [of _ "{}"]) (simp add: revoked_def)
    next
      case (Inr x)
      let ?w = "w\<lparr>v1_kern := k1, v1_ledger := ledger_remove i b (v1_ledger w)\<rparr>"
      from deny 1 Inr Cons.prems(3) have "revoke_loop files i baseline new bs forgotten ?w = (r, w')"
        by (simp add: on_files_def)
      from Cons.IH [OF _ wf(2) this] st Inr obtain D F where "revoked i baseline new (set bs) ?w w' D F"
        "\<forall>fs. r = Inr fs \<longrightarrow> fs = forgotten \<union> F \<and> D \<union> F = set bs - new" by auto
      moreover have "set (b # bs) - new = insert b (set bs - new)" using deny by auto
      ultimately show ?thesis using revoked_deny [OF _ _ _ deny, of i "set bs" w k1 w' D F] st Inr
        by (intro exI [of _ "insert b D"] exI [of _ F]) simp
    qed
  qed
qed

text \<open>After the grants: the bits \<open>N\<close> are owned, those of them that were not covered are allowed.\<close>

definition granted ::
  "identity \<Rightarrow> list_entry list \<Rightarrow> dev_bit set \<Rightarrow> 'k v1world \<Rightarrow> 'k v1world \<Rightarrow> dev_bit set \<Rightarrow> bool" where
  "granted i es S w w' N \<longleftrightarrow> invar (v1_kern w') \<and> wild (v1_kern w') = wild (v1_kern w)
     \<and> exact (v1_kern w') = exact (v1_kern w) \<union> {b \<in> N. \<not> covered es b}
     \<and> ledger_owned i (v1_ledger w') = ledger_owned i (v1_ledger w) \<union> N \<and> N \<subseteq> S"

lemma grant_loop_rel:
  assumes "invar (v1_kern w)" and "\<forall>b \<in> set bs. wf_bit b" and "grant_loop files i es bs w = (errs, w')"
  shows "\<exists>N. granted i es (set bs) w w' N \<and> (errs = [] \<longrightarrow> N = set bs)"
  using assms
proof (induction bs arbitrary: w errs)
  case Nil
  then show ?case by (intro exI [of _ "{}"]) (auto simp: granted_def)
next
  case (Cons b bs)
  obtain u w1 where 1: "(if covered es b then (Inr (), w)
      else on_files (f_write files DEVICES_ALLOW (bit_line b)) w) = (u, w1)" by (metis surj_pair)
  have wf: "wf_bit b" "\<forall>b \<in> set bs. wf_bit b" using Cons.prems(2) by auto
  have w1: "invar (v1_kern w1)" "wild (v1_kern w1) = wild (v1_kern w)" "v1_ledger w1 = v1_ledger w"
    "exact (v1_kern w1) = (if u = Inr () \<and> \<not> covered es b then insert b (exact (v1_kern w)) else exact (v1_kern w))"
    using 1 Cons.prems(1) allow_state [OF Cons.prems(1) wf(1)]
    by (auto simp: on_files_def split: if_splits prod.splits)
  show ?case
  proof (cases u)
    case (Inl e)
    obtain errs' where 2: "grant_loop files i es bs w1 = (errs', w')" and errs: "errs = Grant (bit_line b) e # errs'"
      using Cons.prems(3) 1 Inl by (auto simp del: if_split split: prod.splits)
    obtain N where "granted i es (set bs) w1 w' N" "errs' = [] \<longrightarrow> N = set bs"
      using Cons.IH [OF w1(1) wf(2) 2] by blast
    with w1 Inl errs show ?thesis by (intro exI [of _ N]) (auto simp: granted_def)
  next
    case (Inr x)
    define w2 where "w2 = w1\<lparr>v1_ledger := ledger_add i b (v1_ledger w1)\<rparr>"
    have "grant_loop files i es bs w2 = (errs, w')" using Cons.prems(3) 1 Inr by (simp add: w2_def)
    from Cons.IH [OF _ wf(2) this] w1 obtain N where "granted i es (set bs) w2 w' N" "errs = [] \<longrightarrow> N = set bs"
      by (auto simp: w2_def)
    with w1 Inr show ?thesis by (intro exI [of _ "insert b N"]) (auto simp: granted_def w2_def)
  qed
qed

end

section \<open>A whole call\<close>

context v1_kernel
begin

text \<open>
  What a call changes: it denies \<open>D\<close>, forgets \<open>F\<close> and comes to own \<open>N\<close>. A call that returns
  without an error has made \<open>N\<close> the desired bits outside the baseline.
\<close>

definition changed ::
  "identity \<Rightarrow> device_rule list \<Rightarrow> 'k v1world \<Rightarrow> (unit, cgroup_error) result \<Rightarrow> 'k v1world
    \<Rightarrow> dev_bit set \<Rightarrow> dev_bit set \<Rightarrow> dev_bit set \<Rightarrow> bool" where
  "changed i rs w r w' D F N \<longleftrightarrow>
     wild (v1_kern w') = wild (v1_kern w)
     \<and> exact (v1_kern w') = (exact (v1_kern w) - D) \<union> {b \<in> N. \<not> effective (v1_kern w) b}
     \<and> ledger_owned i (v1_ledger w') = (ledger_owned i (v1_ledger w) - (D \<union> F)) \<union> N
     \<and> D \<subseteq> {b \<in> ledger_owned i (v1_ledger w). \<not> base i w b}
     \<and> F \<subseteq> {b \<in> ledger_owned i (v1_ledger w). base i w b}
     \<and> (\<forall>b \<in> N. \<not> base i w b) \<and> D \<inter> N = {}
     \<and> (r = Inr () \<longrightarrow> (\<exists>desired. expand_rules rs = Inr desired \<and> N = {b \<in> desired. \<not> base i w b}
          \<and> D \<union> F = ledger_owned i (v1_ledger w) - N))
     \<and> (\<forall>line e. r = Inl (Revoke line e) \<longrightarrow> N = {})"

lemma changed_nothing:
  assumes "wild (v1_kern w') = wild (v1_kern w)" and "exact (v1_kern w') = exact (v1_kern w)"
    and "v1_ledger w' = v1_ledger w"
  shows "changed i rs w (Inl e) w' {} {} {}"
  using assms by (simp add: changed_def)

lemma verify_rel:
  assumes "invar (v1_kern w)" and "verify files old new fs w = (r, w')"
  shows "invar (v1_kern w') \<and> wild (v1_kern w') = wild (v1_kern w) \<and> exact (v1_kern w') = exact (v1_kern w)
    \<and> v1_ledger w' = v1_ledger w"
proof -
  obtain r1 w1 where 1: "read_list files w = (r1, w1)" by (metis surj_pair)
  have "w' = w1" using assms(2) 1 by (cases r1) (auto simp: verify_def bindS_def map_errS_def Let_def split: if_splits)
  with read_list_rel [OF assms(1) 1] show ?thesis by simp
qed

lemma v1_after_read:
  assumes ok: "v1_ok i w" and es: "lists (wild (v1_kern w)) (exact (v1_kern w)) es"
    and desired: "expand_rules rs = Inr desired" and i64: "\<forall>r \<in> set rs. i64_rule r"
    and new: "new = {b \<in> desired. \<not> covered (without_owned es (ledger_owned i (v1_ledger w))) b}"
    and run: "bindS (revoke_loop files i (without_owned es (ledger_owned i (v1_ledger w))) new
          (sorted_list_of_set (ledger_owned i (v1_ledger w))) {}) (\<lambda>forgotten. \<lambda>w1.
        case grant_loop files i es (sorted_list_of_set new) w1 of (errors, w2) \<Rightarrow>
          (case verify files (ledger_owned i (v1_ledger w)) new forgotten w2 of (rv, w3) \<Rightarrow>
             let errors' = errors @ (case rv of Inl e \<Rightarrow> [e] | Inr _ \<Rightarrow> []) in
             (if errors' = [] then Inr () else Inl (Joined errors'), w3))) w = (r, w')"
  shows "v1_ok i w' \<and> (\<exists>D F N. changed i rs w r w' D F N)"
proof -
  let ?owned = "ledger_owned i (v1_ledger w)" and ?base = "without_owned es (ledger_owned i (v1_ledger w))"
  have inv: "invar (v1_kern w)" and fin: "finite ?owned" and own: "\<forall>b \<in> ?owned. wf_bit b"
    using ok by (auto simp: v1_ok_def)
  have des: "finite desired" "\<forall>b \<in> desired. wf_bit b" using expand_rules_wf [OF desired i64] by auto
  have cov: "covered ?base b = base i w b" if "wf_bit b" for b
    using covered_without_owned [OF es that fin own] by (simp add: base_def)
  have eff: "covered es b = effective (v1_kern w) b" if "wf_bit b" for b
    using covered_lists [OF es that] by (simp add: effective_def)
  have nw: "new = {b \<in> desired. \<not> base i w b}" using new des(2) cov by auto
  have nfin: "finite new" "\<forall>b \<in> new. wf_bit b" using nw des by auto
  obtain r1 w1 where 1: "revoke_loop files i ?base new (sorted_list_of_set ?owned) {} w = (r1, w1)"
    by (metis surj_pair)
  obtain D F where D: "revoked i ?base new ?owned w w1 D F"
    "\<forall>fs. r1 = Inr fs \<longrightarrow> fs = {} \<union> F \<and> D \<union> F = ?owned - new"
    using revoke_loop_rel [OF inv _ 1] fin own by auto
  have DF: "D \<subseteq> {b \<in> ?owned. \<not> base i w b}" "F \<subseteq> {b \<in> ?owned. base i w b}" "D \<inter> new = {}"
    using D(1) own cov by (auto simp: revoked_def)
  show ?thesis
  proof (cases r1)
    case (Inl e)
    with run 1 have "r = Inl e" "w' = w1" by (simp_all add: bindS_def)
    with D(1) DF fin own have "v1_ok i w'" "changed i rs w r w' D F {}"
      by (auto simp: v1_ok_def changed_def revoked_def)
    then show ?thesis by blast
  next
    case (Inr fs)
    obtain errs w2 where 2: "grant_loop files i es (sorted_list_of_set new) w1 = (errs, w2)" by (metis surj_pair)
    obtain rv w3 where 3: "verify files ?owned new fs w2 = (rv, w3)" by (metis surj_pair)
    have inv1: "invar (v1_kern w1)" using D(1) by (simp add: revoked_def)
    obtain N where N: "granted i es new w1 w2 N" "errs = [] \<longrightarrow> N = new"
      using grant_loop_rel [OF inv1 _ 2] nfin by auto
    have inv2: "invar (v1_kern w2)" using N(1) by (simp add: granted_def)
    note v = verify_rel [OF inv2 3]
    have w': "w' = w3" and r: "r = (if errs @ (case rv of Inl e \<Rightarrow> [e] | Inr _ \<Rightarrow> []) = [] then Inr ()
        else Inl (Joined (errs @ (case rv of Inl e \<Rightarrow> [e] | Inr _ \<Rightarrow> []))))"
      using run 1 2 3 Inr by (simp_all add: bindS_def Let_def)
    have Nn: "N \<subseteq> new" "\<forall>b \<in> N. wf_bit b" using N(1) nfin(2) by (auto simp: granted_def)
    have set_eq: "{b \<in> N. \<not> covered es b} = {b \<in> N. \<not> effective (v1_kern w) b}" using Nn(2) eff by auto
    have st: "wild (v1_kern w3) = wild (v1_kern w)"
      "exact (v1_kern w3) = (exact (v1_kern w) - D) \<union> {b \<in> N. \<not> effective (v1_kern w) b}"
      "ledger_owned i (v1_ledger w3) = (?owned - (D \<union> F)) \<union> N"
      using v N(1) D(1) set_eq by (auto simp: granted_def revoked_def)
    have "finite N" using Nn(1) nfin(1) finite_subset by blast
    then have "v1_ok i w3" using v inv2 st(3) fin own Nn by (auto simp: v1_ok_def)
    moreover have "changed i rs w r w3 D F N"
      unfolding changed_def
    proof (intro conjI impI allI)
      assume "r = Inr ()"
      then have "N = new" using r N(2) by (auto split: if_splits)
      with D(2) Inr nw desired show "\<exists>desired. expand_rules rs = Inr desired \<and> N = {b \<in> desired. \<not> base i w b}
          \<and> D \<union> F = ledger_owned i (v1_ledger w) - N" by auto
    qed (use st DF Nn(1) nw r in \<open>auto split: if_splits\<close>)
    ultimately show ?thesis using w' by blast
  qed
qed

lemma v1_outcome:
  assumes ok: "v1_ok i w" and i64: "\<forall>r \<in> set rs. i64_rule r"
    and run: "v1_set_device_rules files i rs w = (r, w')"
  shows "v1_ok i w' \<and> (\<exists>D F N. changed i rs w r w' D F N)"
proof (cases "expand_rules rs")
  case (Inl e)
  with run have "r = Inl e" "w' = w" by (simp_all add: v1_set_device_rules_def bindS_def)
  with ok changed_nothing [of w w] show ?thesis by blast
next
  case (Inr desired)
  obtain r1 w1 where 1: "read_list files w = (r1, w1)" by (metis surj_pair)
  have inv: "invar (v1_kern w)" using ok by (simp add: v1_ok_def)
  note rl = read_list_rel [OF inv 1]
  have ok1: "v1_ok i w1" using ok rl by (simp add: v1_ok_def)
  show ?thesis
  proof (cases r1)
    case r1: (Inl e)
    with run Inr 1 have "r = Inl e" "w' = w1" by (simp_all add: v1_set_device_rules_def bindS_def)
    with ok1 rl changed_nothing [of w1 w] show ?thesis by blast
  next
    case r1: (Inr es)
    have es: "lists (wild (v1_kern w1)) (exact (v1_kern w1)) es" using rl r1 by simp
    have same: "changed i rs w1 r w' D F N = changed i rs w r w' D F N" for D F N
      using rl by (simp add: changed_def base_def effective_def)
    from run Inr 1 r1 v1_after_read [OF ok1 es Inr i64 refl, of r w'] show ?thesis
      unfolding same by (simp add: v1_set_device_rules_def bindS_def [of "liftS _"] bindS_def [of "read_list files"] Let_def)
  qed
qed

end

section \<open>The properties of a call\<close>

definition effective_bit :: "list_entry set \<Rightarrow> dev_bit set \<Rightarrow> dev_bit \<Rightarrow> bool" where
  "effective_bit W E b \<longleftrightarrow> wild_covers W b \<or> b \<in> E"

context v1_kernel
begin

lemma base_effective:
  "base i w b = effective_bit (wild (v1_kern w)) (exact (v1_kern w) - ledger_owned i (v1_ledger w)) b"
  "effective k b = effective_bit (wild k) (exact k) b"
  by (simp_all add: base_def effective_def effective_bit_def)

lemma success_exact:
  assumes "v1_ok i w" and "\<forall>r \<in> set rs. i64_rule r" and "v1_set_device_rules files i rs w = (Inr (), w')"
  shows "\<exists>desired. expand_rules rs = Inr desired \<and> ledger_owned i (v1_ledger w') = {b \<in> desired. \<not> base i w b}
    \<and> (\<forall>b. effective (v1_kern w') b \<longleftrightarrow> base i w b \<or> b \<in> desired)"
proof -
  obtain D F N where c: "changed i rs w (Inr ()) w' D F N" using v1_outcome [OF assms] by blast
  then obtain desired where d: "expand_rules rs = Inr desired" "N = {b \<in> desired. \<not> base i w b}"
    "D \<union> F = ledger_owned i (v1_ledger w) - N" unfolding changed_def by blast
  have k: "wild (v1_kern w') = wild (v1_kern w)"
    "exact (v1_kern w') = (exact (v1_kern w) - D) \<union> {b \<in> N. \<not> effective (v1_kern w) b}"
    "ledger_owned i (v1_ledger w') = (ledger_owned i (v1_ledger w) - (D \<union> F)) \<union> N"
    "D \<subseteq> {b \<in> ledger_owned i (v1_ledger w). \<not> base i w b}" "F \<subseteq> {b \<in> ledger_owned i (v1_ledger w). base i w b}"
    using c by (simp_all add: changed_def)
  have "ledger_owned i (v1_ledger w') = N" using k(3) d(3) by blast
  moreover have "effective (v1_kern w') b \<longleftrightarrow> base i w b \<or> b \<in> desired" for b
  proof -
    let ?o = "b \<in> ledger_owned i (v1_ledger w)"
    have "b \<in> D \<or> b \<in> F \<longleftrightarrow> ?o \<and> b \<notin> N" using d(3) by (metis Diff_iff Un_iff)
    moreover have "b \<in> D \<longrightarrow> ?o \<and> \<not> base i w b" "b \<in> F \<longrightarrow> ?o \<and> base i w b" using k(4,5) by auto
    moreover have "b \<in> N \<longleftrightarrow> b \<in> desired \<and> \<not> base i w b" by (simp add: d(2))
    moreover have "b \<in> exact (v1_kern w') \<longleftrightarrow> b \<in> exact (v1_kern w) \<and> b \<notin> D \<or> b \<in> N \<and> \<not> effective (v1_kern w) b"
      by (simp add: k(2))
    moreover have "base i w b \<longleftrightarrow> wild_covers (wild (v1_kern w)) b \<or> b \<in> exact (v1_kern w) \<and> \<not> ?o"
      by (simp add: base_def)
    ultimately show ?thesis unfolding effective_def k(1) by argo
  qed
  ultimately show ?thesis using d(1,2) by blast
qed

lemma baseline_kept:
  assumes "v1_ok i w" and "\<forall>r \<in> set rs. i64_rule r" and "v1_set_device_rules files i rs w = (r, w')"
  shows "base i w' b = base i w b"
proof -
  obtain D F N where "changed i rs w r w' D F N" using v1_outcome [OF assms] by blast
  then have "wild (v1_kern w') = wild (v1_kern w)"
    "exact (v1_kern w') = (exact (v1_kern w) - D) \<union> {b \<in> N. \<not> effective (v1_kern w) b}"
    "ledger_owned i (v1_ledger w') = (ledger_owned i (v1_ledger w) - (D \<union> F)) \<union> N"
    "D \<subseteq> {b \<in> ledger_owned i (v1_ledger w). \<not> base i w b}" "F \<subseteq> {b \<in> ledger_owned i (v1_ledger w). base i w b}"
    "\<forall>b \<in> N. \<not> base i w b"
    by (simp_all add: changed_def)
  note k = this
  let ?o = "b \<in> ledger_owned i (v1_ledger w)"
  have "b \<in> D \<longrightarrow> ?o \<and> \<not> base i w b" "b \<in> F \<longrightarrow> ?o \<and> base i w b" "b \<in> N \<longrightarrow> \<not> base i w b"
    using k(4-6) by auto
  moreover have "b \<in> exact (v1_kern w') \<longleftrightarrow> b \<in> exact (v1_kern w) \<and> b \<notin> D \<or> b \<in> N \<and> \<not> effective (v1_kern w) b"
    by (simp add: k(2))
  moreover have "b \<in> ledger_owned i (v1_ledger w') \<longleftrightarrow> ?o \<and> b \<notin> D \<and> b \<notin> F \<or> b \<in> N" by (simp add: k(3))
  moreover have "base i w b \<longleftrightarrow> wild_covers (wild (v1_kern w)) b \<or> b \<in> exact (v1_kern w) \<and> \<not> ?o"
    by (simp add: base_def)
  moreover have "base i w' b \<longleftrightarrow> wild_covers (wild (v1_kern w)) b
      \<or> b \<in> exact (v1_kern w') \<and> b \<notin> ledger_owned i (v1_ledger w')"
    by (simp add: base_def k(1))
  ultimately show ?thesis by argo
qed

lemma owned_exact:
  assumes "v1_ok i w" and "\<forall>r \<in> set rs. i64_rule r" and "v1_set_device_rules files i rs w = (r, w')"
    and "ledger_owned i (v1_ledger w) \<subseteq> exact (v1_kern w)"
  shows "ledger_owned i (v1_ledger w') \<subseteq> exact (v1_kern w')"
proof -
  obtain D F N where c: "changed i rs w r w' D F N" using v1_outcome [OF assms(1-3)] by blast
  then have k: "exact (v1_kern w') = (exact (v1_kern w) - D) \<union> {b \<in> N. \<not> effective (v1_kern w) b}"
    "ledger_owned i (v1_ledger w') = (ledger_owned i (v1_ledger w) - (D \<union> F)) \<union> N"
    and n: "\<forall>b \<in> N. \<not> base i w b" "D \<inter> N = {}"
    by (simp_all add: changed_def)
  have "b \<in> exact (v1_kern w')" if "b \<in> N" for b
    using that n k(1) by (auto simp: base_def effective_def)
  with k assms(4) show ?thesis by blast
qed

lemma failed_revoke:
  assumes "v1_ok i w" and "\<forall>r \<in> set rs. i64_rule r" and "v1_set_device_rules files i rs w = (Inl (Revoke line e), w')"
  shows "exact (v1_kern w') \<subseteq> exact (v1_kern w)"
proof -
  obtain D F N where "changed i rs w (Inl (Revoke line e)) w' D F N" using v1_outcome [OF assms] by blast
  then have "exact (v1_kern w') = (exact (v1_kern w) - D) \<union> {b \<in> N. \<not> effective (v1_kern w) b}" "N = {}"
    by (simp_all add: changed_def)
  then show ?thesis by blast
qed

end

text \<open>
  C4. A cgroup v1 call that succeeds makes exactly the baseline and the rules effective, and
  records as owned exactly the bits of the rules that the baseline does not give.
\<close>

theorem v1_sets_exactly:
  assumes "v1_kernel files wild exact invar" and "invar (v1_kern w)"
    and "finite (ledger_owned i (v1_ledger w))" and "\<forall>b \<in> ledger_owned i (v1_ledger w). wf_bit b"
    and "\<forall>r \<in> set rs. i64_rule r" and "v1_set_device_rules files i rs w = (Inr (), w')"
    and "baseline = effective_bit (wild (v1_kern w)) (exact (v1_kern w) - ledger_owned i (v1_ledger w))"
  shows "\<exists>desired. expand_rules rs = Inr desired
    \<and> ledger_owned i (v1_ledger w') = {b \<in> desired. \<not> baseline b}
    \<and> (\<forall>b. effective_bit (wild (v1_kern w')) (exact (v1_kern w')) b \<longleftrightarrow> baseline b \<or> b \<in> desired)"
proof -
  note loc = assms(1)
  have "v1_kernel.v1_ok invar i w" using assms(2-4) by (simp add: v1_kernel.v1_ok_def [OF loc])
  from v1_kernel.success_exact [OF loc this assms(5,6)] show ?thesis
    unfolding assms(7) by (simp add: v1_kernel.base_effective [OF loc])
qed

text \<open>
  C12. Whatever fails in a call, what is effective without the daemon's own bits stays exactly
  what it was: no exception of the runtime is ever revoked, and none is ever taken for one of
  the daemon's.
\<close>

theorem v1_keeps_baseline:
  assumes "v1_kernel files wild exact invar" and "invar (v1_kern w)"
    and "finite (ledger_owned i (v1_ledger w))" and "\<forall>b \<in> ledger_owned i (v1_ledger w). wf_bit b"
    and "\<forall>r \<in> set rs. i64_rule r" and "v1_set_device_rules files i rs w = (r, w')"
  shows "effective_bit (wild (v1_kern w')) (exact (v1_kern w') - ledger_owned i (v1_ledger w')) b
    \<longleftrightarrow> effective_bit (wild (v1_kern w)) (exact (v1_kern w) - ledger_owned i (v1_ledger w)) b"
proof -
  note loc = assms(1)
  have "v1_kernel.v1_ok invar i w" using assms(2-4) by (simp add: v1_kernel.v1_ok_def [OF loc])
  from v1_kernel.baseline_kept [OF loc this assms(5,6)] show ?thesis
    by (simp add: v1_kernel.base_effective [OF loc])
qed

text \<open>
  C23. The ledger is an invariant of every call, failed or not: it stays a finite set of
  concrete single bits, each of which is an exact exception of the cgroup.
\<close>

theorem v1_ledger_invariant:
  assumes "v1_kernel files wild exact invar" and "invar (v1_kern w)"
    and "finite (ledger_owned i (v1_ledger w))" and "\<forall>b \<in> ledger_owned i (v1_ledger w). wf_bit b"
    and "\<forall>r \<in> set rs. i64_rule r" and "v1_set_device_rules files i rs w = (r, w')"
    and "ledger_owned i (v1_ledger w) \<subseteq> exact (v1_kern w)"
  shows "finite (ledger_owned i (v1_ledger w')) \<and> (\<forall>b \<in> ledger_owned i (v1_ledger w'). wf_bit b)
    \<and> ledger_owned i (v1_ledger w') \<subseteq> exact (v1_kern w')"
proof -
  note loc = assms(1)
  have ok: "v1_kernel.v1_ok invar i w" using assms(2-4) by (simp add: v1_kernel.v1_ok_def [OF loc])
  from v1_kernel.v1_outcome [OF loc ok assms(5,6)] v1_kernel.owned_exact [OF loc ok assms(5-7)]
  show ?thesis by (simp add: v1_kernel.v1_ok_def [OF loc])
qed


end
