(* ===== verification/V1model.thy ===== *)
theory V1model
  imports V1_Correct
begin

text \<open>
  The model of the kernel behind a cgroup v1 directory in \<open>src/src/cgroup/v1set/tests.rs\<close>, and
  the round trip of \<open>devices.list\<close> it rests on. The model keeps the contract \<open>v1_kernel\<close>.
\<close>

section \<open>Printing an entry\<close>

definition number_field :: "int \<Rightarrow> string" where
  "number_field v = (if v = WILDCARD then ''*'' else show_int v)"

definition format_entry :: "list_entry \<Rightarrow> string" where
  "format_entry e =
     [le_kind e] @ '' '' @ number_field (le_major e) @ '':'' @ number_field (le_minor e) @ '' ''
       @ access_string (le_access e)"

definition wf_entry :: "list_entry \<Rightarrow> bool" where
  "wf_entry e \<longleftrightarrow> le_kind e \<in> {CHR ''a'', CHR ''b'', CHR ''c''}
     \<and> I64_MIN \<le> le_major e \<and> le_major e \<le> I64_MAX \<and> I64_MIN \<le> le_minor e \<and> le_minor e \<le> I64_MAX
     \<and> le_access e \<noteq> 0 \<and> le_access e < 8"

text \<open>Characters that no separator or blank is.\<close>

definition plain_char :: "char \<Rightarrow> bool" where
  "plain_char c \<longleftrightarrow> byte_of c < 0x80 \<and> \<not> is_whitespace [c] \<and> c \<noteq> CHR '':''"

lemma whitespace_ascii: "byte_of c < 0x80 \<Longrightarrow> is_whitespace [c] \<longleftrightarrow> byte_of c \<in> {9, 10, 11, 12, 13, 32}"
  by (auto simp: is_whitespace_def)

lemma plain_digit: "is_digit c \<Longrightarrow> plain_char c"
  by (auto simp: plain_char_def whitespace_ascii is_digit_def)

lemma plain_number: "c \<in> set (number_field v) \<Longrightarrow> plain_char c"
  by (auto simp: number_field_def show_int_def plain_char_def whitespace_ascii is_digit_def
      dest!: show_nat_digits split: if_splits)

lemma number_field_nonempty [simp]: "number_field v \<noteq> []"
  by (simp add: number_field_def show_int_def)

lemma parse_star: "parse_i64 ''*'' = Inl InvalidDigit"
  by (simp add: parse_i64_def is_digit_def)

lemma parse_number_field:
  "I64_MIN \<le> v \<Longrightarrow> v \<le> I64_MAX \<Longrightarrow> parse_num (number_field v) = Inr v"
  using parse_show_int [of v] parse_star
  by (auto simp: parse_num_def number_field_def)

lemma access_words:
  assumes "acc < (8 :: u8)" and "acc \<noteq> 0"
  shows "acc \<in> {1, 2, 3, 4, 5, 6, 7}"
proof -
  have "unat acc < 8" using assms(1) by (simp add: word_less_nat_alt)
  moreover have "unat acc \<noteq> 0" using assms(2) by (simp add: unat_eq_0)
  ultimately have "unat acc \<in> {1, 2, 3, 4, 5, 6, 7}" by auto
  moreover have "acc = word_of_nat (unat acc)" by simp
  ultimately show ?thesis by (metis (no_types, lifting) insert_iff of_nat_1 of_nat_numeral singletonD)
qed

lemma access_string_table:
  "access_string 1 = ''r''" "access_string 2 = ''w''" "access_string 3 = ''rw''" "access_string 4 = ''m''"
  "access_string 5 = ''rm''" "access_string 6 = ''wm''" "access_string 7 = ''rwm''"
  by (simp_all add: access_string_def v1_bits)

lemma access_string_chars:
  assumes "acc < (8 :: u8)" and "acc \<noteq> 0"
  shows "access_string acc \<noteq> []" and "\<forall>c \<in> set (access_string acc). plain_char c"
    and "parse_access_letters (access_string acc) = Inr acc"
  using access_words [OF assms]
  by (auto simp: access_string_table plain_char_def whitespace_ascii parse_access_letters_def chars_ascii v1_bits)

section \<open>The round trip of the list\<close>

lemma trim_plain:
  assumes "s \<noteq> []" and "ascii s" and "\<not> is_whitespace [hd s]" and "\<not> is_whitespace [last s]"
  shows "trim s = s"
proof -
  have "dropWhile is_whitespace (map (\<lambda>c. [c]) s) = map (\<lambda>c. [c]) s"
    using assms(1,3) by (cases s) auto
  moreover have "dropWhile is_whitespace (rev (map (\<lambda>c. [c]) s)) = rev (map (\<lambda>c. [c]) s)"
    using assms(1,4) by (cases s rule: rev_cases) auto
  ultimately show ?thesis
    by (simp add: trim_def chars_ascii [OF assms(2)] concat_map_singleton [of id, simplified])
qed

lemma split_line:
  assumes "plain_char k" and "numbers \<noteq> []" and "\<forall>c \<in> set numbers. byte_of c < 0x80 \<and> \<not> is_whitespace [c]"
    and "acc \<noteq> []" and "\<forall>c \<in> set acc. plain_char c"
  shows "split_whitespace ([k] @ '' '' @ numbers @ '' '' @ acc) = [[k], numbers, acc]"
proof -
  have asc: "ascii ([k] @ '' '' @ numbers @ '' '' @ acc)"
    using assms by (auto simp: ascii_def plain_char_def)
  have blank: "is_whitespace '' ''" by (simp add: whitespace_ascii)
  have "words ([[k]] @ '' '' # map (\<lambda>c. [c]) numbers @ '' '' # map (\<lambda>c. [c]) acc) = [[k], numbers, acc]"
    using words_Cons(1) [of "[k]" "CHR '' ''"] words_Cons(1) [of numbers "CHR '' ''"]
      words_Cons(2) [of acc "CHR '' ''"] assms blank
    by (simp add: plain_char_def)
  then show ?thesis unfolding split_whitespace_def chars_ascii [OF asc] by simp
qed

lemma format_entry_chars:
  assumes "wf_entry e"
  shows "ascii (format_entry e)" and "CHR ''\<newline>'' \<notin> set (format_entry e)"
    and "\<not> is_whitespace [hd (format_entry e)]" and "\<not> is_whitespace [last (format_entry e)]"
proof -
  have acc: "le_access e < 8" "le_access e \<noteq> 0" using assms by (simp_all add: wf_entry_def)
  note a = access_string_chars [OF acc]
  have k: "plain_char (le_kind e)" using assms by (auto simp: wf_entry_def plain_char_def whitespace_ascii)
  have nl: "\<not> plain_char CHR ''\<newline>''" by (simp add: plain_char_def whitespace_ascii)
  show "ascii (format_entry e)"
    using a(2) k plain_number by (auto simp: format_entry_def ascii_def plain_char_def)
  show "CHR ''\<newline>'' \<notin> set (format_entry e)"
    using a(2) k plain_number nl by (auto simp: format_entry_def)
  show "\<not> is_whitespace [hd (format_entry e)]" using k by (simp add: format_entry_def plain_char_def)
  have "last (format_entry e) \<in> set (access_string (le_access e))" using a(1) by (simp add: format_entry_def)
  with a(2) show "\<not> is_whitespace [last (format_entry e)]" by (simp add: plain_char_def)
qed

lemma parse_format_line:
  assumes "wf_entry e"
  shows "parse_list_line (format_entry e) = Inr (Some e)"
proof -
  note fc = format_entry_chars [OF assms]
  have acc: "le_access e < 8" "le_access e \<noteq> 0" using assms by (simp_all add: wf_entry_def)
  note a = access_string_chars [OF acc]
  let ?n = "number_field (le_major e) @ '':'' @ number_field (le_minor e)"
  have k: "plain_char (le_kind e)" using assms by (auto simp: wf_entry_def plain_char_def whitespace_ascii)
  have tr: "trim (from_utf8_lossy (format_entry e)) = format_entry e"
    using fc trim_plain [of "format_entry e"] by (simp add: from_utf8_lossy_ascii) (simp add: format_entry_def)
  have "\<forall>c \<in> set ?n. byte_of c < 0x80 \<and> \<not> is_whitespace [c]"
    using plain_number by (auto simp: plain_char_def whitespace_ascii)
  from split_line [OF k _ this a(1,2)]
  have sp: "split_whitespace (format_entry e) = [[le_kind e], ?n, access_string (le_access e)]"
    by (simp add: format_entry_def)
  have colon: "CHR '':'' \<notin> set (number_field v)" for v using plain_number [of "CHR '':''" v] by (auto simp: plain_char_def)
  have "split_on CHR '':'' ?n = [number_field (le_major e), number_field (le_minor e)]"
    using colon by (simp add: split_on_append split_on_none)
  with assms sp tr a(3) show ?thesis
    by (auto simp: parse_list_line_def wf_entry_def parse_number_field format_entry_def [of e])
qed

lemma show_nat_length: "n < 10 ^ Suc k \<Longrightarrow> length (show_nat n) \<le> Suc k"
proof (induction k arbitrary: n)
  case 0
  then show ?case by (simp add: show_nat_def show_base.simps [of 10 n])
next
  case (Suc k)
  have "n div 10 < 10 ^ Suc k" using Suc.prems by (simp add: div_less_iff_less_mult)
  from Suc.IH [OF this] show ?case by (simp add: show_nat_def show_base.simps [of 10 n])
qed

lemma number_field_length:
  assumes "I64_MIN \<le> v" and "v \<le> I64_MAX"
  shows "length (number_field v) \<le> 20"
proof -
  have "nat v < 10 ^ Suc 18" "nat (- v) < 10 ^ Suc 18"
    using assms by (simp_all add: I64_MIN_def I64_MAX_def nat_less_iff)
  from this [THEN show_nat_length] show ?thesis by (auto simp: number_field_def show_int_def)
qed

lemma format_entry_short:
  assumes "wf_entry e"
  shows "length (format_entry e) < MAX_LINE"
proof -
  have "length (access_string (le_access e)) \<le> 3"
    unfolding access_string_def length_map by (rule order_trans [OF length_filter_le]) simp
  moreover have "length (number_field (le_major e)) \<le> 20" "length (number_field (le_minor e)) \<le> 20"
    using assms number_field_length by (simp_all add: wf_entry_def)
  ultimately show ?thesis by (simp add: format_entry_def MAX_LINE_def)
qed

lemma parse_format_lines:
  assumes "\<forall>e \<in> set es. wf_entry e"
  shows "parse_devices_list (concat (map (\<lambda>e. format_entry e @ ''\<newline>'') es)) = Inr es"
  using assms
proof (induction es)
  case Nil
  then show ?case by (simp add: parse_devices_list_def)
next
  case (Cons e es)
  have wf: "wf_entry e" using Cons.prems by simp
  have "last (format_entry e) \<noteq> CHR 0x0D"
    using format_entry_chars(4) [OF wf] by (auto simp: whitespace_ascii)
  then have "strip_cr (format_entry e) = format_entry e" by (simp add: strip_cr_def)
  with lines_Cons [OF format_entry_chars(2) [OF wf] format_entry_short [OF wf]]
  have "lines (concat (map (\<lambda>e. format_entry e @ ''\<newline>'') (e # es))) =
      Inr (format_entry e) # lines (concat (map (\<lambda>e. format_entry e @ ''\<newline>'') es))"
    by simp
  with Cons parse_format_line [OF wf] show ?case by (simp add: parse_devices_list_def)
qed

section \<open>The model of the kernel\<close>

record v1_model =
  m_entries :: "list_entry list"
  m_fail :: "string set"
  m_ignore_writes :: bool
  m_writes :: "string list"

text \<open>The error that is injected: it has no errno.\<close>

definition injected :: errno where "injected = 0"

definition model_new :: "list_entry list \<Rightarrow> v1_model" where
  "model_new es = \<lparr>m_entries = es, m_fail = {}, m_ignore_writes = False, m_writes = []\<rparr>"

definition model_list :: "v1_model \<Rightarrow> string" where
  "model_list s = concat (map (\<lambda>e. format_entry e @ ''\<newline>'') (m_entries s))"

definition same_device :: "list_entry \<Rightarrow> list_entry \<Rightarrow> bool" where
  "same_device a b \<longleftrightarrow> le_kind a = le_kind b \<and> le_major a = le_major b \<and> le_minor a = le_minor b"

definition apply_entry :: "bool \<Rightarrow> list_entry \<Rightarrow> list_entry list \<Rightarrow> list_entry list" where
  "apply_entry allowed r es =
     (case (allowed, find_index (\<lambda>e. same_device e r) es) of
        (True, None) \<Rightarrow> es @ [r]
      | (True, Some i) \<Rightarrow> es[i := (es ! i)\<lparr>le_access := le_access (es ! i) OR le_access r\<rparr>]
      | (False, Some i) \<Rightarrow>
          (let acc = le_access (es ! i) AND NOT (le_access r) in
           if acc = 0 then take i es @ drop (Suc i) es else es[i := (es ! i)\<lparr>le_access := acc\<rparr>])
      | (False, None) \<Rightarrow> es)"

text \<open>A line that is not one entry makes the model panic; the controller writes none.\<close>

definition model_apply :: "bool \<Rightarrow> string \<Rightarrow> v1_model \<Rightarrow> v1_model" where
  "model_apply allowed line s =
     (case parse_devices_list line of
        Inr [r] \<Rightarrow> s\<lparr>m_entries := apply_entry allowed r (m_entries s)\<rparr>
      | _ \<Rightarrow> s)"

text \<open>The controller reads only \<open>devices.list\<close>.\<close>

definition model_read :: "string \<Rightarrow> (v1_model, string, file_error) call" where
  "model_read name s =
     (if ''read'' \<in> m_fail s then (Inl (FileOpen name injected), s) else (Inr (model_list s), s))"

definition model_write :: "string \<Rightarrow> string \<Rightarrow> (v1_model, unit, file_error) call" where
  "model_write name line s =
     (let verb = (if name = DEVICES_ALLOW then ''allow'' else ''deny'');
          call = verb @ '' '' @ line;
          s1 = s\<lparr>m_writes := m_writes s @ [call]\<rparr>
      in if call \<in> m_fail s1 then (Inl (FileWrite line name injected), s1)
         else (Inr (), if m_ignore_writes s1 then s1 else model_apply (name = DEVICES_ALLOW) line s1))"

definition model_files :: "v1_model v1files" where
  "model_files = \<lparr>f_read = model_read, f_write = model_write\<rparr>"

section \<open>The model keeps the contract\<close>

definition model_wild :: "v1_model \<Rightarrow> list_entry set" where
  "model_wild s = {e \<in> set (m_entries s). \<not> is_exact e}"

definition exact_bits :: "list_entry list \<Rightarrow> dev_bit set" where
  "exact_bits es = {b. wf_bit b \<and> (\<exists>e \<in> set es. is_exact e \<and> covers e b)}"

definition device_key :: "list_entry \<Rightarrow> char \<times> int \<times> int" where
  "device_key e = (le_kind e, le_major e, le_minor e)"

definition entries_wf :: "list_entry list \<Rightarrow> bool" where
  "entries_wf es \<longleftrightarrow> (\<forall>e \<in> set es. wf_entry e) \<and> distinct (map device_key es)"

definition model_invar :: "v1_model \<Rightarrow> bool" where
  "model_invar s \<longleftrightarrow> \<not> m_ignore_writes s \<and> entries_wf (m_entries s)"

definition bit_entry :: "dev_bit \<Rightarrow> list_entry" where
  "bit_entry b = \<lparr>le_kind = bit_kind b, le_major = bit_major b, le_minor = bit_minor b, le_access = bit_access b\<rparr>"

lemma access_bits_small: "x \<in> set ACCESS_BITS \<Longrightarrow> x \<noteq> 0 \<and> x < 8"
  by (auto simp: ACCESS_BITS_def v1_bits)

lemma bit_entry_wf: "wf_bit b \<Longrightarrow> wf_entry (bit_entry b) \<and> is_exact (bit_entry b)"
  using access_bits_small [of "bit_access b"]
  by (auto simp: wf_bit_def wf_entry_def bit_entry_def is_exact_def I64_MIN_def WILDCARD_def)

lemma bit_line_format: "wf_bit b \<Longrightarrow> bit_line b = format_entry (bit_entry b)"
  by (auto simp: wf_bit_def bit_line_def format_entry_def bit_entry_def number_field_def WILDCARD_def)

lemma parse_bit_line:
  assumes "wf_bit b"
  shows "parse_devices_list (bit_line b) = Inr [bit_entry b]"
proof -
  have wf: "wf_entry (bit_entry b)" using bit_entry_wf [OF assms] by simp
  have "last (format_entry (bit_entry b)) \<noteq> CHR 0x0D"
    using format_entry_chars(4) [OF wf] by (auto simp: whitespace_ascii)
  then have "strip_cr (format_entry (bit_entry b)) = format_entry (bit_entry b)" by (simp add: strip_cr_def)
  moreover have "format_entry (bit_entry b) \<noteq> []" by (simp add: format_entry_def)
  ultimately have "lines (bit_line b) = [Inr (format_entry (bit_entry b))]"
    unfolding bit_line_format [OF assms]
    using lines_last [OF _ format_entry_chars(2) [OF wf] format_entry_short [OF wf]] by simp
  with parse_format_line [OF wf] show ?thesis by (simp add: parse_devices_list_def)
qed

lemma covers_exact:
  "is_exact e \<Longrightarrow> covers e b \<longleftrightarrow> device_key e = device_key (bit_entry b) \<and> le_access e AND bit_access b \<noteq> 0"
  by (auto simp: covers_def is_exact_def device_key_def bit_entry_def)

lemma same_device_key: "same_device e r \<longleftrightarrow> device_key e = device_key r"
  by (simp add: same_device_def device_key_def)

lemma access_or:
  assumes "x \<in> set ACCESS_BITS" and "y \<in> set ACCESS_BITS"
  shows "(acc OR x) AND y \<noteq> 0 \<longleftrightarrow> acc AND y \<noteq> 0 \<or> x = y"
proof -
  obtain m n where x: "m < 3" "x = 2 ^ m" and y: "n < 3" "y = 2 ^ n"
    using assms by (auto simp: access_bit_exp)
  have "bit x n \<longleftrightarrow> m = n" using x y by (auto simp: bit_simps)
  then show ?thesis
    using access_exp_inj [OF x(1) y(1)] unfolding x(2) y(2) access_bit_test by (auto simp: bit_simps)
qed

lemma access_or_small:
  assumes "acc < (8 :: u8)" and "x \<in> set ACCESS_BITS"
  shows "acc OR x < 8" and "acc OR x \<noteq> 0"
proof -
  have x: "x \<in> {1, 2, 4}" using assms(2) by (auto simp: ACCESS_BITS_def v1_bits)
  have "acc = 0 \<or> acc \<in> {1, 2, 3, 4, 5, 6, 7}" using access_words [OF assms(1)] by blast
  with x show "acc OR x < 8" and "acc OR x \<noteq> 0" by auto
qed

text \<open>The entry of a device, replaced.\<close>

lemma update_entry:
  assumes "distinct (map device_key es)" and "i < length es" and "device_key e' = device_key (es ! i)"
  shows "distinct (map device_key (es[i := e']))" and "set (es[i := e']) = insert e' (set es - {es ! i})"
proof -
  have "map device_key (es[i := e']) = map device_key es"
    using assms(2,3) by (simp add: map_update) (metis length_map list_update_id nth_map)
  with assms(1) show "distinct (map device_key (es[i := e']))" by simp
  show "set (es[i := e']) = insert e' (set es - {es ! i})"
    using assms(1,2) by (simp add: set_update_distinct distinct_map)
qed

lemma remove_entry:
  assumes "distinct (map device_key es)" and "i < length es"
  shows "distinct (map device_key (take i es @ drop (Suc i) es))"
    and "set (take i es @ drop (Suc i) es) = set es - {es ! i}"
proof -
  have es: "es = take i es @ es ! i # drop (Suc i) es" using assms(2) by (rule id_take_nth_drop)
  have d: "distinct (map device_key (take i es @ es ! i # drop (Suc i) es))" using assms(1) es by simp
  then show "distinct (map device_key (take i es @ drop (Suc i) es))" by auto
  have "distinct (take i es @ es ! i # drop (Suc i) es)" using d by (simp only: distinct_map)
  then have "set (take i es @ drop (Suc i) es) = set (take i es @ es ! i # drop (Suc i) es) - {es ! i}" by auto
  then show "set (take i es @ drop (Suc i) es) = set es - {es ! i}" using es by simp
qed

lemma key_unique:
  "distinct (map device_key es) \<Longrightarrow> a \<in> set es \<Longrightarrow> b \<in> set es \<Longrightarrow> device_key a = device_key b \<Longrightarrow> a = b"
  by (meson distinct_map inj_onD)

lemma exact_bits_set: "set es' = insert e (set es) \<Longrightarrow> is_exact e \<Longrightarrow>
    exact_bits es' = exact_bits es \<union> {b. wf_bit b \<and> covers e b}"
  by (auto simp: exact_bits_def)

lemma exact_bits_split:
  assumes "e \<in> set es" and "is_exact e"
  shows "exact_bits es = {b. wf_bit b \<and> (\<exists>e' \<in> set es - {e}. is_exact e' \<and> covers e' b)} \<union> {b. wf_bit b \<and> covers e b}"
  using assms by (auto simp: exact_bits_def)

lemma bits_of_entry:
  assumes "wf_bit b"
  shows "{c. wf_bit c \<and> covers (bit_entry b) c} = {b}"
proof -
  have "covers (bit_entry b) c \<longleftrightarrow> c = b" if "wf_bit c" for c
  proof -
    have acc: "bit_access b \<in> set ACCESS_BITS" "bit_access c \<in> set ACCESS_BITS"
      using assms that by (auto simp: wf_bit_def)
    have "covers (bit_entry b) c \<longleftrightarrow> device_key (bit_entry b) = device_key (bit_entry c) \<and> bit_access b AND bit_access c \<noteq> 0"
      using bit_entry_wf [OF assms] by (simp add: covers_exact) (simp add: bit_entry_def)
    also have "bit_access b AND bit_access c \<noteq> 0 \<longleftrightarrow> bit_access b = bit_access c"
      using access_or [OF acc, of 0] by simp
    finally show ?thesis by (cases b; cases c) (auto simp: device_key_def bit_entry_def)
  qed
  with assms show ?thesis by auto
qed

lemma apply_allow:
  assumes wf: "entries_wf es" and b: "wf_bit b"
  shows "entries_wf (apply_entry True (bit_entry b) es)"
    and "{e \<in> set (apply_entry True (bit_entry b) es). \<not> is_exact e} = {e \<in> set es. \<not> is_exact e}"
    and "exact_bits (apply_entry True (bit_entry b) es) = insert b (exact_bits es)"
proof -
  note be = bit_entry_wf [OF b]
  let ?es = "apply_entry True (bit_entry b) es"
  have "entries_wf ?es \<and> {e \<in> set ?es. \<not> is_exact e} = {e \<in> set es. \<not> is_exact e}
      \<and> exact_bits ?es = insert b (exact_bits es)"
  proof (cases "find_index (\<lambda>e. same_device e (bit_entry b)) es")
    case None
    then have "\<forall>e \<in> set es. device_key e \<noteq> device_key (bit_entry b)"
      by (simp add: find_index_None same_device_key)
    moreover have es: "?es = es @ [bit_entry b]" using None by (simp add: apply_entry_def)
    ultimately have "entries_wf ?es" using wf be by (auto simp: entries_wf_def)
    moreover have "exact_bits ?es = insert b (exact_bits es)"
      using exact_bits_set [of ?es "bit_entry b" es] be bits_of_entry [OF b] es by auto
    ultimately show ?thesis using be es by auto
  next
    case (Some i)
    then have i: "i < length es" "device_key (es ! i) = device_key (bit_entry b)"
      by (auto dest: find_index_Some simp: same_device_key)
    define e where "e = (es ! i)\<lparr>le_access := le_access (es ! i) OR bit_access b\<rparr>"
    have es: "?es = es[i := e]" using Some by (simp add: apply_entry_def e_def bit_entry_def)
    have key: "device_key e = device_key (es ! i)" by (simp add: e_def device_key_def)
    have dist: "distinct (map device_key es)" using wf by (simp add: entries_wf_def)
    note u = update_entry [OF dist i(1) key]
    have ex: "is_exact (es ! i)" "is_exact e"
      using i(2) key be by (auto simp: is_exact_def device_key_def)
    have acc: "bit_access b \<in> set ACCESS_BITS" using b by (simp add: wf_bit_def)
    have "wf_entry (es ! i)" using wf i(1) by (simp add: entries_wf_def)
    then have "wf_entry e" using access_or_small [OF _ acc] by (auto simp: wf_entry_def e_def)
    then have "entries_wf ?es" using wf u unfolding es entries_wf_def by auto
    moreover have "{c. wf_bit c \<and> covers e c} = insert b {c. wf_bit c \<and> covers (es ! i) c}"
    proof -
      have "covers e c \<longleftrightarrow> covers (es ! i) c \<or> c = b" if "wf_bit c" for c
      proof -
        have c: "bit_access c \<in> set ACCESS_BITS" using that by (simp add: wf_bit_def)
        have "c = b \<longleftrightarrow> device_key (bit_entry b) = device_key (bit_entry c) \<and> bit_access b = bit_access c"
          by (cases b; cases c) (auto simp: device_key_def bit_entry_def)
        with access_or [OF acc c, of "le_access (es ! i)"] ex key i(2) show ?thesis
          by (auto simp: covers_exact) (simp_all add: e_def)
      qed
      with b show ?thesis by auto
    qed
    moreover have "es ! i \<in> set es" "e \<in> set ?es" using i(1) u(2) es by auto
    moreover have "{e' \<in> set ?es - {e}. is_exact e'} = {e' \<in> set es - {es ! i}. is_exact e'}"
    proof -
      have "e \<notin> set es - {es ! i}" using key_unique [OF dist, of e "es ! i"] i(1) key by auto
      then show ?thesis unfolding es u(2) by auto
    qed
    ultimately have "exact_bits ?es = insert b (exact_bits es)"
      using exact_bits_split [of e ?es] exact_bits_split [of "es ! i" es] ex by auto
    with \<open>entries_wf ?es\<close> show ?thesis using ex unfolding es u(2) by auto
  qed
  then show "entries_wf ?es" and "{e \<in> set ?es. \<not> is_exact e} = {e \<in> set es. \<not> is_exact e}"
    and "exact_bits ?es = insert b (exact_bits es)" by blast+
qed

lemma apply_deny:
  assumes wf: "entries_wf es" and b: "wf_bit b"
  shows "entries_wf (apply_entry False (bit_entry b) es)"
    and "{e \<in> set (apply_entry False (bit_entry b) es). \<not> is_exact e} = {e \<in> set es. \<not> is_exact e}"
    and "exact_bits (apply_entry False (bit_entry b) es) = exact_bits es - {b}"
proof -
  note be = bit_entry_wf [OF b]
  let ?es = "apply_entry False (bit_entry b) es"
  have dist: "distinct (map device_key es)" using wf by (simp add: entries_wf_def)
  have "entries_wf ?es \<and> {e \<in> set ?es. \<not> is_exact e} = {e \<in> set es. \<not> is_exact e}
      \<and> exact_bits ?es = exact_bits es - {b}"
  proof (cases "find_index (\<lambda>e. same_device e (bit_entry b)) es")
    case None
    then have "\<forall>e \<in> set es. device_key e \<noteq> device_key (bit_entry b)"
      by (simp add: find_index_None same_device_key)
    then have "b \<notin> exact_bits es" by (auto simp: exact_bits_def covers_exact)
    moreover have "?es = es" using None by (simp add: apply_entry_def)
    ultimately show ?thesis using wf by auto
  next
    case (Some i)
    then have i: "i < length es" "device_key (es ! i) = device_key (bit_entry b)"
      by (auto dest: find_index_Some simp: same_device_key)
    define e where "e = (es ! i)\<lparr>le_access := le_access (es ! i) AND NOT (bit_access b)\<rparr>"
    have ex: "is_exact (es ! i)" "is_exact e" and key: "device_key e = device_key (es ! i)"
      using i(2) be by (auto simp: is_exact_def device_key_def e_def)
    have other: "\<not> covers e' b" if "e' \<in> set es - {es ! i}" "is_exact e'" for e'
      using that key_unique [OF dist, of e' "es ! i"] i by (auto simp: covers_exact)
    have acc: "bit_access b \<in> set ACCESS_BITS" using b by (simp add: wf_bit_def)
    have cov: "covers e c \<longleftrightarrow> covers (es ! i) c \<and> c \<noteq> b" if "wf_bit c" for c
    proof -
      have c: "bit_access c \<in> set ACCESS_BITS" using that by (simp add: wf_bit_def)
      have "c = b \<longleftrightarrow> device_key (bit_entry b) = device_key (bit_entry c) \<and> bit_access b = bit_access c"
        by (cases b; cases c) (auto simp: device_key_def bit_entry_def)
      with access_clear [OF acc c, of "le_access (es ! i)"] ex key i(2) show ?thesis
        by (auto simp: covers_exact) (simp_all add: e_def)
    qed
    have wfi: "wf_entry (es ! i)" using wf i(1) by (simp add: entries_wf_def)
    have rest: "exact_bits es - {b} = {c. wf_bit c \<and> (\<exists>e' \<in> set es - {es ! i}. is_exact e' \<and> covers e' c)}
        \<union> {c. wf_bit c \<and> covers e c}"
      using exact_bits_split [of "es ! i" es] i(1) ex(1) other cov b by auto
    show ?thesis
    proof (cases "le_access e = 0")
      case True
      then have es: "?es = take i es @ drop (Suc i) es"
        using Some by (simp add: apply_entry_def e_def bit_entry_def Let_def)
      have "{c. wf_bit c \<and> covers e c} = {}" using True ex(2) by (simp add: covers_exact)
      moreover note r = remove_entry [OF dist i(1)]
      ultimately have "exact_bits ?es = exact_bits es - {b}"
        unfolding rest es by (auto simp: exact_bits_def r(2) simp del: set_append)
      moreover have "entries_wf ?es" using wf r unfolding es entries_wf_def by auto
      ultimately show ?thesis using ex unfolding es r(2) by auto
    next
      case False
      then have es: "?es = es[i := e]"
        using Some by (simp add: apply_entry_def e_def bit_entry_def Let_def)
      note u = update_entry [OF dist i(1) key]
      have "e \<notin> set es - {es ! i}" using key_unique [OF dist, of e "es ! i"] i(1) key by auto
      then have "exact_bits ?es = exact_bits es - {b}"
        unfolding rest es using exact_bits_split [of e "es[i := e]"] ex(2) u(2) by auto
      moreover have "wf_entry e"
        using wfi False word_and_le2 [of "le_access (es ! i)" "NOT (bit_access b)"]
        by (auto simp: wf_entry_def e_def intro: le_less_trans)
      then have "entries_wf ?es" using wf u unfolding es entries_wf_def by auto
      ultimately show ?thesis using ex unfolding es u(2) by auto
    qed
  qed
  then show "entries_wf ?es" and "{e \<in> set ?es. \<not> is_exact e} = {e \<in> set es. \<not> is_exact e}"
    and "exact_bits ?es = exact_bits es - {b}" by blast+
qed


lemma model_list_parsed:
  assumes "entries_wf (m_entries s)"
  shows "parse_devices_list (model_list s) = Inr (m_entries s)"
  using assms parse_format_lines [of "m_entries s"] by (simp add: entries_wf_def model_list_def)

lemma exact_bits_lists: "lists {e \<in> set es. \<not> is_exact e} (exact_bits es) es"
  by (auto simp: lists_def exact_bits_def)

lemma model_write_bit:
  assumes "model_invar s" and "wf_bit b"
    and "model_write name (bit_line b) s = (u, s')"
  shows "model_invar s' \<and> model_wild s' = model_wild s
    \<and> exact_bits (m_entries s') = (if u = Inr () then
        (if name = DEVICES_ALLOW then insert b (exact_bits (m_entries s)) else exact_bits (m_entries s) - {b})
        else exact_bits (m_entries s))"
proof -
  have wf: "entries_wf (m_entries s)" and "\<not> m_ignore_writes s" using assms(1) by (simp_all add: model_invar_def)
  then show ?thesis
    using assms(3) apply_allow [OF wf assms(2)] apply_deny [OF wf assms(2)]
    by (auto simp: model_write_def Let_def model_apply_def parse_bit_line [OF assms(2)] model_invar_def
        model_wild_def split: if_splits)
qed

interpretation model: v1_kernel model_files model_wild "\<lambda>s. exact_bits (m_entries s)" model_invar
proof
  fix k name r k' assume "model_invar k" "f_read model_files name k = (r, k')"
  then show "model_invar k' \<and> model_wild k' = model_wild k \<and> exact_bits (m_entries k') = exact_bits (m_entries k)"
    by (auto simp: model_files_def model_read_def split: if_splits)
next
  fix k data k' es
  assume "model_invar k" "f_read model_files DEVICES_LIST k = (Inr data, k')" "parse_devices_list data = Inr es"
  then have "es = m_entries k"
    using model_list_parsed by (auto simp: model_files_def model_read_def model_invar_def split: if_splits)
  then show "lists (model_wild k) (exact_bits (m_entries k)) es"
    by (simp add: model_wild_def exact_bits_lists)
next
  fix k b u k' assume "model_invar k" "wf_bit b" "f_write model_files DEVICES_ALLOW (bit_line b) k = (u, k')"
  then show "model_invar k' \<and> model_wild k' = model_wild k
      \<and> exact_bits (m_entries k') = (if u = Inr () then insert b (exact_bits (m_entries k)) else exact_bits (m_entries k))"
    using model_write_bit [of k b DEVICES_ALLOW u k'] by (simp add: model_files_def)
next
  fix k b u k' assume "model_invar k" "wf_bit b" "f_write model_files DEVICES_DENY (bit_line b) k = (u, k')"
  then show "model_invar k' \<and> model_wild k' = model_wild k
      \<and> exact_bits (m_entries k') = (if u = Inr () then exact_bits (m_entries k) - {b} else exact_bits (m_entries k))"
    using model_write_bit [of k b DEVICES_DENY u k']
    by (simp add: model_files_def DEVICES_ALLOW_def DEVICES_DENY_def)
qed

section \<open>Examples\<close>

definition demo_entries :: "list_entry list" where
  "demo_entries = [\<lparr>le_kind = CHR ''c'', le_major = 1, le_minor = -1, le_access = V1_MKNOD\<rparr>,
     \<lparr>le_kind = CHR ''c'', le_major = 10, le_minor = 200, le_access = V1_READ OR V1_WRITE\<rparr>]"

definition demo_rules :: "device_rule list" where
  "demo_rules = [\<lparr>allow = True, kind = ''c'', major = Some 10, minor = Some 229, access = ''r''\<rparr>]"

definition demo_bit :: "int \<Rightarrow> u8 \<Rightarrow> dev_bit" where
  "demo_bit n acc = DevBit (CHR ''c'') 10 n acc"

definition demo_id :: identity where
  "demo_id = \<lparr>id_path = ''/sys/fs/cgroup/devices/demo'', id_inode = 4242\<rparr>"

definition demo_world :: "string set \<Rightarrow> v1_model v1world" where
  "demo_world fail = \<lparr>v1_kern = (model_new demo_entries)\<lparr>m_fail := fail\<rparr>,
     v1_ledger = [demo_id \<mapsto> {demo_bit 200 V1_WRITE}]\<rparr>"


lemma demo_wf: "entries_wf demo_entries"
  by (simp add: entries_wf_def wf_entry_def demo_entries_def device_key_def I64_MIN_def I64_MAX_def v1_bits)

lemma model_read_list:
  assumes "entries_wf (m_entries (v1_kern w))" and "''read'' \<notin> m_fail (v1_kern w)"
  shows "read_list model_files w = (Inr (m_entries (v1_kern w)), w)"
  using assms by (simp add: read_list_def on_files_def model_files_def model_read_def model_list_parsed
      bindS_def map_errS_def liftS_def)

lemma model_write_bit_line:
  assumes "wf_bit b" and "\<not> m_ignore_writes s"
  shows "model_write name (bit_line b) s =
    (let c = (if name = DEVICES_ALLOW then ''allow'' else ''deny'') @ '' '' @ bit_line b;
         s1 = s\<lparr>m_writes := m_writes s @ [c]\<rparr> in
     if c \<in> m_fail s then (Inl (FileWrite (bit_line b) name injected), s1)
     else (Inr (), s1\<lparr>m_entries := apply_entry (name = DEVICES_ALLOW) (bit_entry b) (m_entries s)\<rparr>))"
  using assms by (simp add: model_write_def Let_def model_apply_def parse_bit_line)

lemma demo_bit_wf: "wf_bit (demo_bit 200 V1_WRITE)" "wf_bit (demo_bit 229 V1_READ)"
  by (simp_all add: demo_bit_def wf_bit_def ACCESS_BITS_def I64_MAX_def)

lemma demo_rule_bits: "expand_rules demo_rules = Inr {demo_bit 229 V1_READ}"
  by (simp add: demo_rules_def rule_bits_def ACCESS_BITS_def v1_bits parse_access_letters_def
      demo_bit_def result_simps chars_ascii)


definition demo_after :: "list_entry list" where
  "demo_after = apply_entry True (bit_entry (demo_bit 229 V1_READ))
     (apply_entry False (bit_entry (demo_bit 200 V1_WRITE)) demo_entries)"

lemma demo_after_entries:
  "demo_after = [\<lparr>le_kind = CHR ''c'', le_major = 1, le_minor = -1, le_access = V1_MKNOD\<rparr>,
     \<lparr>le_kind = CHR ''c'', le_major = 10, le_minor = 200, le_access = V1_READ\<rparr>,
     \<lparr>le_kind = CHR ''c'', le_major = 10, le_minor = 229, le_access = V1_READ\<rparr>]"
  by (simp add: demo_after_def demo_entries_def apply_entry_def bit_entry_def demo_bit_def v1_bits same_device_def)

lemma demo_covered:
  "without_owned demo_entries {demo_bit 200 V1_WRITE} =
     [\<lparr>le_kind = CHR ''c'', le_major = 1, le_minor = -1, le_access = V1_MKNOD\<rparr>,
      \<lparr>le_kind = CHR ''c'', le_major = 10, le_minor = 200, le_access = V1_READ\<rparr>]"
  "\<not> covered demo_entries (demo_bit 229 V1_READ)"
  "covered demo_after (demo_bit 229 V1_READ)" "\<not> covered demo_after (demo_bit 200 V1_WRITE)"
  by (simp_all add: without_owned_def demo_entries_def demo_after_entries demo_bit_def is_exact_def
      clear_bit_def covered_def covers_def WILDCARD_def v1_bits)


lemma demo_new: "{b \<in> {demo_bit 229 V1_READ}. \<not> covered (without_owned demo_entries {demo_bit 200 V1_WRITE}) b}
    = {demo_bit 229 V1_READ}"
  "{b. b = demo_bit 229 V1_READ \<and> \<not> covered (without_owned demo_entries {demo_bit 200 V1_WRITE}) b}
    = {demo_bit 229 V1_READ}"
  unfolding demo_covered(1)
  by (auto simp: demo_bit_def covered_def covers_def WILDCARD_def v1_bits)

lemma demo_old: "\<not> covered (without_owned demo_entries {demo_bit 200 V1_WRITE}) (demo_bit 200 V1_WRITE)"
  unfolding demo_covered(1)
  by (auto simp: demo_bit_def covered_def covers_def WILDCARD_def v1_bits)

lemma demo_distinct: "demo_bit 200 V1_WRITE \<noteq> demo_bit 229 V1_READ"
  by (simp add: demo_bit_def)

lemma demo_read: "''read'' \<notin> F \<Longrightarrow>
    read_list model_files (demo_world F) = (Inr demo_entries, demo_world F)"
  by (simp add: model_read_list demo_world_def model_new_def demo_wf)

lemma demo_owned: "ledger_owned demo_id (v1_ledger (demo_world F)) = {demo_bit 200 V1_WRITE}"
  by (simp add: demo_world_def ledger_owned_def)


lemma demo_fields: "f_write model_files = model_write" "v1_kern (demo_world F) = (model_new demo_entries)\<lparr>m_fail := F\<rparr>"
  "v1_ledger (demo_world F) = [demo_id \<mapsto> {demo_bit 200 V1_WRITE}]"
  by (simp_all add: model_files_def demo_world_def)

lemma demo_deny_fails:
  assumes "F = {''deny '' @ bit_line (demo_bit 200 V1_WRITE)}"
  shows "\<exists>w'. v1_set_device_rules model_files demo_id demo_rules (demo_world F)
    = (Inl (Revoke (bit_line (demo_bit 200 V1_WRITE))
        (FileWrite (bit_line (demo_bit 200 V1_WRITE)) DEVICES_DENY injected)), w')"
proof -
  have r: "''read'' \<notin> F" using assms by simp
  have F: "''deny '' @ bit_line (demo_bit 200 V1_WRITE) \<in> F" using assms by simp
  show ?thesis
  using demo_distinct F
  by (simp add: v1_set_device_rules_def bindS_def liftS_def demo_rule_bits demo_read [OF r] ledger_owned_def
    demo_new demo_old Let_def on_files_def model_write_bit_line demo_bit_wf
    demo_fields model_new_def DEVICES_DENY_def DEVICES_ALLOW_def)
qed


lemma demo_revoke: "\<not> covered bl (demo_bit 200 V1_WRITE) \<Longrightarrow>
  \<exists>w1. revoke_loop model_files demo_id bl {demo_bit 229 V1_READ} [demo_bit 200 V1_WRITE] {} (demo_world {}) = (Inr {}, w1)
    \<and> v1_kern w1 = (model_new (apply_entry False (bit_entry (demo_bit 200 V1_WRITE)) demo_entries))
        \<lparr>m_writes := [''deny '' @ bit_line (demo_bit 200 V1_WRITE)]\<rparr>"
  using demo_distinct
  by (simp add: on_files_def model_write_bit_line demo_bit_wf demo_fields model_new_def DEVICES_DENY_def DEVICES_ALLOW_def)

lemma demo_grant:
  assumes "v1_kern w1 = (model_new (apply_entry False (bit_entry (demo_bit 200 V1_WRITE)) demo_entries))\<lparr>m_writes := ws\<rparr>"
  shows "\<exists>w2. grant_loop model_files demo_id demo_entries [demo_bit 229 V1_READ] w1 = ([], w2)
    \<and> m_entries (v1_kern w2) = demo_after \<and> m_fail (v1_kern w2) = {}"
  using assms by (simp add: on_files_def model_write_bit_line demo_bit_wf demo_fields model_new_def demo_covered demo_after_def)

lemma demo_verify:
  assumes "m_entries (v1_kern w2) = demo_after" and "m_fail (v1_kern w2) = {}"
  shows "verify model_files {demo_bit 200 V1_WRITE} {demo_bit 229 V1_READ} {} w2 = (Inr (), w2)"
proof -
  have "entries_wf demo_after"
    unfolding demo_after_def by (intro apply_allow apply_deny demo_wf demo_bit_wf)
  then have "read_list model_files w2 = (Inr demo_after, w2)" using assms by (simp add: model_read_list)
  then show ?thesis
    using demo_distinct demo_covered by (simp add: verify_def bindS_def map_errS_def Let_def retS_def filter_empty_conv)
qed

lemma demo_success:
  "\<exists>w'. v1_set_device_rules model_files demo_id demo_rules (demo_world {}) = (Inr (), w')"
proof -
  obtain w1 where w1: "revoke_loop model_files demo_id (without_owned demo_entries {demo_bit 200 V1_WRITE}) {demo_bit 229 V1_READ} [demo_bit 200 V1_WRITE] {} (demo_world {}) = (Inr {}, w1)"
    and k1: "v1_kern w1 = (model_new (apply_entry False (bit_entry (demo_bit 200 V1_WRITE)) demo_entries))
        \<lparr>m_writes := [''deny '' @ bit_line (demo_bit 200 V1_WRITE)]\<rparr>"
    using demo_revoke [OF demo_old] by blast
  obtain w2 where w2: "grant_loop model_files demo_id demo_entries [demo_bit 229 V1_READ] w1 = ([], w2)"
    and k2: "m_entries (v1_kern w2) = demo_after" "m_fail (v1_kern w2) = {}"
    using demo_grant [OF k1] by blast
  have r: "''read'' \<notin> {}" by simp
  show ?thesis
    unfolding v1_set_device_rules_def bindS_def liftS_def demo_rule_bits
    by (simp add: demo_read [OF r] demo_owned demo_new w1 w2 demo_verify [OF k2] Let_def del: revoke_loop.simps grant_loop.simps)
qed


lemma demo_ok: "model_invar (v1_kern (demo_world F))" "finite (ledger_owned demo_id (v1_ledger (demo_world F)))"
  "\<forall>b \<in> ledger_owned demo_id (v1_ledger (demo_world F)). wf_bit b" "\<forall>r \<in> set demo_rules. i64_rule r"
  by (simp_all add: model_invar_def demo_fields demo_wf model_new_def ledger_owned_def demo_bit_wf)
    (simp add: demo_rules_def i64_rule_def I64_MAX_def)

lemma demo_owned_exact:
  "ledger_owned demo_id (v1_ledger (demo_world F)) \<subseteq> exact_bits (m_entries (v1_kern (demo_world F)))"
  using demo_bit_wf(1) by (simp add: demo_fields model_new_def ledger_owned_def exact_bits_def demo_entries_def
      is_exact_def demo_bit_def covers_def WILDCARD_def v1_bits)

lemmas demo_model = model.v1_kernel_axioms demo_ok(1-4)

theorem v1_sets_exactly_witness:
  "\<exists>w' desired. v1_set_device_rules model_files demo_id demo_rules (demo_world {}) = (Inr (), w')
    \<and> expand_rules demo_rules = Inr desired \<and> demo_bit 229 V1_READ \<in> desired
    \<and> effective_bit (model_wild (v1_kern w')) (exact_bits (m_entries (v1_kern w'))) (demo_bit 229 V1_READ)"
proof -
  obtain w' where w': "v1_set_device_rules model_files demo_id demo_rules (demo_world {}) = (Inr (), w')"
    using demo_success by blast
  from v1_sets_exactly [OF demo_model w' refl] w' demo_rule_bits show ?thesis by auto
qed

theorem v1_keeps_baseline_witness:
  "\<exists>r w'. v1_set_device_rules model_files demo_id demo_rules (demo_world {}) = (r, w')
    \<and> effective_bit (model_wild (v1_kern w')) (exact_bits (m_entries (v1_kern w')) - ledger_owned demo_id (v1_ledger w'))
        (demo_bit 200 V1_READ)"
proof -
  obtain r w' where w': "v1_set_device_rules model_files demo_id demo_rules (demo_world {}) = (r, w')"
    using demo_success by blast
  have "wf_bit (demo_bit 200 V1_READ)"
    by (simp add: demo_bit_def wf_bit_def ACCESS_BITS_def I64_MAX_def)
  then have "effective_bit (model_wild (v1_kern (demo_world {})))
      (exact_bits (m_entries (v1_kern (demo_world {}))) - ledger_owned demo_id (v1_ledger (demo_world {})))
      (demo_bit 200 V1_READ)"
    by (simp add: effective_bit_def demo_fields model_new_def ledger_owned_def exact_bits_def demo_entries_def
      is_exact_def demo_bit_def covers_def WILDCARD_def v1_bits)
  with v1_keeps_baseline [OF demo_model w', of "demo_bit 200 V1_READ"] w' show ?thesis by blast
qed

theorem v1_ledger_invariant_witness:
  "\<exists>r w'. v1_set_device_rules model_files demo_id demo_rules (demo_world {}) = (r, w')
    \<and> finite (ledger_owned demo_id (v1_ledger w'))
    \<and> ledger_owned demo_id (v1_ledger w') \<subseteq> exact_bits (m_entries (v1_kern w'))"
proof -
  obtain r w' where w': "v1_set_device_rules model_files demo_id demo_rules (demo_world {}) = (r, w')"
    using demo_success by blast
  from v1_ledger_invariant [OF demo_model w' demo_owned_exact] w' show ?thesis by blast
qed





end
