(* ===== verification/Glob.thy ===== *)
theory Glob
  imports Text "HOL-Library.List_Lexorder" "HOL-Library.Char_ord"
begin

text \<open>
  The device globs of \<open>src/src/policy/glob.rs\<close>. The matcher itself is a package outside the
  repository: \<open>glob_crate\<close>, an argument of what uses it. What the repository adds is the
  check of the spellings, \<open>translate\<close>, which is proved to accept exactly the patterns of a
  grammar, unchanged. A pattern is a string of valid UTF-8, its characters those of \<open>chars\<close>;
  the order on characters is that of their bytes, which for UTF-8 is the order of code points.
\<close>

datatype bad_pattern =
  Backslash
| DoubleStar
| NegatedBang
| NegatedCaret
| MissingBracket
| EmptyClassOrDash
| ClassSlash
| DashOutside
| RangeSlash
| MalformedPattern

fun bad_reason :: "bad_pattern \<Rightarrow> string" where
  "bad_reason Backslash = ''a backslash escape is not supported, use a class like [*]''"
| "bad_reason DoubleStar = ''** is not supported''"
| "bad_reason NegatedBang = ''[!x] is not supported''"
| "bad_reason NegatedCaret = ''a negated class [^x] could match /, which fails open for a deny glob''"
| "bad_reason MissingBracket = ''missing ]''"
| "bad_reason EmptyClassOrDash = ''empty class or a dash outside a range''"
| "bad_reason ClassSlash = ''a class naming / is not supported''"
| "bad_reason DashOutside = ''a dash outside a range''"
| "bad_reason RangeSlash = ''a class range spanning / is not supported''"
| "bad_reason MalformedPattern = ''malformed pattern''"

definition bad_pattern_text :: "bad_pattern \<Rightarrow> string" where
  "bad_pattern_text e = ''syntax error in pattern: '' @ bad_reason e"

fun contains_stars :: "string \<Rightarrow> bool" where
  "contains_stars (a # b # s) \<longleftrightarrow> (a = CHR ''*'' \<and> b = CHR ''*'') \<or> contains_stars (b # s)"
| "contains_stars s \<longleftrightarrow> False"

definition item_start :: "string \<Rightarrow> bool" where
  "item_start low \<longleftrightarrow> low \<noteq> '']'' \<and> low \<noteq> ''-'' \<and> low \<noteq> ''/''"

text \<open>Whether a range holds the separator.\<close>

definition spans_slash :: "string \<Rightarrow> string \<Rightarrow> bool" where
  "spans_slash low high \<longleftrightarrow> low \<le> ''/'' \<and> ''/'' \<le> high"

text \<open>
  The items of a class: \<open>items\<close> says whether one was read, \<open>out\<close> is the copy. The result is the
  characters after the \<open>]\<close> and the copy.
\<close>

fun class_body :: "string list \<Rightarrow> bool \<Rightarrow> string \<Rightarrow> (string list \<times> string, bad_pattern) result" where
  "class_body [] items out = Inl MissingBracket"
| "class_body (low # cs) items out =
     (if low = '']'' \<and> items then Inr (cs, out @ '']'')
      else if low = '']'' \<or> low = ''-'' then Inl EmptyClassOrDash
      else if low = ''/'' then Inl ClassSlash
      else case cs of
        dash # ds \<Rightarrow>
          if dash = ''-'' then
            (case ds of
               [] \<Rightarrow> Inl MissingBracket
             | high # es \<Rightarrow>
                 if high = '']'' \<or> high = ''-'' then Inl DashOutside
                 else if spans_slash low high then Inl RangeSlash
                 else class_body es True (out @ low @ ''-'' @ high))
          else class_body cs True (out @ low)
      | [] \<Rightarrow> class_body cs True (out @ low))"

text \<open>One item, and what is read after it.\<close>

lemma class_body_step:
  assumes "class_body (low # cs) items out = Inr r"
  obtains "low = '']''" and "items" and "r = (cs, out @ '']'')"
  | "item_start low" and "class_body cs True (out @ low) = Inr r"
  | high es where "item_start low" and "cs = ''-'' # high # es" and "high \<noteq> '']''" and "high \<noteq> ''-''"
      and "\<not> spans_slash low high" and "class_body es True (out @ low @ ''-'' @ high) = Inr r"
proof (cases "low = '']'' \<and> items")
  case True
  with that(1) assms show ?thesis by simp
next
  case False
  then have start: "item_start low" using assms by (auto simp: item_start_def split: if_splits)
  show ?thesis
  proof (cases "cs \<noteq> [] \<and> hd cs = ''-''")
    case True
    then obtain ds where cs: "cs = ''-'' # ds" by (cases cs) auto
    from assms start show ?thesis
      unfolding cs class_body.simps(2) item_start_def
      by (cases ds) (auto intro: that(3) [OF start] simp: cs split: if_splits)
  next
    case dash: False
    have "class_body cs True (out @ low) = Inr r"
      using assms start dash False unfolding class_body.simps(2) [of low] item_start_def by (cases cs) (auto split: if_splits)
    with that(2) start show ?thesis by blast
  qed
qed

declare class_body.simps [simp del]

lemma class_body_length: "class_body cs items out = Inr (rest, out') \<Longrightarrow> length rest < length cs"
proof (induction "length cs" arbitrary: cs items out rule: less_induct)
  case less
  then obtain low cs' where cs: "cs = low # cs'" by (cases cs) (auto simp: class_body.simps)
  from less.prems [unfolded cs] show ?case
  proof (cases rule: class_body_step)
    case 2
    with less.hyps [OF _ 2(2)] cs show ?thesis by simp
  next
    case (3 high es)
    with less.hyps [OF _ 3(6)] cs show ?thesis by simp
  qed (use cs in simp)
qed

function translate_loop :: "string list \<Rightarrow> string \<Rightarrow> (string, bad_pattern) result" where
  "translate_loop [] out = Inr out"
| "translate_loop (c # cs) out =
     (if c \<noteq> ''['' then translate_loop cs (out @ c)
      else if cs \<noteq> [] \<and> hd cs = ''!'' then Inl NegatedBang
      else if cs \<noteq> [] \<and> hd cs = ''^'' then Inl NegatedCaret
      else case class_body cs False (out @ ''['') of
        Inl e \<Rightarrow> Inl e
      | Inr (rest, out') \<Rightarrow> translate_loop rest out')"
  by pat_completeness auto
termination
  by (relation "measure (\<lambda>(cs, _). length cs)") (auto dest!: class_body_length)

definition translate :: "string \<Rightarrow> (string, bad_pattern) result" where
  "translate pattern =
     (if CHR 0x5C \<in> set pattern then Inl Backslash
      else if contains_stars pattern then Inl DoubleStar
      else translate_loop (chars pattern) [])"

text \<open>The package that matches: a compiled pattern and whether it matches a name.\<close>

record 'p glob_crate =
  pattern_new :: "string \<Rightarrow> 'p option"
  matches_with :: "'p \<Rightarrow> string \<Rightarrow> bool"

definition compile :: "'p glob_crate \<Rightarrow> string \<Rightarrow> ('p, bad_pattern) result" where
  "compile gc pattern =
     bindR (translate pattern) (\<lambda>translated. ok_or MalformedPattern (pattern_new gc translated))"

definition glob_matches :: "'p glob_crate \<Rightarrow> string \<Rightarrow> string \<Rightarrow> bool" where
  "glob_matches gc pattern name =
     (case compile gc pattern of Inr p \<Rightarrow> matches_with gc p name | Inl _ \<Rightarrow> False)"

section \<open>The grammar\<close>

text \<open>
  An accepted pattern is a sequence of plain characters and classes; a class is not negated, and
  no item of it is or spans \<open>/\<close>.
\<close>

datatype class_item = Single string | Range string string

datatype glob_token = Plain string | Class "class_item list"

fun item_chars :: "class_item \<Rightarrow> string list" where
  "item_chars (Single c) = [c]"
| "item_chars (Range low high) = [low, ''-'', high]"

fun token_chars :: "glob_token \<Rightarrow> string list" where
  "token_chars (Plain c) = [c]"
| "token_chars (Class items) = ''['' # concat (map item_chars items) @ ['']'']"

fun item_ok :: "class_item \<Rightarrow> bool" where
  "item_ok (Single c) \<longleftrightarrow> c \<notin> {'']'', ''-'', ''/''}"
| "item_ok (Range low high) \<longleftrightarrow> low \<notin> {'']'', ''-'', ''/''} \<and> high \<notin> {'']'', ''-''} \<and> \<not> spans_slash low high"

fun token_ok :: "glob_token \<Rightarrow> bool" where
  "token_ok (Plain c) \<longleftrightarrow> c \<noteq> ''[''"
| "token_ok (Class items) \<longleftrightarrow> items \<noteq> [] \<and> list_all item_ok items \<and> hd (concat (map item_chars items)) \<notin> {''!'', ''^''}"

text \<open>The characters that an item matches, and that a plain class never matches the separator.\<close>

fun item_matches :: "class_item \<Rightarrow> string \<Rightarrow> bool" where
  "item_matches (Single c) d \<longleftrightarrow> d = c"
| "item_matches (Range low high) d \<longleftrightarrow> low \<le> d \<and> d \<le> high"

lemma item_ok_separator: "item_ok i \<Longrightarrow> \<not> item_matches i ''/''"
  by (cases i) (auto simp: spans_slash_def)

text \<open>Reading the items of a class back.\<close>

lemma class_body_close: "class_body ('']'' # cs) True out = Inr (cs, out @ '']'')"
  by (simp add: class_body.simps(2) [of "'']''"])

lemma class_body_single:
  "item_start low \<Longrightarrow> cs \<noteq> [] \<Longrightarrow> hd cs \<noteq> ''-'' \<Longrightarrow> class_body (low # cs) seen out = class_body cs True (out @ low)"
  by (cases cs) (simp_all add: class_body.simps(2) [of low] item_start_def)

lemma class_body_range:
  "item_start low \<Longrightarrow> high \<noteq> '']'' \<Longrightarrow> high \<noteq> ''-'' \<Longrightarrow> \<not> spans_slash low high \<Longrightarrow>
    class_body (low # ''-'' # high # es) seen out = class_body es True (out @ low @ ''-'' @ high)"
  by (simp add: class_body.simps(2) [of low] item_start_def)

lemmas class_body_reads = class_body_close class_body_single class_body_range

lemma items_head:
  assumes "list_all item_ok items"
  shows "concat (map item_chars items) @ '']'' # cs \<noteq> [] \<and> hd (concat (map item_chars items) @ '']'' # cs) \<noteq> ''-''"
proof (cases items)
  case (Cons i rest)
  with assms show ?thesis by (cases i) simp_all
qed simp

lemma class_body_items:
  "list_all item_ok items \<Longrightarrow> items \<noteq> [] \<or> seen \<Longrightarrow>
    class_body (concat (map item_chars items) @ '']'' # cs) seen out
      = Inr (cs, out @ concat (concat (map item_chars items)) @ '']'')"
proof (induction items arbitrary: seen out)
  case Nil
  then show ?case by (simp add: class_body_reads)
next
  case (Cons i items)
  note IH = Cons.IH [of True]
  show ?case
  proof (cases i)
    case (Single c)
    with Cons.prems items_head [of items cs] IH show ?thesis
      by (simp add: class_body_reads item_start_def)
  next
    case (Range low high)
    with Cons.prems IH show ?thesis by (simp add: class_body_reads item_start_def)
  qed
qed

lemma class_body_sound:
  "class_body cs seen out = Inr (rest, out') \<Longrightarrow>
    \<exists>items. list_all item_ok items \<and> (items \<noteq> [] \<or> seen) \<and> cs = concat (map item_chars items) @ '']'' # rest
      \<and> out' = out @ concat (concat (map item_chars items)) @ '']''"
proof (induction "length cs" arbitrary: cs seen out rule: less_induct)
  case less
  then obtain low cs' where cs: "cs = low # cs'" by (cases cs) (auto simp: class_body.simps)
  from less.prems [unfolded cs] show ?case
  proof (cases rule: class_body_step)
    case 1
    then show ?thesis using cs by (intro exI [of _ "[]"]) simp
  next
    case 2
    from less.hyps [OF _ 2(2)] cs obtain items where "list_all item_ok items"
      "cs' = concat (map item_chars items) @ '']'' # rest" "out' = out @ low @ concat (concat (map item_chars items)) @ '']''"
      by auto
    then show ?thesis using cs 2(1) by (intro exI [of _ "Single low # items"]) (simp add: item_start_def)
  next
    case (3 high es)
    from less.hyps [OF _ 3(6)] cs 3(2) obtain items where "list_all item_ok items"
      "es = concat (map item_chars items) @ '']'' # rest" "out' = out @ low @ ''-'' @ high @ concat (concat (map item_chars items)) @ '']''"
      by auto
    then show ?thesis using cs 3 by (intro exI [of _ "Range low high # items"]) (simp add: item_start_def)
  qed
qed

lemma translate_tokens:
  "list_all token_ok ts \<Longrightarrow> translate_loop (concat (map token_chars ts)) out = Inr (out @ concat (concat (map token_chars ts)))"
proof (induction ts arbitrary: out)
  case (Cons tk ts)
  show ?case
  proof (cases tk)
    case (Class items)
    let ?cs = "concat (map item_chars items)"
    have "items \<noteq> []" "list_all item_ok items" "hd ?cs \<noteq> ''!''" "hd ?cs \<noteq> ''^''" using Cons.prems Class by auto
    moreover have "?cs \<noteq> []" using \<open>items \<noteq> []\<close> by (cases items; cases "hd items") auto
    ultimately show ?thesis using Cons Class by (simp add: class_body_items)
  qed (use Cons in simp)
qed simp

lemma translate_sound:
  "translate_loop cs out = Inr q \<Longrightarrow>
    \<exists>ts. list_all token_ok ts \<and> cs = concat (map token_chars ts) \<and> q = out @ concat cs"
proof (induction cs out rule: translate_loop.induct)
  case (2 c cs out)
  show ?case
  proof (cases "c = ''[''")
    case False
    with 2 obtain ts where "list_all token_ok ts" "cs = concat (map token_chars ts)" "q = out @ c @ concat cs" by auto
    then show ?thesis using False by (intro exI [of _ "Plain c # ts"]) simp
  next
    case True
    with 2(3) have head: "\<not> (cs \<noteq> [] \<and> hd cs = ''!'')" "\<not> (cs \<noteq> [] \<and> hd cs = ''^'')" by (auto split: if_splits)
    with 2(3) True obtain rest out' where body: "class_body cs False (out @ ''['') = Inr (rest, out')"
      and rest: "translate_loop rest out' = Inr q" by (auto split: if_splits sum.splits)
    from 2(2) [OF _ head(1,2) body refl rest] True obtain ts where ts: "list_all token_ok ts" "rest = concat (map token_chars ts)"
      "q = out' @ concat rest" by auto
    from class_body_sound [OF body] obtain items where items: "list_all item_ok items" "items \<noteq> []"
      "cs = concat (map item_chars items) @ '']'' # rest" "out' = out @ ''['' @ concat (concat (map item_chars items)) @ '']''" by auto
    have "concat (map item_chars items) \<noteq> []" using items(2) by (cases items; cases "hd items") auto
    with ts items True head show ?thesis by (intro exI [of _ "Class items # ts"]) auto
  qed
qed (auto intro: exI [of _ "[]"])

section \<open>Properties\<close>

text \<open>
  C31. A glob is accepted exactly when it is spelled by the grammar: plain characters and
  classes that are not negated, have an item, no dash outside a range and no item that is or
  spans the separator, and neither a backslash nor a double star. An accepted glob reaches the
  matcher unchanged.
\<close>

theorem translate_grammar:
  assumes "from_utf8_lossy pattern = pattern"
  shows "translate pattern = Inr q \<longleftrightarrow> q = pattern \<and> CHR 0x5C \<notin> set pattern \<and> \<not> contains_stars pattern
    \<and> (\<exists>ts. list_all token_ok ts \<and> chars pattern = concat (map token_chars ts))"
proof
  assume t: "translate pattern = Inr q"
  then have "translate_loop (chars pattern) [] = Inr q" by (simp add: translate_def split: if_splits)
  from translate_sound [OF this] assms t show "q = pattern \<and> CHR 0x5C \<notin> set pattern \<and> \<not> contains_stars pattern
      \<and> (\<exists>ts. list_all token_ok ts \<and> chars pattern = concat (map token_chars ts))"
    by (auto simp: translate_def from_utf8_lossy_def split: if_splits)
next
  assume a: "q = pattern \<and> CHR 0x5C \<notin> set pattern \<and> \<not> contains_stars pattern
      \<and> (\<exists>ts. list_all token_ok ts \<and> chars pattern = concat (map token_chars ts))"
  then obtain ts where ts: "list_all token_ok ts" "chars pattern = concat (map token_chars ts)" by blast
  from translate_tokens [OF ts(1), of "[]"] ts(2) a assms show "translate pattern = Inr q"
    by (simp add: translate_def from_utf8_lossy_def)
qed

definition demo_tokens :: "glob_token list" where
  "demo_tokens = map (\<lambda>c. Plain [c]) ''/dev/sd'' @ [Class [Range ''a'' ''c''], Plain ''*'']"

lemma demo_tokens_ok: "list_all token_ok demo_tokens" "chars ''/dev/sd[a-c]*'' = concat (map token_chars demo_tokens)"
  by (simp_all add: demo_tokens_def spans_slash_def less_eq_char_def chars_ascii)

theorem translate_grammar_witness: "translate ''/dev/sd[a-c]*'' = Inr ''/dev/sd[a-c]*''"
  using translate_grammar [of "''/dev/sd[a-c]*''" "''/dev/sd[a-c]*''"] demo_tokens_ok
  by (auto simp: from_utf8_lossy_ascii)



end
