(* ===== verification/Lexpath.thy ===== *)
theory Lexpath
  imports Text
begin

text \<open>
  The lexical path functions of \<open>src/src/lexpath.rs\<close>: \<open>base\<close>, \<open>join\<close> and \<open>clean\<close>. The loop of
  \<open>clean\<close> works on an output buffer that it truncates at a \<open>..\<close>; it is proved equal to a
  reference on the elements of the path, which gives that \<open>clean\<close> is idempotent and that a
  clean rooted path has no \<open>..\<close> element: what the checks on device paths rest on.
\<close>

definition lex_base :: "string \<Rightarrow> string" where
  "lex_base path =
     (if path = [] then ''.''
      else let trimmed = rev (dropWhile (\<lambda>c. c = CHR ''/'') (rev path)) in
        if trimmed = [] then ''/''
        else rev (takeWhile (\<lambda>c. c \<noteq> CHR ''/'') (rev trimmed)))"

fun join_with :: "string \<Rightarrow> string list \<Rightarrow> string" where
  "join_with d [] = []"
| "join_with d [x] = x"
| "join_with d (x # y # ys) = x @ d @ join_with d (y # ys)"

text \<open>Whether an element ends where \<open>rest\<close> starts.\<close>

definition ends_element :: "string \<Rightarrow> bool" where
  "ends_element rest \<longleftrightarrow> rest = [] \<or> hd rest = CHR ''/''"

text \<open>The position that the output is truncated to at a \<open>..\<close>.\<close>

fun back_to :: "nat \<Rightarrow> string \<Rightarrow> nat \<Rightarrow> nat" where
  "back_to dotdot out 0 = 0"
| "back_to dotdot out (Suc w) =
     (if Suc w > dotdot \<and> out ! Suc w \<noteq> CHR ''/'' then back_to dotdot out w else Suc w)"

text \<open>The loop: \<open>rest\<close> is what is left to read.\<close>

function clean_loop :: "bool \<Rightarrow> string \<Rightarrow> nat \<Rightarrow> string \<Rightarrow> string" where
  "clean_loop rooted rest dotdot out =
     (case rest of
        [] \<Rightarrow> out
      | c # cs \<Rightarrow>
          if c = CHR ''/'' \<or> (c = CHR ''.'' \<and> ends_element cs) then clean_loop rooted cs dotdot out
          else if c = CHR ''.'' \<and> cs \<noteq> [] \<and> hd cs = CHR ''.'' \<and> ends_element (tl cs) then
            (if length out > dotdot then
               clean_loop rooted (tl cs) dotdot (take (back_to dotdot out (length out - 1)) out)
             else if \<not> rooted then
               (let out' = (if out \<noteq> [] then out @ ''/'' else out) @ ''..'' in
                clean_loop rooted (tl cs) (length out') out')
             else clean_loop rooted (tl cs) dotdot out)
          else
            (let out' = (if (rooted \<and> length out \<noteq> 1) \<or> (\<not> rooted \<and> out \<noteq> []) then out @ ''/'' else out) in
             clean_loop rooted (dropWhile (\<lambda>c. c \<noteq> CHR ''/'') rest) dotdot
               (out' @ takeWhile (\<lambda>c. c \<noteq> CHR ''/'') rest)))"
  by pat_completeness auto
termination
  by (relation "measure (\<lambda>(_, rest, _, _). length rest)")
    (auto simp: length_dropWhile_le le_imp_less_Suc)

declare clean_loop.simps [simp del]

definition lex_clean :: "string \<Rightarrow> string" where
  "lex_clean path =
     (if path = [] then ''.''
      else let rooted = (hd path = CHR ''/'');
               out = (if rooted then clean_loop True (tl path) 1 ''/'' else clean_loop False path 0 [])
        in if out = [] then ''.'' else out)"

definition lex_join :: "string list \<Rightarrow> string" where
  "lex_join elements =
     (let joined = filter (\<lambda>e. e \<noteq> []) elements in
      if joined = [] then [] else lex_clean (join_with ''/'' joined))"

section \<open>The reference\<close>

text \<open>
  The elements of a path, and the stack they are reduced to: the last element is the top, an
  empty or \<open>.\<close> element is dropped, and a \<open>..\<close> removes the element before it.
\<close>

definition elements :: "string \<Rightarrow> string list" where
  "elements path = filter (\<lambda>e. e \<noteq> []) (split_on (CHR ''/'') path)"

definition push_element :: "bool \<Rightarrow> string list \<Rightarrow> string \<Rightarrow> string list" where
  "push_element rooted st e =
     (if e = [] \<or> e = ''.'' then st
      else if e = ''..'' then
        (if st \<noteq> [] \<and> hd st \<noteq> ''..'' then tl st else if rooted then st else e # st)
      else e # st)"

definition render :: "bool \<Rightarrow> string list \<Rightarrow> string" where
  "render rooted st = (if rooted then ''/'' else []) @ join_with ''/'' (rev st)"

definition rooted_path :: "string \<Rightarrow> bool" where
  "rooted_path path \<longleftrightarrow> path \<noteq> [] \<and> hd path = CHR ''/''"

definition clean_spec :: "string \<Rightarrow> string" where
  "clean_spec path =
     (let out = render (rooted_path path) (foldl (push_element (rooted_path path)) [] (elements path))
      in if out = [] then ''.'' else out)"

text \<open>The stacks the reduction builds: plain elements over a run of \<open>..\<close>, which is empty at the root.\<close>

definition plain_element :: "string \<Rightarrow> bool" where
  "plain_element e \<longleftrightarrow> e \<noteq> [] \<and> e \<noteq> ''.'' \<and> e \<noteq> ''..'' \<and> CHR ''/'' \<notin> set e"

definition clean_stack :: "bool \<Rightarrow> string list \<Rightarrow> bool" where
  "clean_stack rooted st \<longleftrightarrow> (\<exists>xs k. st = xs @ replicate k ''..'' \<and> (\<forall>x \<in> set xs. plain_element x) \<and> (rooted \<longrightarrow> k = 0))"

lemma join_with_snoc: "join_with d (xs @ [x]) = (if xs = [] then x else join_with d xs @ d @ x)"
  by (induction d xs rule: join_with.induct) auto

lemma elements_simps:
  "elements [] = []" "elements (CHR ''/'' # s) = elements s"
  "e \<noteq> [] \<Longrightarrow> CHR ''/'' \<notin> set e \<Longrightarrow> elements (e @ CHR ''/'' # s) = e # elements s"
  "e \<noteq> [] \<Longrightarrow> CHR ''/'' \<notin> set e \<Longrightarrow> elements e = [e]"
  by (simp_all add: elements_def split_on_append split_on_none)

lemma elements_step:
  assumes "e \<noteq> []" and "CHR ''/'' \<notin> set e" and "ends_element r"
  shows "elements (e @ r) = e # elements r"
  using assms by (cases r) (auto simp: elements_simps ends_element_def)

lemma split_on_free: "e \<in> set (split_on d p) \<Longrightarrow> d \<notin> set e"
  by (induction p arbitrary: e) (auto split: if_splits list.splits)

lemma elements_plain: "e \<in> set (elements p) \<Longrightarrow> e \<noteq> [] \<and> CHR ''/'' \<notin> set e"
  by (auto simp: elements_def dest: split_on_free)

lemma push_clean_stack:
  assumes "clean_stack rooted st" and "e \<noteq> []" and "CHR ''/'' \<notin> set e"
  shows "clean_stack rooted (push_element rooted st e)"
proof -
  obtain xs k where st: "st = xs @ replicate k ''..''" "\<forall>x \<in> set xs. plain_element x" "rooted \<longrightarrow> k = 0"
    using assms(1) by (auto simp: clean_stack_def)
  consider "e = ''.''" | "e = ''..''" | "plain_element e" using assms(2,3) by (auto simp: plain_element_def)
  then show ?thesis
  proof cases
    case 1 with assms(1) show ?thesis by (simp add: push_element_def)
  next
    case 2
    show ?thesis
    proof (cases xs)
      case Nil
      have "push_element rooted st e = (if rooted then st else replicate (Suc k) ''..'')"
        using 2 st(1) Nil by (cases k) (simp_all add: push_element_def)
      moreover have "clean_stack rooted (replicate (Suc k) ''..'')" if "\<not> rooted"
        unfolding clean_stack_def using that by (intro exI [of _ "[]"] exI [of _ "Suc k"]) simp
      ultimately show ?thesis using assms(1) by (cases rooted) simp_all
    next
      case (Cons x ys)
      then have "push_element rooted st e = ys @ replicate k ''..''"
        using 2 st by (simp add: push_element_def plain_element_def)
      with st Cons show ?thesis by (auto simp: clean_stack_def)
    qed
  next
    case 3
    then have "push_element rooted st e = (e # xs) @ replicate k ''..''"
      using st(1) by (simp add: push_element_def plain_element_def)
    with st 3 show ?thesis unfolding clean_stack_def by (metis insert_iff list.simps(15))
  qed
qed

lemma fold_clean_stack:
  "clean_stack rooted st \<Longrightarrow> \<forall>e \<in> set es. e \<noteq> [] \<and> CHR ''/'' \<notin> set e \<Longrightarrow>
    clean_stack rooted (foldl (push_element rooted) st es)"
  by (induction es arbitrary: st) (auto intro: push_clean_stack)


section \<open>The loop implements the reference\<close>

text \<open>Where the run of \<open>..\<close> at the bottom of a stack ends in the output.\<close>

definition dotdot_of :: "bool \<Rightarrow> nat \<Rightarrow> nat" where
  "dotdot_of rooted k = (if rooted then 1 else length (join_with ''/'' (replicate k ''..'')))"

lemma back_to_element:
  assumes "CHR ''/'' \<notin> set e"
  shows "n < length e \<Longrightarrow> dotdot \<le> length p \<Longrightarrow> back_to dotdot (p @ CHR ''/'' # e) (Suc (length p + n)) = length p"
proof (induction n)
  case 0
  moreover have "e ! 0 \<noteq> CHR ''/''" using assms 0(1) by (metis nth_mem)
  ultimately show ?case by (cases "length p") (auto simp: nth_append nth_Cons')
next
  case (Suc n)
  moreover have "e ! Suc n \<noteq> CHR ''/''" using assms Suc.prems(1) by (metis nth_mem)
  ultimately show ?case by (simp add: nth_append)
qed

lemma back_to_bottom:
  assumes "CHR ''/'' \<notin> set e" and "dotdot = length p"
  shows "n < length e \<Longrightarrow> back_to dotdot (p @ e) (length p + n) = length p"
proof (induction n)
  case 0
  show ?case using assms(2) by (cases "length p") simp_all
next
  case (Suc n)
  moreover have "e ! Suc n \<noteq> CHR ''/''" using assms Suc.prems(1) by (metis nth_mem)
  ultimately show ?case using assms(2) by (simp add: nth_append)
qed

text \<open>An element on top of a stack adds itself and, unless it is the first, a separator.\<close>

lemma render_Cons:
  "render rooted (e # st) = (if st = [] then render rooted [] @ e else render rooted st @ ''/'' @ e)"
  by (simp add: render_def join_with_snoc)

lemma render_empty:
  assumes "st = xs @ replicate k ''..''" and "\<forall>x \<in> set xs. plain_element x"
  shows "st = [] \<longleftrightarrow> (if rooted then length (render rooted st) = 1 else render rooted st = [])"
proof (cases st)
  case (Cons e st')
  then have "e \<noteq> []" using assms by (cases xs; cases k) (auto simp: plain_element_def)
  with Cons show ?thesis by (simp add: render_Cons) (simp add: render_def)
qed (simp add: render_def)

lemma join_with_length: "length (join_with d xs) \<le> length (join_with d (xs @ ys))"
proof (induction ys rule: rev_induct)
  case (snoc y ys)
  have "length (join_with d (xs @ ys)) \<le> length (join_with d ((xs @ ys) @ [y]))"
    unfolding join_with_snoc by simp
  with snoc show ?case by simp
qed simp

lemma dotdot_of_le: "clean_stack rooted st \<Longrightarrow> st = xs @ replicate k ''..'' \<Longrightarrow> dotdot_of rooted k \<le> length (render rooted st)"
  using join_with_length [of "''/''" "replicate k ''..''" "rev xs"]
  by (simp add: dotdot_of_def render_def)

lemma pop_render:
  assumes "plain_element e" and "st = xs @ replicate k ''..''" and "\<forall>x \<in> set xs. plain_element x" and "rooted \<longrightarrow> k = 0"
  shows "take (back_to (dotdot_of rooted k) (render rooted (e # st)) (length (render rooted (e # st)) - 1))
           (render rooted (e # st)) = render rooted st"
    and "length (render rooted (e # st)) > dotdot_of rooted k"
proof -
  have e: "CHR ''/'' \<notin> set e" "e \<noteq> []" using assms(1) by (auto simp: plain_element_def)
  have n: "length e - 1 < length e" using e(2) by simp
  have le: "dotdot_of rooted k \<le> length (render rooted st)"
    using assms(2-4) by (intro dotdot_of_le [of _ _ xs]) (auto simp: clean_stack_def)
  show "length (render rooted (e # st)) > dotdot_of rooted k"
    using le e(2) unfolding render_Cons by (cases e) (auto simp: render_def)
  show "take (back_to (dotdot_of rooted k) (render rooted (e # st)) (length (render rooted (e # st)) - 1))
           (render rooted (e # st)) = render rooted st"
  proof (cases "st = []")
    case True
    then have "dotdot_of rooted k = length (render rooted [])"
      using assms(2) by (simp add: dotdot_of_def render_def)
    from back_to_bottom [OF e(1) this n] e(2) show ?thesis by (cases e) (simp_all add: render_Cons True)
  next
    case False
    from back_to_element [OF e(1) n le] e(2) False show ?thesis
      by (cases e) (simp_all add: render_Cons del: back_to.simps)
  qed
qed


definition stack_at :: "bool \<Rightarrow> string list \<Rightarrow> nat \<Rightarrow> bool" where
  "stack_at rooted st k \<longleftrightarrow> (\<exists>xs. st = xs @ replicate k ''..'' \<and> (\<forall>x \<in> set xs. plain_element x) \<and> (rooted \<longrightarrow> k = 0))"

lemma clean_step_skip:
  "c = CHR ''/'' \<or> (c = CHR ''.'' \<and> ends_element cs) \<Longrightarrow> clean_loop rooted (c # cs) d out = clean_loop rooted cs d out"
  by (subst clean_loop.simps) simp

lemma clean_step_other:
  assumes "\<not> (c = CHR ''/'' \<or> (c = CHR ''.'' \<and> ends_element cs))"
    and "\<not> (c = CHR ''.'' \<and> cs \<noteq> [] \<and> hd cs = CHR ''.'' \<and> ends_element (tl cs))"
  shows "clean_loop rooted (c # cs) d out =
    clean_loop rooted (dropWhile (\<lambda>c. c \<noteq> CHR ''/'') (c # cs)) d
      ((if (rooted \<and> length out \<noteq> 1) \<or> (\<not> rooted \<and> out \<noteq> []) then out @ ''/'' else out)
        @ takeWhile (\<lambda>c. c \<noteq> CHR ''/'') (c # cs))"
  by (subst clean_loop.simps) (simp only: list.case assms if_False Let_def)

lemma clean_step_climb:
  assumes "\<not> rooted" and "st = replicate k ''..''" and "ends_element ds"
  shows "clean_loop rooted (''..'' @ ds) (dotdot_of rooted k) (render rooted st)
    = clean_loop rooted ds (dotdot_of rooted (Suc k)) (render rooted (''..'' # st))"
proof -
  have out: "length (render rooted st) = dotdot_of rooted k" using assms by (simp add: dotdot_of_def render_def)
  have r: "(if render rooted st \<noteq> [] then render rooted st @ ''/'' else render rooted st) @ ''..'' = render rooted (''..'' # st)"
    using render_empty [of st "[]" k rooted] assms(1,2) by (auto simp: render_Cons)
  have "length (render rooted (''..'' # st)) = dotdot_of rooted (Suc k)"
    using assms(1,2) by (simp add: dotdot_of_def render_def replicate_append_same)
  then show ?thesis
    unfolding r [symmetric] using assms(1,3) out by (subst clean_loop.simps) (simp add: Let_def ends_element_def)
qed

lemma clean_step_dots:
  assumes "stack_at rooted st k" and "ends_element ds"
  shows "\<exists>k'. stack_at rooted (push_element rooted st ''..'') k'
    \<and> clean_loop rooted (''..'' @ ds) (dotdot_of rooted k) (render rooted st)
      = clean_loop rooted ds (dotdot_of rooted k') (render rooted (push_element rooted st ''..''))"
proof -
  obtain xs where st: "st = xs @ replicate k ''..''" "\<forall>x \<in> set xs. plain_element x" "rooted \<longrightarrow> k = 0"
    using assms(1) unfolding stack_at_def by blast
  show ?thesis
  proof (cases xs)
    case Nil
    show ?thesis
    proof (cases rooted)
      case True
      then have "length (render rooted st) = dotdot_of rooted k" using st Nil by (simp add: dotdot_of_def render_def)
      with True st Nil assms show ?thesis
        by (intro exI [of _ k], subst clean_loop.simps) (simp add: push_element_def ends_element_def)
    next
      case False
      have p: "push_element rooted st ''..'' = replicate (Suc k) ''..''"
        using st(1) Nil False by (cases k) (simp_all add: push_element_def)
      then have "stack_at rooted (push_element rooted st ''..'') (Suc k)" using False by (simp add: stack_at_def)
      with clean_step_climb [OF False _ assms(2), of st k] st(1) Nil p show ?thesis by (intro exI [of _ "Suc k"]) simp
    qed
  next
    case (Cons x ys)
    let ?st = "ys @ replicate k ''..''"
    have x: "st = x # ?st" "plain_element x" "\<forall>x \<in> set ys. plain_element x" using st Cons by auto
    note pop = pop_render [OF x(2) refl x(3) st(3)]
    have p: "push_element rooted st ''..'' = ?st" using x by (simp add: push_element_def plain_element_def)
    have "stack_at rooted ?st k" using x(3) st(3) by (auto simp: stack_at_def)
    with pop assms(2) p x(1) show ?thesis
      by (intro exI [of _ k], subst clean_loop.simps) (simp add: Let_def ends_element_def)
  qed
qed

lemma clean_step_name:
  assumes "stack_at rooted st k" and "plain_element e" and "ends_element r"
  shows "stack_at rooted (push_element rooted st e) k"
    and "clean_loop rooted (e @ r) (dotdot_of rooted k) (render rooted st)
      = clean_loop rooted r (dotdot_of rooted k) (render rooted (push_element rooted st e))"
proof -
  obtain xs where st: "st = xs @ replicate k ''..''" "\<forall>x \<in> set xs. plain_element x" "rooted \<longrightarrow> k = 0"
    using assms(1) unfolding stack_at_def by blast
  have p: "push_element rooted st e = e # st" using assms(2) by (simp add: push_element_def plain_element_def)
  show "stack_at rooted (push_element rooted st e) k"
    unfolding p stack_at_def using st assms(2) by (intro exI [of _ "e # xs"]) simp
  obtain c e' where e: "e = c # e'" "c \<noteq> CHR ''/''" "CHR ''/'' \<notin> set e'"
    using assms(2) by (cases e) (auto simp: plain_element_def)
  have no_dot: "\<not> (c = CHR ''.'' \<and> ends_element (e' @ r))"
    using assms(2) e by (cases e') (auto simp: plain_element_def ends_element_def)
  have no_dots: "\<not> (c = CHR ''.'' \<and> e' @ r \<noteq> [] \<and> hd (e' @ r) = CHR ''.'' \<and> ends_element (tl (e' @ r)))"
  proof (cases e')
    case Nil
    then show ?thesis using assms(3) no_dot e by (auto simp: ends_element_def)
  next
    case (Cons d e'')
    then show ?thesis using assms(2) e by (cases e'') (auto simp: plain_element_def ends_element_def)
  qed
  have tw: "takeWhile (\<lambda>c. c \<noteq> CHR ''/'') (e @ r) = e" "dropWhile (\<lambda>c. c \<noteq> CHR ''/'') (e @ r) = r"
    using e assms(3) by (cases r; auto simp: ends_element_def takeWhile_append dropWhile_append)+
  have out: "(if (rooted \<and> length (render rooted st) \<noteq> 1) \<or> (\<not> rooted \<and> render rooted st \<noteq> [])
      then render rooted st @ ''/'' else render rooted st) @ e = render rooted (e # st)"
    using render_empty [OF st(1,2), of rooted] by (auto simp: render_Cons)
  show "clean_loop rooted (e @ r) (dotdot_of rooted k) (render rooted st)
      = clean_loop rooted r (dotdot_of rooted k) (render rooted (push_element rooted st e))"
    using clean_step_other [of c "e' @ r" rooted "dotdot_of rooted k" "render rooted st"] e no_dot no_dots tw
    unfolding p out [symmetric] by (simp del: takeWhile.simps dropWhile.simps)
qed

lemma clean_loop_fold:
  "stack_at rooted st k \<Longrightarrow> clean_loop rooted rest (dotdot_of rooted k) (render rooted st)
    = render rooted (foldl (push_element rooted) st (elements rest))"
proof (induction "length rest" arbitrary: rest st k rule: less_induct)
  case less
  define e where "e = takeWhile (\<lambda>c. c \<noteq> CHR ''/'') rest"
  define r where "r = dropWhile (\<lambda>c. c \<noteq> CHR ''/'') rest"
  have er: "rest = e @ r" and free: "CHR ''/'' \<notin> set e" and ends: "ends_element r"
    using hd_dropWhile [of "\<lambda>c. c \<noteq> CHR ''/''" rest]
    by (auto simp: e_def r_def ends_element_def dest: set_takeWhileD)
  consider "rest = []" | "e = []" "rest \<noteq> []" | "e = ''.''" | "e = ''..''" | "plain_element e"
    using free by (auto simp: plain_element_def)
  then show ?case
  proof cases
    case 1
    then show ?thesis by (simp add: clean_loop.simps elements_simps)
  next
    case 2
    then obtain cs where "rest = CHR ''/'' # cs" using er ends by (cases rest) (auto simp: ends_element_def)
    with less.hyps [of cs] less.prems show ?thesis by (simp add: clean_step_skip elements_simps)
  next
    case 3
    then have "rest = CHR ''.'' # r" using er by simp
    with less.hyps [of r] less.prems ends elements_step [of "''.''" r] show ?thesis
      by (simp add: clean_step_skip push_element_def)
  next
    case 4
    then have "elements rest = ''..'' # elements r" "length r < length rest" using er ends elements_step [of "''..''" r] by auto
    with clean_step_dots [OF less.prems ends] less.hyps er 4 show ?thesis by auto
  next
    case 5
    then have "elements rest = e # elements r" "length r < length rest"
      using er ends free elements_step [of e r] by (auto simp: plain_element_def)
    with clean_step_name [OF less.prems 5 ends] less.hyps er show ?thesis by simp
  qed
qed

lemma clean_reference_eq: "lex_clean path = clean_spec path"
proof (cases "path = []")
  case False
  have "clean_loop True (tl path) 1 ''/'' = render True (foldl (push_element True) [] (elements (tl path)))"
    using clean_loop_fold [of True "[]" 0 "tl path"] by (simp add: stack_at_def dotdot_of_def render_def)
  moreover have "clean_loop False path 0 [] = render False (foldl (push_element False) [] (elements path))"
    using clean_loop_fold [of False "[]" 0 path] by (simp add: stack_at_def dotdot_of_def render_def)
  moreover have "hd path = CHR ''/'' \<Longrightarrow> elements path = elements (tl path)"
    using False by (cases path) (auto simp: elements_simps)
  ultimately show ?thesis
    using False by (auto simp: lex_clean_def clean_spec_def rooted_path_def Let_def)
qed (simp add: lex_clean_def clean_spec_def rooted_path_def elements_simps render_def)

section \<open>Clean paths\<close>

lemma elements_join: "\<forall>e \<in> set es. e \<noteq> [] \<and> CHR ''/'' \<notin> set e \<Longrightarrow> elements (join_with ''/'' es) = es"
  by (induction es rule: induct_list012) (auto simp: elements_simps)

lemma elements_render: "\<forall>e \<in> set st. e \<noteq> [] \<and> CHR ''/'' \<notin> set e \<Longrightarrow> elements (render rooted st) = rev st"
  by (simp add: render_def elements_simps elements_join)

text \<open>Reducing the elements of a clean stack gives the stack back.\<close>

lemma fold_stack:
  assumes "clean_stack rooted st"
  shows "foldl (push_element rooted) [] (rev st) = st"
proof -
  obtain xs k where st: "st = xs @ replicate k ''..''" "\<forall>x \<in> set xs. plain_element x" "rooted \<longrightarrow> k = 0"
    using assms by (auto simp: clean_stack_def)
  have "foldl (push_element rooted) [] (replicate k ''..'') = replicate k ''..''"
  proof (cases rooted)
    case False
    have "foldl (push_element False) (replicate m ''..'') (replicate n ''..'') = replicate (n + m) ''..''" for m n
    proof (induction n arbitrary: m)
      case (Suc n)
      have "push_element False (replicate m ''..'') ''..'' = replicate (Suc m) ''..''"
        by (cases m) (simp_all add: push_element_def)
      with Suc [of "Suc m"] show ?case by simp
    qed simp
    from this [of 0 k] False show ?thesis by simp
  qed (use st in simp)
  moreover have "foldl (push_element rooted) ds (rev xs) = xs @ ds" if "\<forall>x \<in> set xs. plain_element x" for ds xs
    using that by (induction xs) (auto simp: push_element_def plain_element_def)
  ultimately show ?thesis using st by simp
qed

lemma clean_stack_path: "clean_stack (rooted_path p) (foldl (push_element (rooted_path p)) [] (elements p))"
  by (rule fold_clean_stack) (auto simp: clean_stack_def dest: elements_plain)

lemma clean_stack_elements: "clean_stack rooted st \<Longrightarrow> \<forall>e \<in> set st. e \<noteq> [] \<and> CHR ''/'' \<notin> set e"
  unfolding clean_stack_def by (elim exE conjE) (simp add: plain_element_def ball_Un)

lemma rooted_render: "clean_stack rooted st \<Longrightarrow> rooted_path (render rooted st) = rooted"
proof (cases "rev st")
  case (Cons e es)
  assume "clean_stack rooted st"
  then have "e \<noteq> [] \<and> CHR ''/'' \<notin> set e" using clean_stack_elements Cons by (metis list.set_intros(1) set_rev)
  then obtain c e' where "e = c # e'" "c \<noteq> CHR ''/''" by (cases e) auto
  then show ?thesis using Cons by (cases es) (auto simp: rooted_path_def render_def)
qed (auto simp: rooted_path_def render_def)

lemma clean_render:
  assumes "clean_stack rooted st" and "render rooted st \<noteq> []"
  shows "lex_clean (render rooted st) = render rooted st"
  using assms clean_stack_elements [OF assms(1)]
  by (simp add: clean_reference_eq clean_spec_def rooted_render elements_render fold_stack)

lemma clean_cases:
  obtains "lex_clean p = ''.''" | st where "clean_stack (rooted_path p) st" "lex_clean p = render (rooted_path p) st"
    "render (rooted_path p) st \<noteq> []"
  using clean_stack_path [of p] by (fastforce simp: clean_reference_eq clean_spec_def Let_def split: if_splits)

lemma clean_dot: "lex_clean ''.'' = ''.''"
  by (simp add: clean_reference_eq clean_spec_def elements_def push_element_def render_def rooted_path_def)

text \<open>The elements of a clean rooted path.\<close>

lemma clean_rooted_elements:
  assumes "lex_clean p = p" and "rooted_path p"
  shows "p = ''/'' @ join_with ''/'' (elements p)" and "\<forall>e \<in> set (elements p). plain_element e"
proof -
  have "lex_clean p \<noteq> ''.''" using assms by (auto simp: rooted_path_def)
  with assms obtain st where st: "clean_stack True st" "p = render True st"
    by (metis clean_cases)
  have els: "elements p = rev st" using st clean_stack_elements elements_render by blast
  show "p = ''/'' @ join_with ''/'' (elements p)" by (subst els) (simp add: st(2) render_def)
  from st(1) show "\<forall>e \<in> set (elements p). plain_element e" unfolding els by (auto simp: clean_stack_def)
qed


section \<open>Properties\<close>

text \<open>
  C29. The loop of \<open>clean\<close>, which truncates its output buffer at a \<open>..\<close>, gives on every path
  the path of the reference: the elements of the path reduced on a stack.
\<close>

theorem clean_reference: "lex_clean path = clean_spec path"
  by (rule clean_reference_eq)

text \<open>
  C30. Cleaning is idempotent: a cleaned path is clean, so the test that \<open>clean\<close> keeps a path
  accepts exactly the results of \<open>clean\<close>.
\<close>

theorem clean_idempotent: "lex_clean (lex_clean path) = lex_clean path"
  by (cases rule: clean_cases [of path]) (simp_all add: clean_dot clean_render)

end
