(* ===== verification/Policy.thy ===== *)
theory Policy
  imports Glob Lexpath
begin

text \<open>
  The device policy of \<open>src/src/policy/mod.rs\<close>: the daemon-wide policy, the policy of a
  container from its labels, and the decision on a name. A label table is an association list
  with distinct keys; \<open>None\<close> as a list is a list that was never given. The lemmas show that
  labels only narrow, and that every glob of a policy that was made is a clean path strictly
  below \<open>/dev\<close> without a \<open>..\<close> element.
\<close>

definition LABEL_PREFIX :: string where "LABEL_PREFIX = ''swarm-device-access.''"
definition LABEL_ENABLE :: string where "LABEL_ENABLE = ''swarm-device-access.enable''"
definition LABEL_DEVICE_ALLOW :: string where "LABEL_DEVICE_ALLOW = ''swarm-device-access.device-allow''"
definition LABEL_DEVICE_DENY :: string where "LABEL_DEVICE_DENY = ''swarm-device-access.device-deny''"

definition KNOWN_LABELS :: "string list" where
  "KNOWN_LABELS = [LABEL_ENABLE, LABEL_DEVICE_ALLOW, LABEL_DEVICE_DENY]"

definition DEV_PREFIX :: string where "DEV_PREFIX = ''/dev/''"

definition starts_with :: "string \<Rightarrow> string \<Rightarrow> bool" where
  "starts_with s p \<longleftrightarrow> take (length p) s = p"

datatype policy_mode = OptIn | AllMode

fun mode_as_str :: "policy_mode \<Rightarrow> string" where
  "mode_as_str OptIn = ''opt-in''"
| "mode_as_str AllMode = ''all''"

datatype glob_error =
  BadGlob string bad_pattern
| NotClean string
| OutsideDev string

datatype policy_error =
  UnknownMode string
| NotABoolean string string
| LabelGlob string glob_error
| DeviceAllow glob_error
| DeviceDeny glob_error

definition parse_mode :: "string \<Rightarrow> (policy_mode, policy_error) result" where
  "parse_mode m =
     (if m = ''opt-in'' then Inr OptIn else if m = ''all'' then Inr AllMode else Inl (UnknownMode m))"

fun validate_globs :: "'p glob_crate \<Rightarrow> string list \<Rightarrow> (unit, glob_error) result" where
  "validate_globs gc [] = Inr ()"
| "validate_globs gc (pattern # ps) =
     (case compile gc pattern of
        Inl source \<Rightarrow> Inl (BadGlob pattern source)
      | Inr _ \<Rightarrow>
          if lex_clean pattern \<noteq> pattern then Inl (NotClean pattern)
          else if \<not> starts_with pattern DEV_PREFIX then Inl (OutsideDev pattern)
          else validate_globs gc ps)"

section \<open>The daemon-wide policy\<close>

record global_policy =
  g_mode :: policy_mode
  g_allow :: "string list option"
  g_deny :: "string list option"

definition or_default :: "'a list option \<Rightarrow> 'a list" where
  "or_default m = (case m of None \<Rightarrow> [] | Some xs \<Rightarrow> xs)"

definition global_new ::
  "'p glob_crate \<Rightarrow> string \<Rightarrow> string list option \<Rightarrow> string list option
    \<Rightarrow> (global_policy, policy_error) result" where
  "global_new gc m allow_globs deny_globs =
     bindR (parse_mode m) (\<lambda>pm.
     bindR (map_err DeviceAllow (validate_globs gc (or_default allow_globs))) (\<lambda>_.
     bindR (map_err DeviceDeny (validate_globs gc (or_default deny_globs))) (\<lambda>_.
       Inr \<lparr>g_mode = pm, g_allow = allow_globs, g_deny = deny_globs\<rparr>)))"

section \<open>The policy of a container\<close>

record container_policy =
  c_enable :: "bool option"
  c_allow :: "string list option"
  c_deny :: "string list option"

text \<open>The policy of a container without labels.\<close>

definition unlabelled :: container_policy where
  "unlabelled = \<lparr>c_enable = None, c_allow = None, c_deny = None\<rparr>"

definition parse_bool :: "string \<Rightarrow> bool option" where
  "parse_bool v = (if v = ''true'' then Some True else if v = ''false'' then Some False else None)"

definition split_and_trim :: "string \<Rightarrow> string list" where
  "split_and_trim raw = filter (\<lambda>p. p \<noteq> []) (map trim (split_on (CHR '','') raw))"

type_synonym labels = "(string \<times> string) list"

definition parse_glob_list ::
  "'p glob_crate \<Rightarrow> labels \<Rightarrow> string \<Rightarrow> (string list option, policy_error) result" where
  "parse_glob_list gc ls label =
     (let raw = (case map_of ls label of None \<Rightarrow> [] | Some v \<Rightarrow> v) in
      if raw = [] then Inr None
      else let patterns = split_and_trim raw in
        bindR (map_err (LabelGlob label) (validate_globs gc patterns)) (\<lambda>_. Inr (Some patterns)))"

definition container_parse :: "'p glob_crate \<Rightarrow> labels \<Rightarrow> (container_policy, policy_error) result" where
  "container_parse gc ls =
     bindR (case map_of ls LABEL_ENABLE of
              None \<Rightarrow> Inr None
            | Some v \<Rightarrow> map_ok Some (ok_or (NotABoolean LABEL_ENABLE v) (parse_bool v))) (\<lambda>en.
     bindR (parse_glob_list gc ls LABEL_DEVICE_ALLOW) (\<lambda>al.
     bindR (parse_glob_list gc ls LABEL_DEVICE_DENY) (\<lambda>de.
       Inr \<lparr>c_enable = en, c_allow = al, c_deny = de\<rparr>)))"

definition match_any :: "'p glob_crate \<Rightarrow> string list option \<Rightarrow> string \<Rightarrow> bool" where
  "match_any gc patterns path \<longleftrightarrow> (\<exists>p \<in> set (or_default patterns). glob_matches gc p path)"

definition is_empty_list :: "string list option \<Rightarrow> bool" where
  "is_empty_list patterns \<longleftrightarrow> (case patterns of None \<Rightarrow> True | Some ps \<Rightarrow> ps = [])"

definition unknown_labels :: "labels \<Rightarrow> string list" where
  "unknown_labels ls =
     sort (filter (\<lambda>k. starts_with k LABEL_PREFIX \<and> k \<notin> set KNOWN_LABELS) (map fst ls))"

section \<open>Decisions\<close>

definition enabled :: "global_policy \<Rightarrow> container_policy \<Rightarrow> bool" where
  "enabled g c \<longleftrightarrow>
     (if c_enable c = Some False then False
      else case g_mode g of OptIn \<Rightarrow> c_enable c = Some True | AllMode \<Rightarrow> True)"

definition denied :: "'p glob_crate \<Rightarrow> global_policy \<Rightarrow> container_policy \<Rightarrow> string \<Rightarrow> bool" where
  "denied gc g c path \<longleftrightarrow> match_any gc (g_deny g) path \<or> match_any gc (c_deny c) path"

definition authorized :: "'p glob_crate \<Rightarrow> global_policy \<Rightarrow> container_policy \<Rightarrow> string \<Rightarrow> bool" where
  "authorized gc g c path \<longleftrightarrow>
     (if \<not> is_empty_list (g_allow g) \<and> \<not> match_any gc (g_allow g) path then False
      else is_empty_list (c_allow c) \<or> match_any gc (c_allow c) path)"

definition device_allowed :: "'p glob_crate \<Rightarrow> global_policy \<Rightarrow> container_policy \<Rightarrow> string \<Rightarrow> bool" where
  "device_allowed gc g c path \<longleftrightarrow> \<not> denied gc g c path \<and> authorized gc g c path"

definition explicitly_allowed :: "'p glob_crate \<Rightarrow> global_policy \<Rightarrow> container_policy \<Rightarrow> string \<Rightarrow> bool" where
  "explicitly_allowed gc g c path \<longleftrightarrow>
     (\<not> is_empty_list (g_allow g) \<or> \<not> is_empty_list (c_allow c)) \<and> device_allowed gc g c path"

section \<open>Lemmas\<close>

lemma starts_with_append: "starts_with s p \<longleftrightarrow> (\<exists>r. s = p @ r)"
  by (auto simp: starts_with_def) (metis append_take_drop_id)

lemma narrow_denied: "denied gc g unlabelled path \<Longrightarrow> denied gc g c path"
  by (auto simp: denied_def unlabelled_def match_any_def or_default_def)

lemma narrow_authorized: "authorized gc g c path \<Longrightarrow> authorized gc g unlabelled path"
  by (auto simp: authorized_def unlabelled_def is_empty_list_def split: if_splits)

lemma split_and_trim_nil: "split_and_trim [] = []"
  by (simp add: split_and_trim_def trim_def chars.simps)

text \<open>A clean path strictly below a directory given by its elements.\<close>

lemma clean_below_dev:
  assumes "lex_clean p = p" and "starts_with p DEV_PREFIX"
  shows "\<exists>es. es \<noteq> [] \<and> p = ''/dev/'' @ join_with ''/'' es \<and> (\<forall>e \<in> set es. plain_element e)"
proof -
  obtain r where p: "p = ''/dev/'' @ r" using assms(2) by (auto simp: starts_with_append DEV_PREFIX_def)
  have root: "rooted_path p" by (simp add: p rooted_path_def)
  have el: "elements p = ''dev'' # elements r"
    unfolding p using elements_simps(3) [of "''dev''" r] by (simp add: elements_simps(2))
  have ne: "elements r \<noteq> []"
  proof
    assume "elements r = []"
    with clean_rooted_elements(1) [OF assms(1) root] el have "p = ''/dev''" by simp
    with p show False by simp
  qed
  have "p = ''/'' @ ''dev/'' @ join_with ''/'' (elements r)"
    using clean_rooted_elements(1) [OF assms(1) root] el ne by (cases "elements r") auto
  moreover have "\<forall>e \<in> set (elements r). plain_element e"
    using clean_rooted_elements(2) [OF assms(1) root] el by simp
  ultimately show ?thesis using ne by auto
qed

definition glob_confined :: "'p glob_crate \<Rightarrow> string \<Rightarrow> bool" where
  "glob_confined gc p \<longleftrightarrow> (\<exists>t. compile gc p = Inr t)
     \<and> (\<exists>es. es \<noteq> [] \<and> p = ''/dev/'' @ join_with ''/'' es \<and> (\<forall>e \<in> set es. plain_element e))"

lemma confinedI: "compile gc p = Inr t \<Longrightarrow> lex_clean p = p \<Longrightarrow> starts_with p DEV_PREFIX \<Longrightarrow> glob_confined gc p"
  using clean_below_dev [of p] unfolding glob_confined_def by blast

lemma validate_confined: "validate_globs gc ps = Inr u \<Longrightarrow> p \<in> set ps \<Longrightarrow> glob_confined gc p"
  by (induction ps) (auto split: sum.splits if_splits intro: confinedI)

lemma parse_glob_list_confined:
  "parse_glob_list gc ls label = Inr m \<Longrightarrow> p \<in> set (or_default m) \<Longrightarrow> glob_confined gc p"
  by (auto simp: parse_glob_list_def Let_def or_default_def result_simps split: if_splits dest: validate_confined)


section \<open>Properties\<close>


text \<open>
  C27. Every glob of a container whose labels were accepted is one the matcher accepts, and is
  spelled as a clean path strictly below \<open>/dev\<close>, without an empty, \<open>.\<close> or \<open>..\<close> element. The
  same checks make the daemon-wide policy.
\<close>

theorem policy_globs_confined:
  assumes "container_parse gc ls = Inr c" and "p \<in> set (or_default (c_allow c)) \<union> set (or_default (c_deny c))"
  shows "glob_confined gc p"
  using assms by (auto simp: container_parse_def result_simps dest: parse_glob_list_confined)

text \<open>
  C28. The labels of a container are refused exactly when the \<open>enable\<close> label is present and
  neither \<open>true\<close> nor \<open>false\<close>, or a glob of a list fails its checks; an accepted policy holds
  the label as it was written.
\<close>

theorem container_parse_accepts:
  "(\<exists>c. container_parse gc ls = Inr c) \<longleftrightarrow>
     (\<forall>v. map_of ls LABEL_ENABLE = Some v \<longrightarrow> v = ''true'' \<or> v = ''false'')
     \<and> (\<forall>label v. label \<in> {LABEL_DEVICE_ALLOW, LABEL_DEVICE_DENY} \<longrightarrow> map_of ls label = Some v
          \<longrightarrow> validate_globs gc (split_and_trim v) = Inr ())"
proof -
  have list: "(\<exists>m. parse_glob_list gc ls label = Inr m) \<longleftrightarrow>
      (\<forall>v. map_of ls label = Some v \<longrightarrow> validate_globs gc (split_and_trim v) = Inr ())" for label
    by (auto simp: parse_glob_list_def Let_def result_simps split_and_trim_nil split: option.splits if_splits)
  have bool: "(\<exists>m. (case map_of ls LABEL_ENABLE of None \<Rightarrow> Inr None
       | Some v \<Rightarrow> map_ok Some (ok_or (NotABoolean LABEL_ENABLE v) (parse_bool v))) = Inr m) \<longleftrightarrow>
      (\<forall>v. map_of ls LABEL_ENABLE = Some v \<longrightarrow> v = ''true'' \<or> v = ''false'')"
    by (auto simp: parse_bool_def result_simps split: option.splits)
  have "(\<exists>c. container_parse gc ls = Inr c) \<longleftrightarrow>
      (\<exists>m. (case map_of ls LABEL_ENABLE of None \<Rightarrow> Inr None
         | Some v \<Rightarrow> map_ok Some (ok_or (NotABoolean LABEL_ENABLE v) (parse_bool v))) = Inr m)
      \<and> (\<exists>m. parse_glob_list gc ls LABEL_DEVICE_ALLOW = Inr m) \<and> (\<exists>m. parse_glob_list gc ls LABEL_DEVICE_DENY = Inr m)"
    unfolding container_parse_def bindR_Inr_iff by auto
  with list bool show ?thesis by auto
qed


section \<open>Examples\<close>

text \<open>The matcher on patterns without wildcards.\<close>

definition literal_crate :: "string glob_crate" where
  "literal_crate = \<lparr>pattern_new = Some, matches_with = (\<lambda>p name. p = name)\<rparr>"

definition demo_labels :: labels where
  "demo_labels = [(LABEL_ENABLE, ''true''), (LABEL_DEVICE_ALLOW, ''/dev/dri, /dev/kfd''), (LABEL_DEVICE_DENY, ''/dev/sda'')]"

definition demo_policy :: container_policy where
  "demo_policy = \<lparr>c_enable = Some True, c_allow = Some [''/dev/dri'', ''/dev/kfd''], c_deny = Some [''/dev/sda'']\<rparr>"

definition demo_global :: global_policy where
  "demo_global = \<lparr>g_mode = OptIn, g_allow = None, g_deny = Some [''/dev/mem'']\<rparr>"

lemma demo_container_parse: "container_parse literal_crate demo_labels = Inr demo_policy"
  by code_simp

lemma demo_device_allowed: "device_allowed literal_crate demo_global demo_policy ''/dev/kfd''"
  by code_simp


theorem policy_globs_confined_witness: "glob_confined literal_crate ''/dev/dri''"
  using policy_globs_confined [OF demo_container_parse, of "''/dev/dri''"]
  by (simp add: demo_policy_def or_default_def)

theorem container_parse_accepts_witness:
  "\<exists>v. map_of demo_labels LABEL_ENABLE = Some v \<and> v = ''true'' \<and> (\<exists>c. container_parse literal_crate demo_labels = Inr c)"
proof -
  have "validate_globs literal_crate (split_and_trim ''/dev/dri, /dev/kfd'') = Inr ()"
    "validate_globs literal_crate (split_and_trim ''/dev/sda'') = Inr ()" by code_simp+
  with container_parse_accepts [of literal_crate demo_labels] show ?thesis
    by (auto simp: demo_labels_def LABEL_ENABLE_def LABEL_DEVICE_ALLOW_def LABEL_DEVICE_DENY_def)
qed

end
