(* ===== verification/Lifecycle.thy ===== *)
theory Lifecycle
  imports V2plan "HOL-Library.List_Lexorder" "HOL-Library.Char_ord"
begin

text \<open>
  The history of container runs, \<open>src/src/processor/lifecycle.rs\<close>: per container the runs that
  were seen, oldest first, each with the cgroup it was verified in. The ordered map is an
  association list kept sorted by key. Times are those of a package outside the repository: its
  least time and its parser are arguments, a time is a number, and the clock's answer is an
  argument of the operations that read it.
\<close>

datatype lifecycle_state = Provisional | Verified | Terminal

fun lifecycle_state_text :: "lifecycle_state \<Rightarrow> string" where
  "lifecycle_state_text Provisional = ''provisional''"
| "lifecycle_state_text Verified = ''verified''"
| "lifecycle_state_text Terminal = ''terminal''"

datatype cgroup_version = CgroupV1 | CgroupV2

definition MAX_RECORDS_PER_CONTAINER :: nat where "MAX_RECORDS_PER_CONTAINER = 8"

type_synonym timestamp = int

record time_package =
  ts_min :: timestamp
  ts_parse :: "string \<Rightarrow> timestamp option"

record run_cgroup =
  rc_identity :: identity
  rc_version :: cgroup_version
  rc_privileged :: bool

record lifecycle_record =
  lr_container_id :: string
  lr_started_at :: string
  lr_cgroup :: "run_cgroup option"
  lr_state :: lifecycle_state
  lr_first_seen :: timestamp
  lr_observed :: timestamp
  lr_revoked :: bool

definition has_identity :: "lifecycle_record \<Rightarrow> bool" where
  "has_identity r \<longleftrightarrow> lr_cgroup r \<noteq> None"

definition record_identity :: "lifecycle_record \<Rightarrow> identity option" where
  "record_identity r = map_option rc_identity (lr_cgroup r)"

definition started :: "time_package \<Rightarrow> lifecycle_record \<Rightarrow> timestamp option" where
  "started tp r = (if lr_started_at r = [] then None else ts_parse tp (lr_started_at r))"

section \<open>The ordered map\<close>

type_synonym lifecycles = "(string \<times> lifecycle_record list) list"

fun bt_insert :: "string \<Rightarrow> 'v \<Rightarrow> (string \<times> 'v) list \<Rightarrow> (string \<times> 'v) list" where
  "bt_insert k v [] = [(k, v)]"
| "bt_insert k v ((k', v') # m) =
     (if k < k' then (k, v) # (k', v') # m else if k = k' then (k, v) # m else (k', v') # bt_insert k v m)"

definition bt_remove :: "string \<Rightarrow> (string \<times> 'v) list \<Rightarrow> (string \<times> 'v) list" where
  "bt_remove k m = filter (\<lambda>e. fst e \<noteq> k) m"

definition bt_sorted :: "(string \<times> 'v) list \<Rightarrow> bool" where
  "bt_sorted m \<longleftrightarrow> sorted_wrt (<) (map fst m)"

section \<open>Operations\<close>

definition lifecycle_records :: "string \<Rightarrow> lifecycles \<Rightarrow> lifecycle_record list" where
  "lifecycle_records cid lc = (case map_of lc cid of None \<Rightarrow> [] | Some rs \<Rightarrow> rs)"

definition lifecycle_all :: "lifecycles \<Rightarrow> lifecycle_record list" where
  "lifecycle_all lc = concat (map snd lc)"

text \<open>The bound on the records of a container: the oldest ones without an identity go.\<close>

function drop_excess :: "lifecycle_record list \<Rightarrow> lifecycle_record list" where
  "drop_excess rs =
     (if length rs > MAX_RECORDS_PER_CONTAINER then
        (case find_index (\<lambda>r. \<not> has_identity r) rs of
           None \<Rightarrow> rs
         | Some i \<Rightarrow> drop_excess (take i rs @ drop (Suc i) rs))
      else rs)"
  by pat_completeness auto
termination
  by (relation "measure length") (auto dest: find_index_Some)

declare drop_excess.simps [simp del]

definition lifecycle_append :: "lifecycle_record \<Rightarrow> lifecycles \<Rightarrow> lifecycles" where
  "lifecycle_append r lc =
     bt_insert (lr_container_id r) (drop_excess (lifecycle_records (lr_container_id r) lc @ [r])) lc"

definition lifecycle_provisional :: "timestamp \<Rightarrow> string \<Rightarrow> lifecycles \<Rightarrow> lifecycles" where
  "lifecycle_provisional now cid lc =
     (let rs = lifecycle_records cid lc in
      case find_index (\<lambda>r. lr_state r = Provisional) rs of
        Some i \<Rightarrow> bt_insert cid (rs[i := (rs ! i)\<lparr>lr_observed := now\<rparr>]) lc
      | None \<Rightarrow>
          lifecycle_append \<lparr>lr_container_id = cid, lr_started_at = [], lr_cgroup = None, lr_state = Provisional,
            lr_first_seen = now, lr_observed = now, lr_revoked = False\<rparr> lc)"

definition verify_record :: "string \<Rightarrow> run_cgroup \<Rightarrow> lifecycle_record \<Rightarrow> lifecycle_record" where
  "verify_record started_at cg r =
     r\<lparr>lr_started_at := started_at, lr_cgroup := Some cg, lr_revoked := False,
       lr_state := (if lr_state r \<noteq> Terminal then Verified else lr_state r)\<rparr>"

definition lifecycle_verify ::
  "time_package \<Rightarrow> timestamp \<Rightarrow> string \<Rightarrow> string \<Rightarrow> run_cgroup \<Rightarrow> lifecycles \<Rightarrow> lifecycles" where
  "lifecycle_verify tp now cid started_at cg lc =
     (let rs = lifecycle_records cid lc in
      case (case find_index (\<lambda>r. lr_started_at r = started_at) rs of
              Some i \<Rightarrow> Some i
            | None \<Rightarrow> find_index (\<lambda>r. lr_state r = Provisional) rs) of
        Some i \<Rightarrow> bt_insert cid (rs[i := verify_record started_at cg (rs ! i)]) lc
      | None \<Rightarrow>
          lifecycle_append \<lparr>lr_container_id = cid, lr_started_at = started_at, lr_cgroup = Some cg, lr_state = Verified,
            lr_first_seen = now, lr_observed = ts_min tp, lr_revoked = False\<rparr> lc)"

definition lifecycle_lookup :: "string \<Rightarrow> string \<Rightarrow> lifecycles \<Rightarrow> lifecycle_record option" where
  "lifecycle_lookup cid started_at lc = find (\<lambda>r. lr_started_at r = started_at) (lifecycle_records cid lc)"

text \<open>The run that an event at \<open>event_time\<close> ended: the latest start not after it.\<close>

fun latest_start ::
  "time_package \<Rightarrow> timestamp \<Rightarrow> nat \<Rightarrow> lifecycle_record list \<Rightarrow> (nat \<times> timestamp) option \<Rightarrow> (nat \<times> timestamp) option" where
  "latest_start tp event_time i [] matched = matched"
| "latest_start tp event_time i (r # rs) matched =
     latest_start tp event_time (Suc i) rs
       (if lr_state r = Provisional then matched
        else case started tp r of
          None \<Rightarrow> matched
        | Some st \<Rightarrow>
            if \<not> has_identity r \<or> st > event_time then matched
            else if (case matched of None \<Rightarrow> True | Some (_, start) \<Rightarrow> st > start) then Some (i, st) else matched)"

definition end_provisional :: "lifecycle_record \<Rightarrow> lifecycle_record" where
  "end_provisional r = (if lr_state r = Provisional then r\<lparr>lr_state := Terminal\<rparr> else r)"

definition lifecycle_terminate ::
  "time_package \<Rightarrow> string \<Rightarrow> timestamp \<Rightarrow> lifecycles \<Rightarrow> lifecycle_record list \<times> lifecycles" where
  "lifecycle_terminate tp cid event_time lc =
     (case map_of lc cid of
        None \<Rightarrow> ([], lc)
      | Some rs \<Rightarrow>
          (case latest_start tp event_time 0 rs None of
             Some (i, _) \<Rightarrow>
               (let r = (rs ! i)\<lparr>lr_state := Terminal\<rparr> in ([r], bt_insert cid (rs[i := r]) lc))
           | None \<Rightarrow>
               (map end_provisional (filter (\<lambda>r. lr_state r = Provisional) rs),
                bt_insert cid (map end_provisional rs) lc)))"

definition lifecycle_update ::
  "string \<Rightarrow> string \<Rightarrow> (lifecycle_record \<Rightarrow> lifecycle_record) \<Rightarrow> lifecycles \<Rightarrow> lifecycles" where
  "lifecycle_update cid started_at change lc =
     (case map_of lc cid of
        None \<Rightarrow> lc
      | Some rs \<Rightarrow> bt_insert cid (map (\<lambda>r. if lr_started_at r = started_at then change r else r) rs) lc)"

definition mark_terminal :: "string \<Rightarrow> string \<Rightarrow> lifecycles \<Rightarrow> lifecycles" where
  "mark_terminal cid started_at = lifecycle_update cid started_at (\<lambda>r. r\<lparr>lr_state := Terminal\<rparr>)"

definition mark_revoked :: "string \<Rightarrow> string \<Rightarrow> lifecycles \<Rightarrow> lifecycles" where
  "mark_revoked cid started_at =
     lifecycle_update cid started_at (\<lambda>r. if lr_state r = Terminal then r\<lparr>lr_revoked := True\<rparr> else r)"

definition lifecycle_release :: "lifecycle_record \<Rightarrow> lifecycles \<Rightarrow> lifecycles" where
  "lifecycle_release released lc =
     (case map_of lc (lr_container_id released) of
        None \<Rightarrow> lc
      | Some rs \<Rightarrow>
          (let kept = filter (\<lambda>r. lr_started_at r \<noteq> lr_started_at released \<or> lr_first_seen r \<noteq> lr_first_seen released) rs in
           if kept = [] then bt_remove (lr_container_id released) lc else bt_insert (lr_container_id released) kept lc))"


section \<open>The map as an interface\<close>

text \<open>What the history relies on: a store of values by key, with an invariant of its own.\<close>

locale keyed_store =
  fixes get :: "'m \<Rightarrow> 'k \<Rightarrow> 'v option" and put :: "'k \<Rightarrow> 'v \<Rightarrow> 'm \<Rightarrow> 'm" and del :: "'k \<Rightarrow> 'm \<Rightarrow> 'm"
    and store_inv :: "'m \<Rightarrow> bool"
  assumes get_put: "store_inv m \<Longrightarrow> get (put k v m) = (get m)(k \<mapsto> v)"
    and get_del: "store_inv m \<Longrightarrow> get (del k m) = (get m)(k := None)"
    and inv_put: "store_inv m \<Longrightarrow> store_inv (put k v m)"
    and inv_del: "store_inv m \<Longrightarrow> store_inv (del k m)"
begin

definition all_entries :: "('k \<Rightarrow> 'v \<Rightarrow> bool) \<Rightarrow> 'm \<Rightarrow> bool" where
  "all_entries P m \<longleftrightarrow> store_inv m \<and> (\<forall>k v. get m k = Some v \<longrightarrow> P k v)"

lemma all_entries_put: "all_entries P m \<Longrightarrow> P k v \<Longrightarrow> all_entries P (put k v m)"
  by (auto simp: all_entries_def get_put inv_put)

lemma all_entries_del: "all_entries P m \<Longrightarrow> all_entries P (del k m)"
  by (auto simp: all_entries_def get_del inv_del)

lemma all_entries_get: "all_entries P m \<Longrightarrow> get m k = Some v \<Longrightarrow> P k v"
  by (simp add: all_entries_def)

end

lemma bt_insert_keys: "set (map fst (bt_insert k v m)) = insert k (set (map fst m))"
  by (induction k v m rule: bt_insert.induct) auto

lemma bt_insert_get: "bt_sorted m \<Longrightarrow> map_of (bt_insert k v m) = (map_of m)(k \<mapsto> v)"
proof (induction k v m rule: bt_insert.induct)
  case (2 k v k' v' m)
  then have "\<forall>x \<in> set (map fst m). k' < x" "bt_sorted m" by (auto simp: bt_sorted_def)
  moreover have "map_of m k = None" if "k < k'"
    using calculation(1) that by (fastforce simp: map_of_eq_None_iff)
  ultimately show ?case using 2 by (auto simp: fun_eq_iff)
qed simp

lemma bt_insert_sorted: "bt_sorted m \<Longrightarrow> bt_sorted (bt_insert k v m)"
proof (induction k v m rule: bt_insert.induct)
  case (2 k v k' v' m)
  then have less: "\<forall>x \<in> set (map fst m). k' < x" and "bt_sorted m" by (auto simp: bt_sorted_def)
  have "\<forall>x \<in> set (map fst (bt_insert k v m)). k' < x" if "k' < k"
    using less that unfolding bt_insert_keys by auto
  with 2 less show ?case by (auto simp: bt_sorted_def)
qed (simp add: bt_sorted_def)

lemma bt_remove_get: "map_of (bt_remove k m) = (map_of m)(k := None)"
  by (induction m) (auto simp: bt_remove_def fun_eq_iff)

lemma bt_remove_sorted: "bt_sorted m \<Longrightarrow> bt_sorted (bt_remove k m)"
  by (induction m) (auto simp: bt_sorted_def bt_remove_def)

interpretation bt: keyed_store map_of bt_insert bt_remove bt_sorted
  by unfold_locales (simp_all add: bt_insert_get bt_remove_get bt_insert_sorted bt_remove_sorted)

section \<open>The invariant of a history\<close>

definition record_ok :: "string \<Rightarrow> lifecycle_record \<Rightarrow> bool" where
  "record_ok cid r \<longleftrightarrow> lr_container_id r = cid
     \<and> (lr_state r = Verified \<longrightarrow> has_identity r)
     \<and> (lr_state r = Provisional \<longrightarrow> lr_started_at r = [] \<and> \<not> has_identity r)
     \<and> (lr_revoked r \<longrightarrow> lr_state r = Terminal)"

definition provisional_count :: "lifecycle_record list \<Rightarrow> nat" where
  "provisional_count rs = length (filter (\<lambda>r. lr_state r = Provisional) rs)"

definition records_ok :: "string \<Rightarrow> lifecycle_record list \<Rightarrow> bool" where
  "records_ok cid rs \<longleftrightarrow> rs \<noteq> [] \<and> (\<forall>r \<in> set rs. record_ok cid r) \<and> provisional_count rs \<le> 1
     \<and> (length rs \<le> MAX_RECORDS_PER_CONTAINER \<or> (\<forall>r \<in> set rs. has_identity r))"

definition history_ok :: "lifecycles \<Rightarrow> bool" where
  "history_ok lc \<longleftrightarrow> bt.all_entries records_ok lc"

text \<open>One operation of the history.\<close>

inductive lc_step :: "time_package \<Rightarrow> lifecycles \<Rightarrow> lifecycles \<Rightarrow> bool" for tp where
  "lc_step tp lc (lifecycle_provisional now cid lc)"
| "lc_step tp lc (lifecycle_verify tp now cid started_at cg lc)"
| "lc_step tp lc (snd (lifecycle_terminate tp cid event_time lc))"
| "lc_step tp lc (mark_terminal cid started_at lc)"
| "lc_step tp lc (mark_revoked cid started_at lc)"
| "lc_step tp lc (lifecycle_release r lc)"

inductive lc_reachable :: "time_package \<Rightarrow> lifecycles \<Rightarrow> bool" for tp where
  lc_start: "lc_reachable tp []"
| lc_next: "lc_reachable tp lc \<Longrightarrow> lc_step tp lc lc' \<Longrightarrow> lc_reachable tp lc'"

lemma provisional_count_split:
  "i < length rs \<Longrightarrow> provisional_count rs = provisional_count (take i rs) + (if lr_state (rs ! i) = Provisional then 1 else 0)
    + provisional_count (drop (Suc i) rs)"
  by (subst id_take_nth_drop [of i rs]) (simp_all add: provisional_count_def)

lemma drop_excess_ok:
  "set (drop_excess rs) \<subseteq> set rs \<and> provisional_count (drop_excess rs) \<le> provisional_count rs
    \<and> (\<forall>r \<in> set rs. has_identity r \<longrightarrow> r \<in> set (drop_excess rs)) \<and> (rs \<noteq> [] \<longrightarrow> drop_excess rs \<noteq> [])
    \<and> (length (drop_excess rs) \<le> MAX_RECORDS_PER_CONTAINER \<or> (\<forall>r \<in> set (drop_excess rs). has_identity r))"
proof (induction rs rule: drop_excess.induct)
  case (1 rs)
  show ?case
  proof (cases "length rs > MAX_RECORDS_PER_CONTAINER")
    case False
    then show ?thesis by (simp add: drop_excess.simps [of rs])
  next
    case long: True
    show ?thesis
    proof (cases "find_index (\<lambda>r. \<not> has_identity r) rs")
      case None
      then have "\<forall>r \<in> set rs. has_identity r" by (simp add: find_index_None)
      with long None show ?thesis by (simp add: drop_excess.simps [of rs])
    next
      case (Some i)
      let ?rs = "take i rs @ drop (Suc i) rs"
      have i: "i < length rs" "\<not> has_identity (rs ! i)" using find_index_Some [OF Some] by auto
      then have rs: "rs = take i rs @ rs ! i # drop (Suc i) rs" by (simp add: id_take_nth_drop)
      have "set ?rs \<subseteq> set rs" by (auto dest: in_set_takeD in_set_dropD)
      moreover have "provisional_count ?rs \<le> provisional_count rs"
        using provisional_count_split [OF i(1)] by (simp add: provisional_count_def)
      moreover have "\<forall>r \<in> set rs. has_identity r \<longrightarrow> r \<in> set ?rs"
        using i(2) arg_cong [OF rs, of set] by auto
      moreover have "?rs \<noteq> []" using long i(1) by (auto simp: MAX_RECORDS_PER_CONTAINER_def)
      ultimately show ?thesis using 1 [OF long Some] long Some by (auto simp: drop_excess.simps [of rs])
    qed
  qed
qed

lemma history_get: "history_ok lc \<Longrightarrow> map_of lc cid = Some rs \<Longrightarrow> records_ok cid rs"
  unfolding history_ok_def by (rule bt.all_entries_get)

lemma history_put: "history_ok lc \<Longrightarrow> records_ok cid rs \<Longrightarrow> history_ok (bt_insert cid rs lc)"
  unfolding history_ok_def by (rule bt.all_entries_put)

lemma history_records: "history_ok lc \<Longrightarrow> lifecycle_records cid lc = [] \<or> records_ok cid (lifecycle_records cid lc)"
  using history_get by (auto simp: lifecycle_records_def split: option.splits)

lemma append_ok:
  assumes "history_ok lc" and "record_ok (lr_container_id r) r"
    and "lr_state r = Provisional \<Longrightarrow> provisional_count (lifecycle_records (lr_container_id r) lc) = 0"
  shows "history_ok (lifecycle_append r lc)"
proof -
  let ?rs = "lifecycle_records (lr_container_id r) lc @ [r]"
  have old: "lifecycle_records (lr_container_id r) lc = [] \<or> records_ok (lr_container_id r) (lifecycle_records (lr_container_id r) lc)"
    by (rule history_records [OF assms(1)])
  have "provisional_count (lifecycle_records (lr_container_id r) lc) \<le> 1"
    using old by (auto simp: records_ok_def provisional_count_def)
  then have "provisional_count ?rs \<le> 1" using assms(3) by (auto simp: provisional_count_def)
  moreover have "\<forall>x \<in> set ?rs. record_ok (lr_container_id r) x" using old assms(2) by (auto simp: records_ok_def)
  ultimately have "records_ok (lr_container_id r) (drop_excess ?rs)"
    using drop_excess_ok [of ?rs] unfolding records_ok_def by auto
  then show ?thesis unfolding lifecycle_append_def by (rule history_put [OF assms(1)])
qed

text \<open>Changing one record, or every record, of a container.\<close>

lemma update_ok:
  assumes "records_ok cid rs" and "i < length rs" and "record_ok cid r"
    and "lr_state r = Provisional \<longrightarrow> lr_state (rs ! i) = Provisional" and "has_identity (rs ! i) \<longrightarrow> has_identity r"
  shows "records_ok cid (rs[i := r])"
proof -
  have "provisional_count (rs[i := r]) \<le> provisional_count rs"
    using provisional_count_split [OF assms(2)] provisional_count_split [of i "rs[i := r]"] assms(2,4) by simp
  moreover have "\<forall>x \<in> set (rs[i := r]). record_ok cid x"
    using assms(1,3) set_update_subset_insert [of rs i r] by (auto simp: records_ok_def)
  moreover have "(\<forall>x \<in> set rs. has_identity x) \<longrightarrow> (\<forall>x \<in> set (rs[i := r]). has_identity x)"
    using assms(2,5) set_update_subset_insert [of rs i r] by (auto dest: nth_mem)
  ultimately show ?thesis using assms(1) unfolding records_ok_def by auto
qed

lemma map_ok_records:
  assumes "records_ok cid rs"
    and "\<And>r. r \<in> set rs \<Longrightarrow> record_ok cid (f r) \<and> (lr_state (f r) = Provisional \<longrightarrow> lr_state r = Provisional)
      \<and> (has_identity r \<longrightarrow> has_identity (f r))"
  shows "records_ok cid (map f rs)"
proof -
  have "provisional_count (map f rs) \<le> provisional_count rs"
    using assms(2) by (induction rs) (auto simp: provisional_count_def le_SucI)
  with assms show ?thesis by (auto simp: records_ok_def)
qed


lemma provisional_ok:
  assumes "history_ok lc"
  shows "history_ok (lifecycle_provisional now cid lc)"
proof (cases "find_index (\<lambda>r. lr_state r = Provisional) (lifecycle_records cid lc)")
  case None
  then have "provisional_count (lifecycle_records cid lc) = 0" by (simp add: find_index_None provisional_count_def)
  with None assms show ?thesis
    by (auto simp: lifecycle_provisional_def record_ok_def has_identity_def intro!: append_ok)
next
  case (Some i)
  let ?rs = "lifecycle_records cid lc"
  have i: "i < length ?rs" "lr_state (?rs ! i) = Provisional" using find_index_Some [OF Some] by auto
  then have rs: "records_ok cid ?rs" using history_records [OF assms, of cid] by auto
  then have "record_ok cid (?rs ! i)" using i(1) by (auto simp: records_ok_def)
  then have "records_ok cid (?rs[i := (?rs ! i)\<lparr>lr_observed := now\<rparr>])"
    using i by (intro update_ok [OF rs i(1)]) (auto simp: record_ok_def has_identity_def)
  with Some assms show ?thesis by (simp add: lifecycle_provisional_def Let_def history_put)
qed

lemma verify_ok:
  assumes "history_ok lc"
  shows "history_ok (lifecycle_verify tp now cid started_at cg lc)"
proof -
  let ?rs = "lifecycle_records cid lc"
  define found where "found = (case find_index (\<lambda>r. lr_started_at r = started_at) ?rs of
    Some i \<Rightarrow> Some i | None \<Rightarrow> find_index (\<lambda>r. lr_state r = Provisional) ?rs)"
  show ?thesis
  proof (cases found)
    case None
    with assms show ?thesis
      by (auto simp: lifecycle_verify_def found_def record_ok_def has_identity_def intro!: append_ok)
  next
    case (Some i)
    then have i: "i < length ?rs" by (auto simp: found_def dest: find_index_Some split: option.splits)
    then have rs: "records_ok cid ?rs" using history_records [OF assms, of cid] by auto
    then have "record_ok cid (?rs ! i)" using i by (auto simp: records_ok_def)
    then have "records_ok cid (?rs[i := verify_record started_at cg (?rs ! i)])"
      by (intro update_ok [OF rs i]) (auto simp: record_ok_def has_identity_def verify_record_def)
    with Some assms show ?thesis by (simp add: lifecycle_verify_def Let_def found_def [symmetric] history_put)
  qed
qed

lemma lifecycle_update_ok:
  assumes "history_ok lc"
    and "\<And>r. record_ok cid r \<Longrightarrow> record_ok cid (f r) \<and> (lr_state (f r) = Provisional \<longrightarrow> lr_state r = Provisional)
      \<and> (has_identity r \<longrightarrow> has_identity (f r))"
  shows "history_ok (lifecycle_update cid started_at f lc)"
proof (cases "map_of lc cid")
  case (Some rs)
  have rs: "records_ok cid rs" by (rule history_get [OF assms(1) Some])
  have "records_ok cid (map (\<lambda>r. if lr_started_at r = started_at then f r else r) rs)"
    by (rule map_ok_records [OF rs]) (use rs assms(2) in \<open>auto simp: records_ok_def\<close>)
  with Some assms(1) show ?thesis by (simp add: lifecycle_update_def history_put)
qed (simp add: lifecycle_update_def assms)

lemma release_ok:
  assumes "history_ok lc"
  shows "history_ok (lifecycle_release r lc)"
proof (cases "map_of lc (lr_container_id r)")
  case (Some rs)
  let ?kept = "filter (\<lambda>x. lr_started_at x \<noteq> lr_started_at r \<or> lr_first_seen x \<noteq> lr_first_seen r) rs"
  have rs: "records_ok (lr_container_id r) rs" by (rule history_get [OF assms Some])
  have "provisional_count ?kept \<le> provisional_count rs" by (induction rs) (auto simp: provisional_count_def)
  moreover have len: "length ?kept \<le> MAX_RECORDS_PER_CONTAINER" if "length rs \<le> MAX_RECORDS_PER_CONTAINER"
    using that by (rule order_trans [OF length_filter_le])
  ultimately have "records_ok (lr_container_id r) ?kept" if "?kept \<noteq> []"
    using rs that len unfolding records_ok_def by auto
  with Some assms show ?thesis
    unfolding lifecycle_release_def by (auto simp: Let_def history_put) (simp add: history_ok_def bt.all_entries_del)
qed (simp add: lifecycle_release_def assms)

section \<open>The end of a run\<close>

text \<open>The runs that an event can have ended.\<close>

definition eligible :: "time_package \<Rightarrow> timestamp \<Rightarrow> lifecycle_record \<Rightarrow> timestamp \<Rightarrow> bool" where
  "eligible tp event_time r st \<longleftrightarrow> lr_state r \<noteq> Provisional \<and> started tp r = Some st \<and> has_identity r \<and> st \<le> event_time"

lemma latest_start_step:
  "latest_start tp t i (r # rs) m = latest_start tp t (Suc i) rs
     (case m of
        None \<Rightarrow> (if \<exists>st. eligible tp t r st then Some (i, the (started tp r)) else None)
      | Some (k, start) \<Rightarrow> (if \<exists>st. eligible tp t r st \<and> st > start then Some (i, the (started tp r)) else m))"
  by (cases m; cases "started tp r"; cases "lr_state r = Provisional"; cases "has_identity r") (auto simp: eligible_def)

lemma latest_start_Some:
  "latest_start tp t i rs m = Some (k, st) \<Longrightarrow>
    (m = Some (k, st) \<or> (i \<le> k \<and> k < i + length rs \<and> eligible tp t (rs ! (k - i)) st))
    \<and> (\<forall>r \<in> set rs. \<forall>st'. eligible tp t r st' \<longrightarrow> st' \<le> st) \<and> (\<forall>k0 st0. m = Some (k0, st0) \<longrightarrow> st0 \<le> st)"
proof (induction rs arbitrary: i m)
  case (Cons r rs)
  define m' where "m' = (case m of
      None \<Rightarrow> (if \<exists>st. eligible tp t r st then Some (i, the (started tp r)) else None)
    | Some (k, start) \<Rightarrow> (if \<exists>st. eligible tp t r st \<and> st > start then Some (i, the (started tp r)) else m))"
  have "latest_start tp t (Suc i) rs m' = Some (k, st)"
    using Cons.prems unfolding latest_start_step m'_def by simp
  note IH = Cons.IH [OF this]
  have IH1: "m' = Some (k, st) \<or> (Suc i \<le> k \<and> k < Suc i + length rs \<and> eligible tp t (rs ! (k - Suc i)) st)"
    using IH by (rule conjunct1)
  have IH2: "\<forall>r \<in> set rs. \<forall>st'. eligible tp t r st' \<longrightarrow> st' \<le> st" using IH by (elim conjE)
  have IH3: "\<forall>k0 st0. m' = Some (k0, st0) \<longrightarrow> st0 \<le> st" using IH by (elim conjE)
  have later: "(r # rs) ! (k - i) = rs ! (k - Suc i)" if "Suc i \<le> k" using that by (simp add: nth_Cons')
  show ?case
  proof (cases "\<exists>s. eligible tp t r s \<and> (\<forall>k0 s0. m = Some (k0, s0) \<longrightarrow> s > s0)")
    case True
    then obtain s where s: "eligible tp t r s" and above: "\<forall>k0 s0. m = Some (k0, s0) \<longrightarrow> s > s0" by blast
    have m': "m' = Some (i, s)"
      using s above by (cases m) (auto simp: m'_def eligible_def)
    have le: "s \<le> st" using IH3 m' by simp
    have this_run: "\<forall>st'. eligible tp t r st' \<longrightarrow> st' \<le> st" using s le by (simp add: eligible_def)
    have at: "i \<le> k \<and> k < i + length (r # rs) \<and> eligible tp t ((r # rs) ! (k - i)) st"
      using IH1
    proof
      assume "m' = Some (k, st)"
      with m' s show ?thesis by simp
    next
      assume "Suc i \<le> k \<and> k < Suc i + length rs \<and> eligible tp t (rs ! (k - Suc i)) st"
      with later show ?thesis by simp
    qed
    have bound: "\<forall>k0 st0. m = Some (k0, st0) \<longrightarrow> st0 \<le> st" using above le by fastforce
    from at bound this_run IH2 show ?thesis by simp
  next
    case False
    have m': "m' = m" using False by (cases m) (auto simp: m'_def)
    have this_run: "\<forall>st'. eligible tp t r st' \<longrightarrow> st' \<le> st"
    proof (intro allI impI)
      fix st' assume "eligible tp t r st'"
      with False obtain k0 s0 where "m = Some (k0, s0)" "st' \<le> s0" by (auto simp: not_less)
      with IH3 m' show "st' \<le> st" by fastforce
    qed
    have "m = Some (k, st) \<or> (i \<le> k \<and> k < i + length (r # rs) \<and> eligible tp t ((r # rs) ! (k - i)) st)"
      using IH1 later unfolding m' by fastforce
    with IH3 m' this_run IH2 show ?thesis by simp
  qed
qed simp

lemma latest_start_None:
  "latest_start tp t i rs m = None \<Longrightarrow> m = None \<and> (\<forall>r \<in> set rs. \<forall>st. \<not> eligible tp t r st)"
proof (induction rs arbitrary: i m)
  case (Cons r rs)
  note IH = Cons.IH [OF Cons.prems [unfolded latest_start_step]]
  have "m = None \<and> (\<forall>st. \<not> eligible tp t r st)" using conjunct1 [OF IH] by (cases m) (auto split: if_splits)
  with conjunct2 [OF IH] show ?case by simp
qed simp

lemma terminate_ok:
  assumes "history_ok lc"
  shows "history_ok (snd (lifecycle_terminate tp cid event_time lc))"
proof (cases "map_of lc cid")
  case (Some rs)
  have rs: "records_ok cid rs" by (rule history_get [OF assms Some])
  show ?thesis
  proof (cases "latest_start tp event_time 0 rs None")
    case None
    have "records_ok cid (map end_provisional rs)"
      by (rule map_ok_records [OF rs])
        (use rs in \<open>auto simp: records_ok_def record_ok_def end_provisional_def has_identity_def split: if_splits\<close>)
    with Some None assms show ?thesis by (simp add: lifecycle_terminate_def history_put)
  next
    case (Some m)
    then obtain i st where m: "latest_start tp event_time 0 rs None = Some (i, st)" by (cases m) auto
    from latest_start_Some [OF m] have i: "i < length rs" by simp
    have "record_ok cid (rs ! i)" using rs i by (auto simp: records_ok_def)
    then have "records_ok cid (rs[i := (rs ! i)\<lparr>lr_state := Terminal\<rparr>])"
      by (intro update_ok [OF rs i]) (auto simp: record_ok_def has_identity_def)
    with \<open>map_of lc cid = Some rs\<close> m assms show ?thesis by (simp add: lifecycle_terminate_def Let_def history_put)
  qed
qed (simp add: lifecycle_terminate_def assms)

lemma lc_step_ok: "lc_step tp lc lc' \<Longrightarrow> history_ok lc \<Longrightarrow> history_ok lc'"
proof (induction rule: lc_step.induct)
  case (4 lc cid started_at)
  then show ?case unfolding mark_terminal_def
    by (rule lifecycle_update_ok) (auto simp: record_ok_def has_identity_def)
next
  case (5 lc cid started_at)
  then show ?case unfolding mark_revoked_def
    by (rule lifecycle_update_ok) (auto simp: record_ok_def has_identity_def)
qed (auto intro: provisional_ok verify_ok terminate_ok release_ok)

lemma reachable_ok: "lc_reachable tp lc \<Longrightarrow> history_ok lc"
proof (induction rule: lc_reachable.induct)
  case lc_start
  show ?case by (simp add: history_ok_def bt.all_entries_def bt_sorted_def)
qed (rule lc_step_ok)

section \<open>No identity is lost\<close>

definition kept :: "lifecycle_record \<Rightarrow> lifecycle_record list \<Rightarrow> bool" where
  "kept r rs \<longleftrightarrow> (\<exists>r' \<in> set rs. lr_cgroup r' = lr_cgroup r \<and> lr_started_at r' = lr_started_at r)"

lemma records_insert:
  "bt_sorted lc \<Longrightarrow> lifecycle_records cid (bt_insert cid' rs lc) = (if cid' = cid then rs else lifecycle_records cid lc)"
  by (simp add: lifecycle_records_def bt_insert_get)

lemma kept_update:
  assumes "r \<in> set rs" and "i < length rs"
    and "rs ! i = r \<Longrightarrow> lr_cgroup x = lr_cgroup r \<and> lr_started_at x = lr_started_at r"
  shows "kept r (rs[i := x])"
proof (cases "rs ! i = r")
  case True
  with assms show ?thesis by (auto simp: kept_def intro!: bexI [of _ x] set_update_memI)
next
  case False
  obtain k where k: "k < length rs" "rs ! k = r" using assms(1) by (auto simp: in_set_conv_nth)
  with False have "rs[i := x] ! k = r" by (cases "k = i") auto
  with k(1) show ?thesis unfolding kept_def by (metis length_list_update nth_mem)
qed

lemma kept_map: "r \<in> set rs \<Longrightarrow> lr_cgroup (f r) = lr_cgroup r \<Longrightarrow> lr_started_at (f r) = lr_started_at r \<Longrightarrow> kept r (map f rs)"
  by (auto simp: kept_def)

lemma kept_same: "r \<in> set rs \<Longrightarrow> kept r rs"
  by (auto simp: kept_def)

lemma kept_append:
  assumes "bt_sorted lc" and "r \<in> set (lifecycle_records cid lc)" and "has_identity r"
  shows "kept r (lifecycle_records cid (lifecycle_append x lc))"
proof -
  have "r \<in> set (drop_excess (lifecycle_records cid lc @ [x]))"
    using drop_excess_ok [of "lifecycle_records cid lc @ [x]"] assms(2,3) by auto
  with assms(1,2) show ?thesis by (auto simp: lifecycle_append_def records_insert intro: kept_same)
qed

lemma kept_provisional:
  assumes "bt_sorted lc" and "r \<in> set (lifecycle_records cid lc)" and "has_identity r"
  shows "kept r (lifecycle_records cid (lifecycle_provisional now cid' lc))"
proof (cases "find_index (\<lambda>r. lr_state r = Provisional) (lifecycle_records cid' lc)")
  case None
  with kept_append [OF assms] show ?thesis by (simp add: lifecycle_provisional_def)
next
  case (Some i)
  then have "i < length (lifecycle_records cid' lc)" using find_index_Some by blast
  with Some assms show ?thesis
    by (auto simp: lifecycle_provisional_def Let_def records_insert intro: kept_same intro!: kept_update)
qed

lemma kept_verify:
  assumes "bt_sorted lc" and "r \<in> set (lifecycle_records cid lc)" and "has_identity r"
    and "history_ok lc" and "cid' \<noteq> cid \<or> started_at \<noteq> lr_started_at r"
  shows "kept r (lifecycle_records cid (lifecycle_verify tp now cid' started_at cg lc))"
proof -
  let ?rs = "lifecycle_records cid' lc"
  define found where "found = (case find_index (\<lambda>r. lr_started_at r = started_at) ?rs of
    Some i \<Rightarrow> Some i | None \<Rightarrow> find_index (\<lambda>r. lr_state r = Provisional) ?rs)"
  show ?thesis
  proof (cases found)
    case None
    with kept_append [OF assms(1-3)] show ?thesis by (simp add: lifecycle_verify_def found_def)
  next
    case (Some i)
    then have i: "i < length ?rs" and which: "lr_started_at (?rs ! i) = started_at \<or> lr_state (?rs ! i) = Provisional"
      by (auto simp: found_def dest: find_index_Some split: option.splits)
    have "?rs ! i \<noteq> r" if "cid' = cid"
    proof
      assume "?rs ! i = r"
      with which assms(5) that have "lr_state r = Provisional" by auto
      moreover have "record_ok cid r" using history_records [OF assms(4), of cid] assms(2) by (auto simp: records_ok_def)
      ultimately show False using assms(3) by (simp add: record_ok_def)
    qed
    with Some i assms(1,2) show ?thesis
      by (auto simp: lifecycle_verify_def Let_def found_def [symmetric] records_insert intro: kept_same intro!: kept_update)
  qed
qed

lemma kept_lifecycle_update:
  assumes "bt_sorted lc" and "r \<in> set (lifecycle_records cid lc)"
    and "\<And>x. lr_cgroup (f x) = lr_cgroup x \<and> lr_started_at (f x) = lr_started_at x"
  shows "kept r (lifecycle_records cid (lifecycle_update cid' started_at f lc))"
  using assms kept_map [of r "lifecycle_records cid lc" "\<lambda>r. if lr_started_at r = started_at then f r else r"]
  by (auto simp: lifecycle_update_def records_insert kept_same split: option.splits)
    (simp add: lifecycle_records_def)

lemma kept_terminate:
  assumes "bt_sorted lc" and "r \<in> set (lifecycle_records cid lc)"
  shows "kept r (lifecycle_records cid (snd (lifecycle_terminate tp cid' event_time lc)))"
proof (cases "map_of lc cid'")
  case None
  with assms show ?thesis by (simp add: lifecycle_terminate_def kept_same)
next
  case (Some rs)
  show ?thesis
  proof (cases "latest_start tp event_time 0 rs None")
    case None
    have "kept r (map end_provisional rs)" if "r \<in> set rs" using that by (rule kept_map) (simp_all add: end_provisional_def)
    with Some None assms show ?thesis
      by (auto simp: lifecycle_terminate_def records_insert kept_same) (simp add: lifecycle_records_def)
  next
    case m: (Some p)
    obtain i st where p: "p = (i, st)" by (cases p)
    have i: "i < length rs" using latest_start_Some [OF m [unfolded p]] by simp
    have "kept r (rs[i := (rs ! i)\<lparr>lr_state := Terminal\<rparr>])" if "r \<in> set rs" using kept_update [OF that i] by simp
    with Some m p assms show ?thesis
      by (auto simp: lifecycle_terminate_def Let_def records_insert kept_same) (simp add: lifecycle_records_def)
  qed
qed

section \<open>Properties\<close>

text \<open>
  C10. In every history that the operations can reach, the keys are sorted, each record is filed
  under its container, a verified run names its cgroup, a provisional one names none and is the
  only one of its container, only an ended run is marked revoked, and a container has at most
  eight records unless each of them names a cgroup.
\<close>

theorem lifecycle_invariant:
  assumes "lc_reachable tp lc"
  shows "bt_sorted lc \<and> (\<forall>cid rs. map_of lc cid = Some rs \<longrightarrow> records_ok cid rs)"
  using reachable_ok [OF assms] by (simp add: history_ok_def bt.all_entries_def)

text \<open>
  C36. An event that ended a run marks the verified run with the latest start not after the event,
  never a newer run under the same id: it alone changes, and it is what the caller revokes.
\<close>

theorem terminate_latest:
  assumes "lc_reachable tp lc" and "map_of lc cid = Some rs" and "r \<in> set rs" and "eligible tp event_time r st"
    and "lifecycle_terminate tp cid event_time lc = (ended, lc')"
  shows "\<exists>i start. i < length rs \<and> eligible tp event_time (rs ! i) start \<and> st \<le> start
    \<and> ended = [(rs ! i)\<lparr>lr_state := Terminal\<rparr>]
    \<and> map_of lc' = (map_of lc)(cid \<mapsto> rs[i := (rs ! i)\<lparr>lr_state := Terminal\<rparr>])"
proof -
  have sorted: "bt_sorted lc" using reachable_ok [OF assms(1)] by (simp add: history_ok_def bt.all_entries_def)
  obtain i start where m: "latest_start tp event_time 0 rs None = Some (i, start)"
    using latest_start_None [of tp event_time 0 rs None] assms(3,4) by (cases "latest_start tp event_time 0 rs None") auto
  from latest_start_Some [OF m] assms(3,4) have "i < length rs" "eligible tp event_time (rs ! i) start" "st \<le> start" by auto
  with assms(2,5) m sorted show ?thesis
    by (intro exI [of _ i] exI [of _ start]) (auto simp: lifecycle_terminate_def Let_def bt_insert_get)
qed




section \<open>Examples\<close>

definition demo_time :: time_package where
  "demo_time = \<lparr>ts_min = -1, ts_parse = (\<lambda>s. if s = ''2026-01-01T00:00:00Z'' then Some 100
     else if s = ''2026-01-02T00:00:00Z'' then Some 200 else None)\<rparr>"

definition demo_cgroup :: "string \<Rightarrow> run_cgroup" where
  "demo_cgroup path = \<lparr>rc_identity = \<lparr>id_path = path, id_inode = 7\<rparr>, rc_version = CgroupV2, rc_privileged = False\<rparr>"

definition demo_history :: lifecycles where
  "demo_history = lifecycle_verify demo_time 201 ''web'' ''2026-01-02T00:00:00Z'' (demo_cgroup ''/b'')
     (lifecycle_verify demo_time 101 ''web'' ''2026-01-01T00:00:00Z'' (demo_cgroup ''/a'') [])"

definition demo_run :: "string \<Rightarrow> string \<Rightarrow> timestamp \<Rightarrow> lifecycle_record" where
  "demo_run started_at path seen = \<lparr>lr_container_id = ''web'', lr_started_at = started_at, lr_cgroup = Some (demo_cgroup path),
     lr_state = Verified, lr_first_seen = seen, lr_observed = -1, lr_revoked = False\<rparr>"

lemma demo_reachable: "lc_reachable demo_time demo_history"
  unfolding demo_history_def by (rule lc_next [OF lc_next [OF lc_start lc_step.intros(2)] lc_step.intros(2)])

lemma demo_records: "map_of demo_history ''web'' =
    Some [demo_run ''2026-01-01T00:00:00Z'' ''/a'' 101, demo_run ''2026-01-02T00:00:00Z'' ''/b'' 201]"
  by code_simp

lemma demo_eligible: "eligible demo_time 150 (demo_run ''2026-01-01T00:00:00Z'' ''/a'' 101) 100"
  by code_simp

theorem lifecycle_invariant_witness: "bt_sorted demo_history"
  using lifecycle_invariant [OF demo_reachable] by blast

theorem terminate_latest_witness:
  "\<exists>r start. fst (lifecycle_terminate demo_time ''web'' 150 demo_history) = [r] \<and> lr_state r = Terminal
    \<and> started demo_time r = Some start \<and> start \<le> 150"
proof -
  define rs where "rs = [demo_run ''2026-01-01T00:00:00Z'' ''/a'' 101, demo_run ''2026-01-02T00:00:00Z'' ''/b'' 201]"
  have "demo_run ''2026-01-01T00:00:00Z'' ''/a'' 101 \<in> set rs" by (simp add: rs_def)
  from terminate_latest [OF demo_reachable demo_records [folded rs_def] this demo_eligible prod.collapse [symmetric]]
  obtain i start where el: "eligible demo_time 150 (rs ! i) start"
    and run: "fst (lifecycle_terminate demo_time ''web'' 150 demo_history) = [(rs ! i)\<lparr>lr_state := Terminal\<rparr>]" by blast
  have "started demo_time ((rs ! i)\<lparr>lr_state := Terminal\<rparr>) = Some start" "start \<le> 150"
    using el by (auto simp: eligible_def started_def split: if_splits)
  with run show ?thesis by (intro exI [of _ "(rs ! i)\<lparr>lr_state := Terminal\<rparr>"] exI [of _ start]) simp
qed


end
