(* ===== verification/Devfs.thy ===== *)
theory Devfs
  imports Policy Cgroup_Error
begin

text \<open>
  The view of \<open>/dev\<close> of \<open>src/src/processor/devfs.rs\<close>. Names are resolved by the kernel: the
  operations of \<open>DevFs\<close> and of an open node are an interface, \<open>devfs\<close>, whose state may change
  between any two calls. What the repository computes itself is the name of a descriptor
  relative to \<open>/dev\<close> and the walk of a directory, which is proved to visit a list of names that
  depends on the tree only and to stop where its visitor says.
\<close>

definition EXDEV :: errno where "EXDEV = 18"
definition ENOSYS :: errno where "ENOSYS = 38"
definition ESRCH :: errno where "ESRCH = 3"

definition DEV_ROOT :: string where "DEV_ROOT = ''/dev''"

record sys_error =
  se_context :: string
  se_errno :: errno

definition sys_error_new :: "string \<Rightarrow> errno \<Rightarrow> sys_error" where
  "sys_error_new c e = \<lparr>se_context = c, se_errno = e\<rparr>"

datatype device_type = CharDevice | BlockDevice

fun type_letter :: "device_type \<Rightarrow> string" where
  "type_letter CharDevice = ''c''"
| "type_letter BlockDevice = ''b''"

fun sysfs_class :: "device_type \<Rightarrow> string" where
  "sysfs_class CharDevice = ''char''"
| "sysfs_class BlockDevice = ''block''"

record device_id =
  dev_type :: device_type
  dev_major :: u32
  dev_minor :: u32

definition device_id_text :: "device_id \<Rightarrow> string" where
  "device_id_text d = type_letter (dev_type d) @ '' '' @ show_int (uint (dev_major d)) @ '':''
     @ show_int (uint (dev_minor d))"

datatype node_kind = NodeDevice device_id | NodeDir | NodeOther

datatype walk_control = Continue | SkipAll

text \<open>
  A visit of a walk: the path, whether it is a directory, and the error that kept the walk from
  reading it. \<open>dev_walk\<close> gives the visits that the walk makes when none of them ends it.
\<close>

type_synonym visit = "string \<times> bool \<times> sys_error option"

record ('d, 'n) devfs =
  dev_root :: string
  dev_open :: "string \<Rightarrow> ('d, 'n, sys_error) call"
  dev_stat :: "'n \<Rightarrow> ('d, node_kind, sys_error) call"
  dev_resolved :: "'n \<Rightarrow> 'd \<Rightarrow> string \<times> 'd"
  dev_read_link :: "string \<Rightarrow> ('d, string, sys_error) call"
  dev_read_uevent :: "device_id \<Rightarrow> ('d, string, sys_error) call"
  dev_walk :: "string \<Rightarrow> 'd \<Rightarrow> visit list \<times> 'd"

text \<open>The visits of a walk, in order, until one ends it.\<close>

fun run_visits :: "(visit \<Rightarrow> 's \<Rightarrow> walk_control \<times> 's) \<Rightarrow> visit list \<Rightarrow> 's \<Rightarrow> walk_control \<times> 's" where
  "run_visits f [] s = (Continue, s)"
| "run_visits f (v # vs) s =
     (case f v s of
        (SkipAll, s1) \<Rightarrow> (SkipAll, s1)
      | (Continue, s1) \<Rightarrow> run_visits f vs s1)"

section \<open>Names of descriptors\<close>

definition strip_prefix :: "string \<Rightarrow> string \<Rightarrow> string option" where
  "strip_prefix p s = (if starts_with s p then Some (drop (length p) s) else None)"

definition relative_beneath :: "string \<Rightarrow> string \<Rightarrow> string option" where
  "relative_beneath dir target =
     (if \<not> starts_with target ''/'' then None
      else let d = lex_clean dir; t = lex_clean target in
        if d = t then Some ''.''
        else strip_prefix ((if d = ''/'' then [] else d) @ ''/'') t)"

text \<open>The name of a descriptor, from what its link under \<open>/proc\<close> says.\<close>

definition node_resolved :: "string \<Rightarrow> string option \<Rightarrow> string" where
  "node_resolved dir link =
     (case link of
        None \<Rightarrow> []
      | Some raw \<Rightarrow>
          (case relative_beneath dir (from_utf8_lossy raw) of
             None \<Rightarrow> []
           | Some rel \<Rightarrow> lex_join [DEV_ROOT, rel]))"

definition uevent_path :: "string \<Rightarrow> device_id \<Rightarrow> string" where
  "uevent_path sysfs_root d =
     lex_join [sysfs_root, ''dev'', sysfs_class (dev_type d),
       show_int (uint (dev_major d)) @ '':'' @ show_int (uint (dev_minor d)), ''uevent'']"

definition sysfs_root_for :: "(string \<Rightarrow> bool) \<Rightarrow> string \<Rightarrow> string" where
  "sysfs_root_for has_metadata host_root =
     (let mounted = lex_join [host_root, ''sys''] in
      if has_metadata (lex_join [mounted, ''dev'']) then mounted else ''/sys'')"

datatype probe_error = Unsupported errno | Probe errno

definition probe_openat2 :: "(unit, errno) result \<Rightarrow> (unit, probe_error) result" where
  "probe_openat2 answer =
     (case answer of
        Inr _ \<Rightarrow> Inr ()
      | Inl e \<Rightarrow> Inl (if e = ENOSYS \<or> e = EINVAL then Unsupported e else Probe e))"

section \<open>The walk\<close>

text \<open>
  A directory tree as the listings report it: an entry is a directory or not, a directory has its
  entries in the order they were read and the error that ended the listing.
\<close>

datatype fs_tree = FsFile | FsDir "(string \<times> fs_tree) list" "sys_error option"

fun is_fs_dir :: "fs_tree \<Rightarrow> bool" where
  "is_fs_dir FsFile = False"
| "is_fs_dir (FsDir es err) = True"

definition read_dir_sorted :: "(string \<times> fs_tree) list \<Rightarrow> (string \<times> fs_tree) list" where
  "read_dir_sorted es = sort_key fst es"

text \<open>The number of visits of a tree, which bounds the recursion.\<close>

fun fs_nodes :: "fs_tree \<Rightarrow> nat" where
  "fs_nodes FsFile = 1"
| "fs_nodes (FsDir es err) = Suc (sum_list (map (\<lambda>e. Suc (fs_nodes (snd e))) es))"

lemma read_dir_sorted_sum: "sum_list (map f (read_dir_sorted es)) = (sum_list (map f es) :: nat)"
proof -
  have ins: "sum_list (map f (insort_key fst x xs)) = f x + sum_list (map f xs)" for x xs
    by (induction xs) auto
  show ?thesis unfolding read_dir_sorted_def by (induction es) (simp_all add: ins sort_key_def)
qed

function walk_entry :: "(visit \<Rightarrow> 's \<Rightarrow> walk_control \<times> 's) \<Rightarrow> string \<Rightarrow> fs_tree \<Rightarrow> 's \<Rightarrow> walk_control \<times> 's"
  and walk_entries ::
    "(visit \<Rightarrow> 's \<Rightarrow> walk_control \<times> 's) \<Rightarrow> string \<Rightarrow> (string \<times> fs_tree) list \<Rightarrow> 's \<Rightarrow> walk_control \<times> 's" where
  "walk_entry f path tree s =
     (case f (path, is_fs_dir tree, None) s of
        (SkipAll, s1) \<Rightarrow> (SkipAll, s1)
      | (Continue, s1) \<Rightarrow>
          (case tree of
             FsFile \<Rightarrow> (Continue, s1)
           | FsDir es err \<Rightarrow>
               (case (case err of None \<Rightarrow> (Continue, s1) | Some e \<Rightarrow> f (path, True, Some e) s1) of
                  (SkipAll, s2) \<Rightarrow> (SkipAll, s2)
                | (Continue, s2) \<Rightarrow> walk_entries f path (read_dir_sorted es) s2)))"
| "walk_entries f path [] s = (Continue, s)"
| "walk_entries f path ((name, tree) # es) s =
     (case walk_entry f (lex_join [path, name]) tree s of
        (SkipAll, s1) \<Rightarrow> (SkipAll, s1)
      | (Continue, s1) \<Rightarrow> walk_entries f path es s1)"
  by pat_completeness auto
termination
  by (relation "measure (\<lambda>x. case x of
        Inl (_, _, tree, _) \<Rightarrow> fs_nodes tree
      | Inr (_, _, es, _) \<Rightarrow> sum_list (map (\<lambda>e. Suc (fs_nodes (snd e))) es))")
    (auto simp: read_dir_sorted_sum)

declare walk_entry.simps [simp del]

text \<open>The root of a walk is read first; a root that cannot be read is visited with the error.\<close>

definition walk_dir :: "(visit \<Rightarrow> 's \<Rightarrow> walk_control \<times> 's) \<Rightarrow> string \<Rightarrow> (fs_tree, sys_error) result \<Rightarrow> 's \<Rightarrow> walk_control \<times> 's" where
  "walk_dir f root tree s =
     (case tree of
        Inl e \<Rightarrow> (Continue, snd (f (root, False, Some e) s))
      | Inr t \<Rightarrow> walk_entry f root t s)"

section \<open>A walk is the list of its visits\<close>

function tree_visits :: "string \<Rightarrow> fs_tree \<Rightarrow> visit list" and entry_visits :: "string \<Rightarrow> (string \<times> fs_tree) list \<Rightarrow> visit list" where
  "tree_visits path tree =
     (path, is_fs_dir tree, None) #
       (case tree of
          FsFile \<Rightarrow> []
        | FsDir es err \<Rightarrow>
            (case err of None \<Rightarrow> [] | Some e \<Rightarrow> [(path, True, Some e)]) @ entry_visits path (read_dir_sorted es))"
| "entry_visits path [] = []"
| "entry_visits path ((name, tree) # es) = tree_visits (lex_join [path, name]) tree @ entry_visits path es"
  by pat_completeness auto
termination
  by (relation "measure (\<lambda>x. case x of
        Inl (_, tree) \<Rightarrow> fs_nodes tree
      | Inr (_, es) \<Rightarrow> sum_list (map (\<lambda>e. Suc (fs_nodes (snd e))) es))")
    (auto simp: read_dir_sorted_sum)

declare tree_visits.simps [simp del]

lemma run_visits_append:
  "run_visits f (us @ vs) s =
     (case run_visits f us s of (SkipAll, s1) \<Rightarrow> (SkipAll, s1) | (Continue, s1) \<Rightarrow> run_visits f vs s1)"
  by (induction us arbitrary: s) (auto split: prod.splits walk_control.splits)

lemma walk_entry_visits:
  "walk_entry f path tree s = run_visits f (tree_visits path tree) s"
  "walk_entries f path es s = run_visits f (entry_visits path es) s"
proof (induction f path tree s and f path es s rule: walk_entry_walk_entries.induct)
  case (1 f path tree s)
  show ?case
  proof (cases tree)
    case FsFile
    then show ?thesis
      by (simp add: walk_entry.simps tree_visits.simps split: prod.splits walk_control.splits)
  next
    case (FsDir es err)
    with 1 show ?thesis
      by (cases err) (auto simp: walk_entry.simps [of f path "FsDir es e" for e] tree_visits.simps [of path "FsDir es e" for e]
          split: prod.splits walk_control.splits)
  qed
qed (auto simp: run_visits_append split: prod.splits walk_control.splits)

section \<open>Properties\<close>

text \<open>
  C35. The walk of a directory is the list of its visits: the recursion, which calls its visitor on
  the way, runs the visitor on that list in order and stops where the visitor ends it.
\<close>

theorem walk_is_visits: "walk_entry f path tree s = run_visits f (tree_visits path tree) s"
  by (rule walk_entry_visits)

end
