(* ===== verification/Procfs.thy ===== *)
theory Procfs
  imports Devfs Lifecycle
begin

text \<open>
  Where the device cgroup of a process lives: the parsers of \<open>src/src/cgroup/api.rs\<close>,
  \<open>v1.rs\<close> and \<open>v2.rs\<close> over the contents of \<open>/proc/<pid>/cgroup\<close> and
  \<open>/proc/<pid>/mountinfo\<close>. A file is the string of its bytes; a loop over its lines that
  returns early is a recursion over them.
\<close>

definition CGROUP_FILE :: string where "CGROUP_FILE = ''cgroup''"
definition MOUNTINFO_FILE :: string where "MOUNTINFO_FILE = ''mountinfo''"

record proc_cgroup =
  pc_version :: cgroup_version
  pc_mount_prefix :: string
  pc_mount_point :: string
  pc_root :: string

fun version_number :: "cgroup_version \<Rightarrow> nat" where
  "version_number CgroupV1 = 1"
| "version_number CgroupV2 = 2"

datatype parse_error =
    MalformedCgroupEntry string
  | MalformedMountinfoEntry string
  | RelativeMountPrefix string
  | NoDeviceOrUnifiedCgroup
  | NoCgroupV1Fs
  | NoDevicesCgroup
  | NoCgroup2Fs
  | NoCgroupV2Entry
  | ParseRead string line_too_long

type_synonym proc_lines = "(string, parse_error) result list"

definition scan_lines :: "string \<Rightarrow> string \<Rightarrow> proc_lines" where
  "scan_lines data name = map (\<lambda>l. map_err (ParseRead name) (map_ok from_utf8_lossy l)) (lines data)"

section \<open>The cgroup file\<close>

text \<open>
  A line split at its first two colons, as \<open>splitn(3, ':')\<close> does: the controllers and the path,
  or nothing for a line with fewer colons.
\<close>

definition split_once :: "char \<Rightarrow> string \<Rightarrow> (string \<times> string) option" where
  "split_once c s =
     (case dropWhile (\<lambda>x. x \<noteq> c) s of [] \<Rightarrow> None | _ # rest \<Rightarrow> Some (takeWhile (\<lambda>x. x \<noteq> c) s, rest))"

definition cgroup_entry :: "string \<Rightarrow> (string \<times> string) option" where
  "cgroup_entry line = (case split_once CHR '':'' line of None \<Rightarrow> None | Some (_, rest) \<Rightarrow> split_once CHR '':'' rest)"

fun version_loop :: "proc_lines \<Rightarrow> bool \<Rightarrow> bool \<Rightarrow> (cgroup_version, parse_error) result" where
  "version_loop [] devices unified =
     (if devices then Inr CgroupV1 else if unified then Inr CgroupV2 else Inl NoDeviceOrUnifiedCgroup)"
| "version_loop (l # ls) devices unified =
     bindR l (\<lambda>line.
       case cgroup_entry line of
         None \<Rightarrow> Inl (MalformedCgroupEntry line)
       | Some (controllers, _) \<Rightarrow>
           version_loop ls (devices \<or> controllers = ''devices'') (unified \<or> controllers = []))"

definition scan_cgroup_version :: "string \<Rightarrow> string \<Rightarrow> (cgroup_version, parse_error) result" where
  "scan_cgroup_version data name = version_loop (scan_lines data name) False False"

text \<open>The path below the root of the mount, of the entry whose controllers are the wanted ones.\<close>

definition below_prefix :: "string \<Rightarrow> string \<Rightarrow> string" where
  "below_prefix prefix root =
     (if prefix = ''/'' then root else case strip_prefix prefix root of None \<Rightarrow> root | Some r \<Rightarrow> r)"

fun proc_cgroup_loop :: "string \<Rightarrow> parse_error \<Rightarrow> string \<Rightarrow> proc_lines \<Rightarrow> (string, parse_error) result" where
  "proc_cgroup_loop wanted none prefix [] = Inl none"
| "proc_cgroup_loop wanted none prefix (l # ls) =
     bindR l (\<lambda>line.
       case cgroup_entry line of
         None \<Rightarrow> Inl (MalformedCgroupEntry line)
       | Some (controllers, root) \<Rightarrow>
           if controllers \<noteq> wanted then proc_cgroup_loop wanted none prefix ls
           else Inr (below_prefix prefix root))"

definition scan_proc_cgroup_v1 :: "string \<Rightarrow> string \<Rightarrow> string \<Rightarrow> (string, parse_error) result" where
  "scan_proc_cgroup_v1 data name prefix = proc_cgroup_loop ''devices'' NoDevicesCgroup prefix (scan_lines data name)"

definition scan_proc_cgroup_v2 :: "string \<Rightarrow> string \<Rightarrow> string \<Rightarrow> (string, parse_error) result" where
  "scan_proc_cgroup_v2 data name prefix = proc_cgroup_loop [] NoCgroupV2Entry prefix (scan_lines data name)"

section \<open>The mountinfo file\<close>

text \<open>
  The first mount that \<open>wanted\<close> accepts, by its file system type, the third field from the end,
  and its mount point. The root of the mount must not leave the hierarchy.
\<close>

fun mount_info_loop ::
  "(string \<Rightarrow> string \<Rightarrow> bool) \<Rightarrow> parse_error \<Rightarrow> proc_lines \<Rightarrow> (string \<times> string, parse_error) result" where
  "mount_info_loop wanted none [] = Inl none"
| "mount_info_loop wanted none (l # ls) =
     bindR l (\<lambda>line.
       let parts = split_on CHR '' '' line in
       if length parts < 5 then Inl (MalformedMountinfoEntry line)
       else if \<not> wanted (parts ! (length parts - 3)) (parts ! 4) then mount_info_loop wanted none ls
       else if starts_with (parts ! 3) ''/..'' then Inl (RelativeMountPrefix (parts ! 3))
       else Inr (parts ! 3, parts ! 4))"

definition scan_mount_info_v1 :: "string \<Rightarrow> string \<Rightarrow> (string \<times> string, parse_error) result" where
  "scan_mount_info_v1 data name =
     mount_info_loop (\<lambda>fs point. fs = ''cgroup'' \<and> lex_base point = ''devices'') NoCgroupV1Fs (scan_lines data name)"

definition scan_mount_info_v2 :: "string \<Rightarrow> string \<Rightarrow> (string \<times> string, parse_error) result" where
  "scan_mount_info_v2 data name = mount_info_loop (\<lambda>fs point. fs = ''cgroup2'') NoCgroup2Fs (scan_lines data name)"

definition parse_proc_cgroup :: "string \<Rightarrow> string \<Rightarrow> (proc_cgroup, parse_error) result" where
  "parse_proc_cgroup cgroup_data mountinfo =
     bindR (scan_cgroup_version cgroup_data CGROUP_FILE) (\<lambda>v.
     bindR (case v of
        CgroupV1 \<Rightarrow>
          bindR (scan_mount_info_v1 mountinfo MOUNTINFO_FILE) (\<lambda>(prefix, point).
          bindR (scan_proc_cgroup_v1 cgroup_data CGROUP_FILE prefix) (\<lambda>root. Inr (prefix, point, root)))
      | CgroupV2 \<Rightarrow>
          bindR (scan_mount_info_v2 mountinfo MOUNTINFO_FILE) (\<lambda>(prefix, point).
          bindR (scan_proc_cgroup_v2 cgroup_data CGROUP_FILE prefix) (\<lambda>root. Inr (prefix, point, root)))) (\<lambda>(prefix, point, root).
       Inr \<lparr>pc_version = v, pc_mount_prefix = prefix, pc_mount_point = point, pc_root = root\<rparr>))"

end
