(* ===== verification/Pin.thy ===== *)
theory Pin
  imports Procfs
begin

text \<open>
  A cgroup directory held open, \<open>src/src/cgroup/handle.rs\<close>, and a process held by a pidfd,
  \<open>src/src/processor/pin.rs\<close>. The system calls they make are an interface, \<open>syscalls\<close>: each
  one acts on the state of the system, which may change between any two of them. A file
  descriptor is a value of the type \<open>'f\<close>.
\<close>

record ('k, 'f) syscalls =
  sys_open_dir :: "string \<Rightarrow> ('k, 'f, errno) call"
  sys_fstat_ino :: "'f \<Rightarrow> ('k, u64, errno) call"
  sys_stat_ino :: "string \<Rightarrow> ('k, u64, errno) call"
  sys_openat :: "'f \<Rightarrow> string \<Rightarrow> ('k, 'f, errno) call"
  sys_read :: "'f \<Rightarrow> ('k, string, errno) call"
  sys_pidfd_open :: "int \<Rightarrow> ('k, 'f, errno) call"
  sys_poll :: "'f \<Rightarrow> ('k, nat, errno) call"

section \<open>Cgroup directories\<close>

record 'f cgroup_handle =
  h_fd :: 'f
  h_identity :: identity

datatype handle_error =
    HandleOpen string errno
  | HandleStat string errno
  | OpenProcs string errno
  | ReadProcs string errno

definition handle_open :: "('k, 'f) syscalls \<Rightarrow> string \<Rightarrow> ('k, 'f cgroup_handle, handle_error) call" where
  "handle_open sys path =
     bindS (map_errS (HandleOpen path) (sys_open_dir sys path)) (\<lambda>fd.
     bindS (map_errS (HandleStat path) (sys_fstat_ino sys fd)) (\<lambda>ino.
       retS \<lparr>h_fd = fd, h_identity = \<lparr>id_path = path, id_inode = ino\<rparr>\<rparr>))"

definition lists_process :: "int \<Rightarrow> string \<Rightarrow> bool" where
  "lists_process pid data \<longleftrightarrow> show_int pid \<in> set (split_whitespace (from_utf8_lossy data))"

definition has_process :: "('k, 'f) syscalls \<Rightarrow> 'f cgroup_handle \<Rightarrow> int \<Rightarrow> ('k, bool, handle_error) call" where
  "has_process sys h pid =
     bindS (map_errS (OpenProcs (id_path (h_identity h))) (sys_openat sys (h_fd h) ''cgroup.procs'')) (\<lambda>fd.
     bindS (map_errS (ReadProcs (id_path (h_identity h))) (sys_read sys fd)) (\<lambda>data.
       retS (lists_process pid data)))"

section \<open>Pinned processes\<close>

datatype pin_error = PinOpen int errno | PinGone errno

text \<open>A pid that is no positive \<open>pid_t\<close> names no process.\<close>

definition pin :: "('k, 'f) syscalls \<Rightarrow> int \<Rightarrow> ('k, 'f, pin_error) call" where
  "pin sys pid =
     map_errS (PinOpen pid) (if 0 < pid \<and> pid < 2 ^ 31 then sys_pidfd_open sys pid else liftS (Inl EINVAL))"

definition alive :: "('k, 'f) syscalls \<Rightarrow> 'f \<Rightarrow> ('k, unit, pin_error) call" where
  "alive sys pidfd =
     bindS (map_errS PinGone (sys_poll sys pidfd)) (\<lambda>n.
       if n = 0 then retS () else liftS (Inl (PinGone ESRCH)))"

datatype proc_cgroup_error =
    ProcOpenDir string errno
  | ProcOpen string errno
  | ProcRead string errno
  | ProcParse int parse_error

definition read_at :: "('k, 'f) syscalls \<Rightarrow> 'f \<Rightarrow> string \<Rightarrow> ('k, string, proc_cgroup_error) call" where
  "read_at sys dir name =
     bindS (map_errS (ProcOpen name) (sys_openat sys dir name)) (\<lambda>fd. map_errS (ProcRead name) (sys_read sys fd))"

definition read_proc_cgroup :: "('k, 'f) syscalls \<Rightarrow> string \<Rightarrow> int \<Rightarrow> ('k, proc_cgroup, proc_cgroup_error) call" where
  "read_proc_cgroup sys proc_root pid =
     (let dir_path = lex_join [proc_root, ''proc'', show_int pid] in
      bindS (map_errS (ProcOpenDir dir_path) (sys_open_dir sys dir_path)) (\<lambda>dir.
      bindS (read_at sys dir ''cgroup'') (\<lambda>cg.
      bindS (read_at sys dir ''mountinfo'') (\<lambda>mi.
        liftS (map_err (ProcParse pid) (parse_proc_cgroup cg mi))))))"

definition host_cgroup_path :: "string \<Rightarrow> string \<Rightarrow> string \<Rightarrow> string \<Rightarrow> string" where
  "host_cgroup_path host_root point prefix root = lex_join [host_root, point, prefix, root]"

end
