(* ===== verification/Rules.thy ===== *)
theory Rules
  imports Devfs Ebpf
begin

text \<open>
  The device rules of a container, \<open>src/src/processor/rules.rs\<close>: each name of a bind mount from
  \<open>/dev\<close> is resolved on a descriptor, judged by the policy under its three names, and the
  candidates are aggregated per device over all mounts. The operations on \<open>/dev\<close> are those of
  \<open>devfs\<close>, threaded as explicit state. Log records and metrics are not modelled.
\<close>

definition MAX_MOUNT_ENTRIES :: nat where "MAX_MOUNT_ENTRIES = 4096"
definition MAX_LOG_CHILDREN :: nat where "MAX_LOG_CHILDREN = 32"
definition MAX_LINK_HOPS :: nat where "MAX_LINK_HOPS = 40"
definition DEVICE_ACCESS_ALL :: string where "DEVICE_ACCESS_ALL = ''rwm''"
definition BIND_MOUNT :: string where "BIND_MOUNT = ''bind''"
definition SKIP_OUTSIDE_DEV :: string where "SKIP_OUTSIDE_DEV = ''outside_dev''"
definition SKIP_DANGLING :: string where "SKIP_DANGLING = ''dangling''"
definition SKIP_NOT_DEVICE :: string where "SKIP_NOT_DEVICE = ''not_device''"

record decision =
  denied_by :: "string option"
  is_authorized :: bool

definition decision_default :: decision where
  "decision_default = \<lparr>denied_by = None, is_authorized = False\<rparr>"

definition granted :: "decision \<Rightarrow> bool" where
  "granted d \<longleftrightarrow> denied_by d = None \<and> is_authorized d"

record candidate =
  cand_alias :: string
  cand_resolved :: string
  cand_canonical :: string
  cand_kind :: node_kind
  cand_decision :: decision

datatype bad_devname = DevnameCount nat | DevnameInvalid string | DevnameLineTooLong

datatype cause = SysCause sys_error | BadDevname bad_devname | TooManyLinks

datatype device_error =
  Unresolved string "(string \<times> device_id) option" cause
| MountSourceGone string
| DevOpen sys_error
| NotDevice string
| IncompleteWalk string sys_error
| MountTooLarge string

fun is_unresolved :: "device_error \<Rightarrow> bool" where
  "is_unresolved (Unresolved a d c) = True"
| "is_unresolved (MountSourceGone p) = True"
| "is_unresolved (DevOpen e) = True"
| "is_unresolved _ = False"

fun is_incomplete_walk :: "device_error \<Rightarrow> bool" where
  "is_incomplete_walk (IncompleteWalk n c) = True"
| "is_incomplete_walk (MountTooLarge s) = True"
| "is_incomplete_walk _ = False"

record mount_result =
  mr_candidates :: "candidate list"
  mr_skipped :: nat
  mr_errs :: "device_error list"
  mr_outcomes :: "string \<Rightarrow> nat"

definition mount_result_default :: mount_result where
  "mount_result_default = \<lparr>mr_candidates = [], mr_skipped = 0, mr_errs = [], mr_outcomes = (\<lambda>_. 0)\<rparr>"

definition add_skip :: "string \<Rightarrow> mount_result \<Rightarrow> mount_result" where
  "add_skip reason r = r\<lparr>mr_skipped := mr_skipped r + 1,
     mr_outcomes := (mr_outcomes r)(reason := mr_outcomes r reason + 1)\<rparr>"

definition push_err :: "device_error \<Rightarrow> mount_result \<Rightarrow> mount_result" where
  "push_err e r = r\<lparr>mr_errs := mr_errs r @ [e]\<rparr>"

definition push_candidate :: "candidate \<Rightarrow> mount_result \<Rightarrow> mount_result" where
  "push_candidate c r = r\<lparr>mr_candidates := mr_candidates r @ [c]\<rparr>"

definition is_mount_source :: "string \<Rightarrow> bool" where
  "is_mount_source path \<longleftrightarrow> path = DEV_ROOT \<or> starts_with path ''/dev/''"

definition under_dev :: "string \<Rightarrow> bool" where
  "under_dev path \<longleftrightarrow> lex_clean path = path \<and> is_mount_source path"

definition rel_to_dev :: "string \<Rightarrow> string" where
  "rel_to_dev path =
     (if path = DEV_ROOT then ''.''
      else case strip_prefix ''/dev/'' path of None \<Rightarrow> path | Some r \<Rightarrow> r)"

text \<open>The policy a collection judges by, with the matcher of its globs.\<close>

record 'p judge =
  j_crate :: "'p glob_crate"
  j_global :: global_policy
  j_container :: container_policy

definition evaluate_identity :: "'p judge \<Rightarrow> string \<Rightarrow> string \<Rightarrow> string \<Rightarrow> decision" where
  "evaluate_identity j alias resolved cname =
     (let den = denied (j_crate j) (j_global j) (j_container j);
          auth = authorized (j_crate j) (j_global j) (j_container j)
      in if den alias then \<lparr>denied_by = Some alias, is_authorized = False\<rparr>
         else if den resolved then \<lparr>denied_by = Some resolved, is_authorized = False\<rparr>
         else if den cname then \<lparr>denied_by = Some cname, is_authorized = False\<rparr>
         else \<lparr>denied_by = None, is_authorized = auth cname \<and> auth resolved\<rparr>)"

section \<open>Opening a name\<close>

datatype hop = Retry string | Outside string

text \<open>The prefixes of a name from \<open>index\<close> on; the first one that leaves \<open>/dev\<close> is replaced.\<close>

fun escape_prefixes :: "('d, 'n) devfs \<Rightarrow> string \<Rightarrow> string list \<Rightarrow> nat list \<Rightarrow> ('d, hop, sys_error) call" where
  "escape_prefixes dev rel parts [] d = (Inr (Retry rel), d)"
| "escape_prefixes dev rel parts (index # more_indices) d =
     (let pre = join_with ''/'' (take (Suc index) parts) in
      case dev_open dev pre d of
        (Inr _, d1) \<Rightarrow> escape_prefixes dev rel parts more_indices d1
      | (Inl e, d1) \<Rightarrow>
          if se_errno e \<noteq> EXDEV then (Inl e, d1)
          else (case dev_read_link dev pre d1 of
              (Inl e', d2) \<Rightarrow> (Inl e', d2)
            | (Inr target, d2) \<Rightarrow>
                let cleaned = lex_clean target in
                if \<not> starts_with target ''/'' \<or> \<not> under_dev cleaned then (Inr (Outside target), d2)
                else (Inr (Retry (lex_join (rel_to_dev cleaned # drop (Suc index) parts))), d2)))"

definition escape_hop :: "('d, 'n) devfs \<Rightarrow> string \<Rightarrow> ('d, hop, sys_error) call" where
  "escape_hop dev rel =
     (let parts = split_on (CHR ''/'') rel in escape_prefixes dev rel parts [0 ..< length parts])"

datatype 'n opened = OpenedNode 'n | OpenedSkip string

fun open_hops :: "('d, 'n) devfs \<Rightarrow> string \<Rightarrow> nat \<Rightarrow> string \<Rightarrow> ('d, 'n opened, device_error) call" where
  "open_hops dev alias 0 rel d = (Inl (Unresolved alias None TooManyLinks), d)"
| "open_hops dev alias (Suc hops) rel d =
     (case dev_open dev rel d of
        (Inr n, d1) \<Rightarrow> (Inr (OpenedNode n), d1)
      | (Inl e, d1) \<Rightarrow>
          if se_errno e = ENOENT then (Inr (OpenedSkip SKIP_DANGLING), d1)
          else if se_errno e \<noteq> EXDEV then (Inl (Unresolved alias None (SysCause e)), d1)
          else (case escape_hop dev rel d1 of
              (Inl e', d2) \<Rightarrow> (Inl (Unresolved alias None (SysCause e')), d2)
            | (Inr (Outside target), d2) \<Rightarrow> (Inr (OpenedSkip SKIP_OUTSIDE_DEV), d2)
            | (Inr (Retry rel'), d2) \<Rightarrow> open_hops dev alias hops rel' d2))"

definition open_candidate :: "('d, 'n) devfs \<Rightarrow> string \<Rightarrow> ('d, 'n opened, device_error) call" where
  "open_candidate dev alias = open_hops dev alias MAX_LINK_HOPS (rel_to_dev alias)"

section \<open>The name of a device\<close>

definition devnames :: "string list \<Rightarrow> string list" where
  "devnames ls = List.map_filter (\<lambda>l. strip_prefix ''DEVNAME='' (from_utf8_lossy l)) ls"

definition devname_ok :: "string \<Rightarrow> bool" where
  "devname_ok name \<longleftrightarrow> \<not> (name = [] \<or> starts_with name ''/'' \<or> lex_clean name \<noteq> name
     \<or> name = ''..'' \<or> starts_with name ''../'')"

definition parse_uevent :: "string \<Rightarrow> (string, cause) result" where
  "parse_uevent data =
     bindR (map_err (\<lambda>_. BadDevname DevnameLineTooLong) (traverse id (lines data))) (\<lambda>ls.
       case devnames ls of
         [name] \<Rightarrow> if devname_ok name then Inr (DEV_ROOT @ ''/'' @ name) else Inl (BadDevname (DevnameInvalid name))
       | names \<Rightarrow> Inl (BadDevname (DevnameCount (length names))))"

definition canonical_name :: "('d, 'n) devfs \<Rightarrow> device_id \<Rightarrow> ('d, string, cause) call" where
  "canonical_name dev i =
     bindS (map_errS SysCause (dev_read_uevent dev i)) (\<lambda>data. liftS (parse_uevent data))"


section \<open>Candidates\<close>

record evaluated =
  ev_candidate :: candidate
  ev_skip :: "string option"
  ev_err :: "device_error option"

definition candidate_new :: "string \<Rightarrow> candidate" where
  "candidate_new alias = \<lparr>cand_alias = alias, cand_resolved = [], cand_canonical = [],
     cand_kind = NodeOther, cand_decision = decision_default\<rparr>"

definition found_new :: "string \<Rightarrow> evaluated" where
  "found_new alias = \<lparr>ev_candidate = candidate_new alias, ev_skip = None, ev_err = None\<rparr>"

text \<open>The judgement of a device, with its canonical name or with the reason it has none.\<close>

definition judge_device :: "'p judge \<Rightarrow> candidate \<Rightarrow> device_id \<Rightarrow> (string, cause) result \<Rightarrow> evaluated" where
  "judge_device j c i named =
     (case named of
        Inr cname \<Rightarrow>
          \<lparr>ev_candidate = c\<lparr>cand_canonical := cname,
             cand_decision := evaluate_identity j (cand_alias c) (cand_resolved c) cname\<rparr>,
           ev_skip = None, ev_err = None\<rparr>
      | Inl why \<Rightarrow>
          (let dec = evaluate_identity j (cand_alias c) (cand_resolved c) (cand_resolved c) in
           \<lparr>ev_candidate = c\<lparr>cand_decision := dec\<lparr>is_authorized := False\<rparr>\<rparr>,
            ev_skip = None,
            ev_err = (if granted dec then Some (Unresolved (cand_alias c) (Some (cand_resolved c, i)) why) else None)\<rparr>))"

definition evaluate_node :: "('d, 'n) devfs \<Rightarrow> 'p judge \<Rightarrow> string \<Rightarrow> 'n \<Rightarrow> 'd \<Rightarrow> evaluated \<times> 'd" where
  "evaluate_node dev j alias n d =
     (case dev_stat dev n d of
        (Inl e, d1) \<Rightarrow> ((found_new alias)\<lparr>ev_err := Some (Unresolved alias None (SysCause e))\<rparr>, d1)
      | (Inr nk, d1) \<Rightarrow>
          (case dev_resolved dev n d1 of (path, d2) \<Rightarrow>
             let c = (candidate_new alias)\<lparr>cand_kind := nk, cand_resolved := (if path = [] then alias else path)\<rparr> in
             (case nk of
                NodeDevice i \<Rightarrow>
                  (case canonical_name dev i d2 of (named, d3) \<Rightarrow> (judge_device j c i named, d3))
              | _ \<Rightarrow> (\<lparr>ev_candidate = c, ev_skip = None, ev_err = None\<rparr>, d2))))"

definition evaluate_candidate :: "('d, 'n) devfs \<Rightarrow> 'p judge \<Rightarrow> string \<Rightarrow> 'd \<Rightarrow> evaluated \<times> 'd" where
  "evaluate_candidate dev j alias d =
     (if \<not> under_dev alias then ((found_new alias)\<lparr>ev_skip := Some SKIP_OUTSIDE_DEV\<rparr>, d)
      else case open_candidate dev alias d of
        (Inl e, d1) \<Rightarrow> ((found_new alias)\<lparr>ev_err := Some e\<rparr>, d1)
      | (Inr (OpenedSkip reason), d1) \<Rightarrow> ((found_new alias)\<lparr>ev_skip := Some reason\<rparr>, d1)
      | (Inr (OpenedNode n), d1) \<Rightarrow> evaluate_node dev j alias n d1)"

section \<open>One mount\<close>

record walk_state =
  ws_result :: mount_result
  ws_policy_excluded :: nat
  ws_children_seen :: "string list"
  ws_entries :: nat

definition on_result :: "(mount_result \<Rightarrow> mount_result) \<Rightarrow> walk_state \<Rightarrow> walk_state" where
  "on_result f s = s\<lparr>ws_result := f (ws_result s)\<rparr>"

text \<open>What the visit of an entry that is not a directory adds.\<close>

definition visit_found :: "evaluated \<Rightarrow> walk_state \<Rightarrow> walk_state" where
  "visit_found found s =
     (case ev_err found of
        Some e \<Rightarrow> on_result (push_err e) s
      | None \<Rightarrow>
          (case ev_skip found of
             Some reason \<Rightarrow> on_result (add_skip reason) s
           | None \<Rightarrow>
               (case cand_kind (ev_candidate found) of
                  NodeDevice _ \<Rightarrow>
                    on_result (push_candidate (ev_candidate found))
                      (if \<not> granted (cand_decision (ev_candidate found))
                       then s\<lparr>ws_policy_excluded := ws_policy_excluded s + 1\<rparr> else s)
                | _ \<Rightarrow> on_result (add_skip SKIP_NOT_DEVICE) s)))"

definition visit_entry ::
  "('d, 'n) devfs \<Rightarrow> 'p judge \<Rightarrow> string \<Rightarrow> string \<Rightarrow> visit \<Rightarrow> walk_state \<times> 'd \<Rightarrow> walk_control \<times> walk_state \<times> 'd" where
  "visit_entry dev j source base v sd =
     (case (v, sd) of ((walked, is_dir, err), (s, d)) \<Rightarrow>
        let alias = source @ (case strip_prefix base walked of None \<Rightarrow> walked | Some r \<Rightarrow> r) in
        case err of
          Some e \<Rightarrow> (Continue, on_result (push_err (IncompleteWalk alias e)) s, d)
        | None \<Rightarrow>
            if walked = base then (Continue, s, d)
            else let s1 = s\<lparr>ws_entries := ws_entries s + 1\<rparr> in
              if ws_entries s1 > MAX_MOUNT_ENTRIES then (SkipAll, on_result (push_err (MountTooLarge source)) s1, d)
              else if is_dir then (Continue, s1, d)
              else let s2 = (if length (ws_children_seen s1) < MAX_LOG_CHILDREN
                             then s1\<lparr>ws_children_seen := ws_children_seen s1 @ [lex_base walked]\<rparr> else s1) in
                (case evaluate_candidate dev j alias d of (found, d1) \<Rightarrow> (Continue, visit_found found s2, d1)))"

definition walk_mount ::
  "('d, 'n) devfs \<Rightarrow> 'p judge \<Rightarrow> string \<Rightarrow> string \<Rightarrow> mount_result \<Rightarrow> 'd \<Rightarrow> mount_result \<times> 'd" where
  "walk_mount dev j source dir r d =
     (let base = lex_join [dev_root dev, rel_to_dev dir];
          s = \<lparr>ws_result = r, ws_policy_excluded = 0, ws_children_seen = [], ws_entries = 0\<rparr>
      in case dev_walk dev base d of (vs, d1) \<Rightarrow>
           (case run_visits (visit_entry dev j source base) vs (s, d1) of (_, s', d2) \<Rightarrow> (ws_result s', d2)))"

definition collect_mount_rules ::
  "('d, 'n) devfs \<Rightarrow> 'p judge \<Rightarrow> string \<Rightarrow> 'd \<Rightarrow> mount_result \<times> 'd" where
  "collect_mount_rules dev j mount_path d =
     (case evaluate_candidate dev j mount_path d of (found, d1) \<Rightarrow>
        case ev_err found of
          Some e \<Rightarrow> (push_err e mount_result_default, d1)
        | None \<Rightarrow>
            (case ev_skip found of
               Some reason \<Rightarrow>
                 if reason = SKIP_DANGLING then (push_err (MountSourceGone mount_path) mount_result_default, d1)
                 else (add_skip reason mount_result_default, d1)
             | None \<Rightarrow>
                 (case cand_kind (ev_candidate found) of
                    NodeDir \<Rightarrow> walk_mount dev j mount_path (cand_resolved (ev_candidate found)) mount_result_default d1
                  | NodeOther \<Rightarrow> (push_err (NotDevice mount_path) mount_result_default, d1)
                  | NodeDevice _ \<Rightarrow> (push_candidate (ev_candidate found) mount_result_default, d1))))"

section \<open>All mounts of a container\<close>

record device_votes =
  v_candidates :: nat
  v_authorized :: bool
  v_denied_by :: "string option"

record aggregation =
  ag_order :: "device_id list"
  ag_votes :: "device_id \<Rightarrow> device_votes option"

definition aggregation_default :: aggregation where
  "aggregation_default = \<lparr>ag_order = [], ag_votes = Map.empty\<rparr>"

definition vote :: "decision \<Rightarrow> device_votes \<Rightarrow> device_votes" where
  "vote dec v =
     \<lparr>v_candidates = v_candidates v + 1,
      v_authorized = (v_authorized v \<or> is_authorized dec),
      v_denied_by = (if v_denied_by v = None then denied_by dec else v_denied_by v)\<rparr>"

definition aggregation_add :: "candidate \<Rightarrow> aggregation \<Rightarrow> aggregation" where
  "aggregation_add c ag =
     (case cand_kind c of
        NodeDevice i \<Rightarrow>
          (let ag1 = (case ag_votes ag i of
               Some _ \<Rightarrow> ag
             | None \<Rightarrow> ag\<lparr>ag_order := ag_order ag @ [i],
                 ag_votes := (ag_votes ag)(i \<mapsto> \<lparr>v_candidates = 0, v_authorized = False, v_denied_by = None\<rparr>)\<rparr>)
           in ag1\<lparr>ag_votes := (ag_votes ag1)(i := map_option (vote (cand_decision c)) (ag_votes ag1 i))\<rparr>)
      | _ \<Rightarrow> ag)"

definition device_rule_of :: "device_id \<Rightarrow> device_rule" where
  "device_rule_of i = \<lparr>allow = True, kind = type_letter (dev_type i), major = Some (uint (dev_major i)),
     minor = Some (uint (dev_minor i)), access = DEVICE_ACCESS_ALL\<rparr>"

text \<open>
  The rules of the devices that are authorized and not denied, in the order the devices were first
  seen, and the number of candidates that were not granted.
\<close>

definition emit_step :: "aggregation \<Rightarrow> device_rule list \<times> nat \<Rightarrow> device_id \<Rightarrow> device_rule list \<times> nat" where
  "emit_step ag acc i =
     (case (acc, ag_votes ag i) of
        ((rs, skipped), Some v) \<Rightarrow>
          if v_denied_by v = None \<and> v_authorized v then (rs @ [device_rule_of i], skipped)
          else (rs, skipped + v_candidates v)
      | (acc', None) \<Rightarrow> acc')"

definition aggregation_emit :: "aggregation \<Rightarrow> device_rule list \<times> nat" where
  "aggregation_emit ag = foldl (emit_step ag) ([], 0) (ag_order ag)"

record container_rules =
  cr_granted :: "device_rule list"
  cr_skipped :: nat
  cr_device_errs :: "device_error list"
  cr_dev_mounts :: nat

definition container_rules_default :: container_rules where
  "container_rules_default = \<lparr>cr_granted = [], cr_skipped = 0, cr_device_errs = [], cr_dev_mounts = 0\<rparr>"

record mount_point =
  mp_kind :: string
  mp_source :: string
  mp_destination :: string

definition is_device_mount :: "mount_point \<Rightarrow> bool" where
  "is_device_mount mp \<longleftrightarrow> mp_kind mp = BIND_MOUNT \<and> is_mount_source (mp_source mp)"

fun collect_mounts ::
  "('d, 'n) devfs \<Rightarrow> 'p judge \<Rightarrow> mount_point list \<Rightarrow> container_rules \<times> aggregation \<Rightarrow> 'd
    \<Rightarrow> (container_rules \<times> aggregation) \<times> 'd" where
  "collect_mounts dev j [] acc d = (acc, d)"
| "collect_mounts dev j (mp # mps) (res, ag) d =
     (case collect_mount_rules dev j (mp_source mp) d of (mr, d1) \<Rightarrow>
        collect_mounts dev j mps
          (res\<lparr>cr_dev_mounts := cr_dev_mounts res + 1, cr_skipped := cr_skipped res + mr_skipped mr,
               cr_device_errs := cr_device_errs res @ mr_errs mr\<rparr>,
           fold aggregation_add (mr_candidates mr) ag) d1)"

definition collect_container_rules ::
  "('d, 'n) devfs \<Rightarrow> 'p judge \<Rightarrow> mount_point list \<Rightarrow> 'd \<Rightarrow> container_rules \<times> 'd" where
  "collect_container_rules dev j mounts d =
     (case collect_mounts dev j (filter is_device_mount mounts) (container_rules_default, aggregation_default) d of
        ((res, ag), d1) \<Rightarrow>
          (case aggregation_emit ag of (rs, excluded) \<Rightarrow>
             (res\<lparr>cr_granted := rs, cr_skipped := cr_skipped res + excluded\<rparr>, d1)))"

end
