(* ===== verification/Processor_Error.thy ===== *)
theory Processor_Error
  imports Pin Rules
begin

text \<open>
  The errors of the Docker calls, \<open>src/src/docker/error.rs\<close>, and of the processor,
  \<open>src/src/processor/error.rs\<close>, with the classifications the program acts on. What the package
  behind the Docker calls reports is its kind of failure.
\<close>

section \<open>Docker errors\<close>

datatype context_error = ContextCanceled | DeadlineExceeded

datatype error_kind = KindNotFound | KindConflict | KindUnavailable | KindTimeout | KindCancelled | KindOther

datatype docker_error =
    DockerClient error_kind
  | DockerContext context_error
  | DockerPlain error_kind string

fun docker_kind :: "docker_error \<Rightarrow> error_kind" where
  "docker_kind (DockerClient k) = k"
| "docker_kind (DockerContext DeadlineExceeded) = KindTimeout"
| "docker_kind (DockerContext ContextCanceled) = KindOther"
| "docker_kind (DockerPlain k msg) = k"

definition docker_response :: "nat \<Rightarrow> string \<Rightarrow> docker_error" where
  "docker_response status msg =
     DockerPlain (if status = 404 then KindNotFound else if status = 409 then KindConflict else KindOther) msg"

definition docker_not_found :: "docker_error \<Rightarrow> bool" where
  "docker_not_found e \<longleftrightarrow> docker_kind e = KindNotFound"

definition docker_canceled :: "docker_error \<Rightarrow> bool" where
  "docker_canceled e \<longleftrightarrow> e = DockerContext ContextCanceled"

section \<open>Processor errors\<close>

datatype proc_error =
    PInspect string docker_error
  | ContainerGone proc_error
  | PJoined "proc_error list"
  | PPin string pin_error
  | PProcCgroup string proc_cgroup_error
  | OpenCgroup handle_error
  | SetRules cgroup_error
  | PVerify string verify_cause
  | LifecycleChanged string int
  | PinnedGone string int pin_error
  | NotInCgroup string int
  | RevokeOpen string handle_error
  | PRevoke string string cgroup_error
  | RevokeMoved string string cgroup_error
  | Retryable string string proc_error
  | Incomplete string "device_error list"
  | Canceled
and verify_cause = VerifyInspect proc_error | VerifyMembership handle_error

fun proc_any :: "(proc_error \<Rightarrow> bool) \<Rightarrow> proc_error \<Rightarrow> bool" where
  "proc_any P (ContainerGone e) \<longleftrightarrow> P (ContainerGone e) \<or> proc_any P e"
| "proc_any P (Retryable cid reason e) \<longleftrightarrow> P (Retryable cid reason e) \<or> proc_any P e"
| "proc_any P (PVerify cid (VerifyInspect e)) \<longleftrightarrow> P (PVerify cid (VerifyInspect e)) \<or> proc_any P e"
| "proc_any P (PJoined es) \<longleftrightarrow> P (PJoined es) \<or> (\<exists>e \<in> set es. proc_any P e)"
| "proc_any P e \<longleftrightarrow> P e"

definition is_container_gone :: "proc_error \<Rightarrow> bool" where
  "is_container_gone = proc_any (\<lambda>e. case e of ContainerGone _ \<Rightarrow> True | _ \<Rightarrow> False)"

definition is_lifecycle_changed :: "proc_error \<Rightarrow> bool" where
  "is_lifecycle_changed = proc_any (\<lambda>e. case e of LifecycleChanged _ _ \<Rightarrow> True | _ \<Rightarrow> False)"

definition is_pinned_process_gone :: "proc_error \<Rightarrow> bool" where
  "is_pinned_process_gone = proc_any (\<lambda>e. case e of PinnedGone _ _ _ \<Rightarrow> True | _ \<Rightarrow> False)"

definition is_not_in_cgroup :: "proc_error \<Rightarrow> bool" where
  "is_not_in_cgroup = proc_any (\<lambda>e. case e of NotInCgroup _ _ \<Rightarrow> True | _ \<Rightarrow> False)"

definition is_docker :: "error_kind \<Rightarrow> proc_error \<Rightarrow> bool" where
  "is_docker k = proc_any (\<lambda>e. case e of PInspect _ s \<Rightarrow> docker_kind s = k | _ \<Rightarrow> False)"

definition is_docker_canceled :: "proc_error \<Rightarrow> bool" where
  "is_docker_canceled = proc_any (\<lambda>e. case e of PInspect _ s \<Rightarrow> docker_canceled s | _ \<Rightarrow> False)"

definition is_cgroup :: "(cgroup_error \<Rightarrow> bool) \<Rightarrow> proc_error \<Rightarrow> bool" where
  "is_cgroup matches = proc_any (\<lambda>e. case e of
       SetRules s \<Rightarrow> matches s
     | PRevoke _ _ s \<Rightarrow> matches s
     | RevokeMoved _ _ s \<Rightarrow> matches s
     | _ \<Rightarrow> False)"

definition is_not_found :: "proc_error \<Rightarrow> bool" where
  "is_not_found = proc_any (\<lambda>e. case e of PInspect _ s \<Rightarrow> docker_not_found s | _ \<Rightarrow> False)"

definition join_errors :: "proc_error option list \<Rightarrow> proc_error option" where
  "join_errors es =
     (let present = List.map_filter id es in if present = [] then None else Some (PJoined present))"

end
