(* ===== verification/Cgroup_Api.thy ===== *)
theory Cgroup_Api
  imports Processor_Error V2 V1set
begin

text \<open>
  The controller interface of \<open>src/src/cgroup/api.rs\<close>: \<open>set_device_rules\<close> on an open cgroup
  directory, and the controllers that \<open>new\<close> makes. A controller acts on the kernel, the ledger
  of the v1 grants, the cache of the v2 filters, the replace probe of the process and its
  source of nonces.
\<close>

record 'k cgroup_mem =
  cm_kern :: 'k
  cm_ledger :: ledger
  cm_cache :: filter_cache
  cm_probe :: replace_probe
  cm_draws :: nat

type_synonym ('k, 'f) set_device_rules =
  "cgroup_version \<Rightarrow> 'f cgroup_handle \<Rightarrow> device_rule list \<Rightarrow> ('k cgroup_mem, unit, cgroup_error) call"

text \<open>
  What the controllers reach the kernel with: the files of a cgroup directory on v1, the
  \<open>bpf\<close> calls on one on v2.
\<close>

record ('k, 'f, 'p) kernel_access =
  ka_files :: "'f \<Rightarrow> 'k v1files"
  ka_ops :: "'f \<Rightarrow> ('k, 'p) v2ops"
  ka_sha :: "bytes \<Rightarrow> bytes"
  ka_rand :: "nat \<Rightarrow> (u64, errno) result"

definition on_v1 :: "('k v1world, 'a, 'e) call \<Rightarrow> ('k cgroup_mem, 'a, 'e) call" where
  "on_v1 c m =
     (case c \<lparr>v1_kern = cm_kern m, v1_ledger = cm_ledger m\<rparr> of
        (r, w) \<Rightarrow> (r, m\<lparr>cm_kern := v1_kern w, cm_ledger := v1_ledger w\<rparr>))"

definition on_v2 :: "('k world, 'a, 'e) call \<Rightarrow> ('k cgroup_mem, 'a, 'e) call" where
  "on_v2 c m =
     (case c \<lparr>kern = cm_kern m, probe = cm_probe m, cache = cm_cache m, draws = cm_draws m\<rparr> of
        (r, w) \<Rightarrow>
          (r, m\<lparr>cm_kern := kern w, cm_probe := probe w, cm_cache := cache w, cm_draws := draws w\<rparr>))"

definition cgroup_new :: "('k, 'f, 'p) kernel_access \<Rightarrow> ('k, 'f) set_device_rules" where
  "cgroup_new ka version h rs =
     (case version of
        CgroupV1 \<Rightarrow> on_v1 (v1_set_device_rules (ka_files ka (h_fd h)) (h_identity h) rs)
      | CgroupV2 \<Rightarrow> on_v2 (set_rules (ka_sha ka) (ka_rand ka) (ka_ops ka (h_fd h)) (h_identity h) rs))"

end
