(* ===== verification/Reconcile.thy ===== *)
theory Reconcile
  imports Cgroup_Api
begin

text \<open>
  The processor, \<open>src/src/processor/reconcile.rs\<close>: every transaction that runs under the
  processor lock, on the state the lock and the process guard. What it calls is the record
  \<open>proc_env\<close>: the Docker inspect (bounded by the caller's context), the system calls, the
  controller, the view of \<open>/dev\<close>, the clock and the packages for times and globs. Log records
  and metrics are left out, and with them the arguments that only they read.
\<close>

section \<open>What Docker reports\<close>

record container_state =
  cs_running :: bool
  cs_pid :: int
  cs_started_at :: string

record container_inspect =
  ci_id :: string
  ci_state :: "container_state option"
  ci_labels :: "labels option"
  ci_privileged :: "bool option"
  ci_mounts :: "mount_point list"

section \<open>The configuration store\<close>

record runtime =
  rt_dry_run :: bool
  rt_policy :: global_policy

record snapshot =
  sn_runtime :: runtime
  sn_generation :: u64

definition new_store :: "runtime \<Rightarrow> snapshot" where
  "new_store rt = \<lparr>sn_runtime = rt, sn_generation = 1\<rparr>"

definition publish :: "runtime \<Rightarrow> snapshot \<Rightarrow> u64 \<times> snapshot" where
  "publish rt sn = (sn_generation sn + 1, \<lparr>sn_runtime = rt, sn_generation = sn_generation sn + 1\<rparr>)"

section \<open>The processor\<close>

text \<open>Ten minutes, in nanoseconds.\<close>

definition PROVISIONAL_TTL :: timestamp where "PROVISIONAL_TTL = 10 * 60 * 1000000000"

record ('k, 'f, 'n, 'p) proc_env =
  e_sys :: "('k, 'f) syscalls"
  e_inspect :: "string \<Rightarrow> ('k, container_inspect, docker_error) call"
  e_set_rules :: "('k, 'f) set_device_rules"
  e_devfs :: "('k, ('k, 'n) devfs, sys_error) call"
  e_now :: "'k \<Rightarrow> timestamp \<times> 'k"
  e_time :: time_package
  e_glob :: "'p glob_crate"
  e_host_root :: string
  e_proc_root :: string

text \<open>\<open>ps_requested\<close> holds the generations handed to the requester of passes, once there is one.\<close>

record 'k proc_state =
  ps_mem :: "'k cgroup_mem"
  ps_lifecycles :: lifecycles
  ps_store :: snapshot
  ps_requested :: "u64 list option"

definition on_mem :: "('k cgroup_mem, 'a, 'e) call \<Rightarrow> ('k proc_state, 'a, 'e) call" where
  "on_mem m s = (case m (ps_mem s) of (r, mem) \<Rightarrow> (r, s\<lparr>ps_mem := mem\<rparr>))"

definition on_kernel :: "('k \<Rightarrow> 'a \<times> 'k) \<Rightarrow> 'k proc_state \<Rightarrow> 'a \<times> 'k proc_state" where
  "on_kernel m s =
     (case m (cm_kern (ps_mem s)) of (r, k) \<Rightarrow> (r, s\<lparr>ps_mem := (ps_mem s)\<lparr>cm_kern := k\<rparr>\<rparr>))"

definition on_history :: "(lifecycles \<Rightarrow> lifecycles) \<Rightarrow> 'k proc_state \<Rightarrow> 'k proc_state" where
  "on_history f s = s\<lparr>ps_lifecycles := f (ps_lifecycles s)\<rparr>"

text \<open>An operation of the history that reads its clock.\<close>

definition with_now :: "('k, 'f, 'n, 'p) proc_env \<Rightarrow> (timestamp \<Rightarrow> lifecycles \<Rightarrow> lifecycles) \<Rightarrow> 'k proc_state \<Rightarrow> 'k proc_state" where
  "with_now e f s = (case on_kernel (e_now e) s of (now, s1) \<Rightarrow> on_history (f now) s1)"

definition inspect :: "('k, 'f, 'n, 'p) proc_env \<Rightarrow> string \<Rightarrow> ('k proc_state, container_inspect, proc_error) call" where
  "inspect e cid = map_errS (PInspect cid) (on_kernel (e_inspect e cid))"

section \<open>The desired rules\<close>

record desired =
  ds_rules :: "device_rule list"
  ds_enabled :: bool
  ds_collected :: container_rules
  ds_incomplete :: "proc_error option"

definition desired_default :: desired where
  "desired_default = \<lparr>ds_rules = [], ds_enabled = False, ds_collected = container_rules_default, ds_incomplete = None\<rparr>"

definition collect_devices ::
  "('k, 'f, 'n, 'p) proc_env \<Rightarrow> mount_point list \<Rightarrow> global_policy \<Rightarrow> container_policy \<Rightarrow> 'k proc_state
    \<Rightarrow> container_rules \<times> 'k proc_state" where
  "collect_devices e mounts g c s =
     (if \<not> list_ex is_device_mount mounts then (container_rules_default, s)
      else case on_kernel (e_devfs e) s of
        (Inl open_error, s1) \<Rightarrow>
          (container_rules_default\<lparr>cr_dev_mounts := 1, cr_device_errs := [DevOpen open_error]\<rparr>, s1)
      | (Inr dev, s1) \<Rightarrow>
          on_kernel (collect_container_rules dev \<lparr>j_crate = e_glob e, j_global = g, j_container = c\<rparr> mounts) s1)"

definition compute_desired ::
  "('k, 'f, 'n, 'p) proc_env \<Rightarrow> string \<Rightarrow> container_inspect \<Rightarrow> runtime \<Rightarrow> 'k proc_state \<Rightarrow> desired \<times> 'k proc_state" where
  "compute_desired e cid info cfg s =
     (case container_parse (e_glob e) (or_default (ci_labels info)) of
        Inl _ \<Rightarrow> (desired_default, s)
      | Inr c \<Rightarrow>
          if \<not> enabled (rt_policy cfg) c then (desired_default, s)
          else case collect_devices e (ci_mounts info) (rt_policy cfg) c s of (collected, s1) \<Rightarrow>
            if cr_device_errs collected = [] then
              (\<lparr>ds_rules = cr_granted collected, ds_enabled = True, ds_collected = collected, ds_incomplete = None\<rparr>, s1)
            else
              (\<lparr>ds_rules = [], ds_enabled = True, ds_collected = collected,
                ds_incomplete = Some (Incomplete cid (cr_device_errs collected))\<rparr>, s1))"

section \<open>Verification\<close>

definition same_run :: "container_state \<Rightarrow> container_inspect \<Rightarrow> bool" where
  "same_run st again \<longleftrightarrow>
     (case ci_state again of
        None \<Rightarrow> False
      | Some st' \<Rightarrow> cs_running st' \<and> cs_pid st' = cs_pid st \<and> cs_started_at st' = cs_started_at st)"

definition verify_pinned ::
  "('k, 'f, 'n, 'p) proc_env \<Rightarrow> string \<Rightarrow> container_state \<Rightarrow> 'f \<Rightarrow> 'f cgroup_handle \<Rightarrow> bool
    \<Rightarrow> ('k proc_state, unit, proc_error) call" where
  "verify_pinned e cid st pidfd h grants =
     bindS (map_errS (PVerify cid \<circ> VerifyInspect) (inspect e cid)) (\<lambda>again.
     if \<not> same_run st again then liftS (Inl (LifecycleChanged cid (cs_pid st)))
     else bindS (map_errS (PinnedGone cid (cs_pid st)) (on_kernel (alive (e_sys e) pidfd))) (\<lambda>_.
       if \<not> grants then retS ()
       else bindS (map_errS (PVerify cid \<circ> VerifyMembership) (on_kernel (has_process (e_sys e) h (cs_pid st)))) (\<lambda>member.
         if member then retS () else liftS (Inl (NotInCgroup cid (cs_pid st))))))"

section \<open>Recorded cgroups\<close>

datatype 'f recorded = RecordedOpen "'f cgroup_handle" | RecordedGone string

definition open_recorded ::
  "('k, 'f, 'n, 'p) proc_env \<Rightarrow> lifecycle_record \<Rightarrow> identity \<Rightarrow> ('k proc_state, 'f recorded, proc_error) call" where
  "open_recorded e r i s =
     (case on_kernel (handle_open (e_sys e) (id_path i)) s of
        (Inr h, s1) \<Rightarrow>
          (Inr (if h_identity h = i then RecordedOpen h else RecordedGone ''cgroup recreated''), s1)
      | (Inl (HandleOpen path n), s1) \<Rightarrow>
          (if n = ENOENT then Inr (RecordedGone ''cgroup removed'')
           else Inl (RevokeOpen (lr_container_id r) (HandleOpen path n)), s1)
      | (Inl (HandleStat path n), s1) \<Rightarrow>
          (if n = ENOENT then Inr (RecordedGone ''cgroup removed'')
           else Inl (RevokeOpen (lr_container_id r) (HandleStat path n)), s1)
      | (Inl source, s1) \<Rightarrow> (Inl (RevokeOpen (lr_container_id r) source), s1))"

definition forget :: "identity \<Rightarrow> 'k proc_state \<Rightarrow> 'k proc_state" where
  "forget i s = s\<lparr>ps_mem := (ps_mem s)\<lparr>cm_ledger := ledger_forget i (cm_ledger (ps_mem s)),
     cm_cache := cache_forget i (cm_cache (ps_mem s))\<rparr>\<rparr>"

definition release_run :: "lifecycle_record \<Rightarrow> 'k proc_state \<Rightarrow> 'k proc_state" where
  "release_run r s =
     (let s1 = on_history (lifecycle_release r) s in
      case record_identity r of None \<Rightarrow> s1 | Some i \<Rightarrow> forget i s1)"

text \<open>A missing filter means that nothing attached holds a grant; whether the container may still run is only logged.\<close>

definition revoke_at ::
  "('k, 'f, 'n, 'p) proc_env \<Rightarrow> lifecycle_record \<Rightarrow> ('k proc_state, unit, proc_error) call" where
  "revoke_at e r =
     (case lr_cgroup r of
        None \<Rightarrow> retS ()
      | Some cg \<Rightarrow>
          bindS (open_recorded e r (rc_identity cg)) (\<lambda>rec. \<lambda>s.
            case rec of
              RecordedGone _ \<Rightarrow> (Inr (), release_run r s)
            | RecordedOpen h \<Rightarrow>
                (case on_mem (e_set_rules e (rc_version cg) h []) s of (outcome, s1) \<Rightarrow>
                   (case outcome of
                      Inl set_error \<Rightarrow>
                        if is_filter_missing set_error
                        then (Inr (), on_history (mark_revoked (lr_container_id r) (lr_started_at r)) s1)
                        else (Inl (PRevoke (lr_container_id r) (id_path (rc_identity cg)) set_error), s1)
                    | Inr _ \<Rightarrow> (Inr (), on_history (mark_revoked (lr_container_id r) (lr_started_at r)) s1)))))"

definition revoke_moved ::
  "('k, 'f, 'n, 'p) proc_env \<Rightarrow> lifecycle_record \<Rightarrow> run_cgroup \<Rightarrow> ('k proc_state, unit, proc_error) call" where
  "revoke_moved e r previous =
     bindS (open_recorded e r (rc_identity previous)) (\<lambda>rec. \<lambda>s.
       case rec of
         RecordedGone _ \<Rightarrow> (Inr (), forget (rc_identity previous) s)
       | RecordedOpen h \<Rightarrow>
           (case on_mem (e_set_rules e (rc_version previous) h []) s of (outcome, s1) \<Rightarrow>
              (case outcome of
                 Inl set_error \<Rightarrow>
                   if \<not> is_filter_missing set_error
                   then (Inl (RevokeMoved (lr_container_id r) (id_path (rc_identity previous)) set_error), s1)
                   else (Inr (), forget (rc_identity previous) s1)
               | Inr _ \<Rightarrow> (Inr (), forget (rc_identity previous) s1))))"

section \<open>Applying the rules\<close>

text \<open>The revocation at the cgroup the run was recorded in, when it is verified in another one.\<close>

definition leave_previous ::
  "('k, 'f, 'n, 'p) proc_env \<Rightarrow> string \<Rightarrow> container_state \<Rightarrow> 'f \<Rightarrow> 'f cgroup_handle \<Rightarrow> ('k proc_state, unit, proc_error) call" where
  "leave_previous e cid st pidfd h s =
     (case lifecycle_lookup cid (cs_started_at st) (ps_lifecycles s) of
        None \<Rightarrow> (Inr (), s)
      | Some moved \<Rightarrow>
          (case lr_cgroup moved of
             None \<Rightarrow> (Inr (), s)
           | Some previous \<Rightarrow>
               if rc_identity previous = h_identity h then (Inr (), s)
               else bindS (revoke_moved e moved previous) (\<lambda>_. verify_pinned e cid st pidfd h True) s))"

definition apply_handle ::
  "('k, 'f, 'n, 'p) proc_env \<Rightarrow> string \<Rightarrow> container_state \<Rightarrow> bool \<Rightarrow> device_rule list \<Rightarrow> 'f \<Rightarrow> cgroup_version
    \<Rightarrow> 'f cgroup_handle \<Rightarrow> ('k proc_state, unit, proc_error) call" where
  "apply_handle e cid st privileged rs pidfd version h =
     bindS (verify_pinned e cid st pidfd h (rs \<noteq> [])) (\<lambda>_.
     bindS (leave_previous e cid st pidfd h) (\<lambda>_. \<lambda>s.
       map_errS SetRules (on_mem (e_set_rules e version h rs))
         (with_now e (\<lambda>now. lifecycle_verify (e_time e) now cid (cs_started_at st)
            \<lparr>rc_identity = h_identity h, rc_version = version, rc_privileged = privileged\<rparr>) s)))"

definition apply_pinned ::
  "('k, 'f, 'n, 'p) proc_env \<Rightarrow> string \<Rightarrow> container_state \<Rightarrow> bool \<Rightarrow> device_rule list \<Rightarrow> ('k proc_state, unit, proc_error) call" where
  "apply_pinned e cid st privileged rs =
     bindS (map_errS (PPin cid) (on_kernel (pin (e_sys e) (cs_pid st)))) (\<lambda>pidfd.
     bindS (map_errS (PProcCgroup cid) (on_kernel (read_proc_cgroup (e_sys e) (e_proc_root e) (cs_pid st)))) (\<lambda>pc.
     bindS (map_errS OpenCgroup (on_kernel (handle_open (e_sys e)
         (host_cgroup_path (e_host_root e) (pc_mount_point pc) (pc_mount_prefix pc) (pc_root pc))))) (\<lambda>h.
       apply_handle e cid st privileged rs pidfd (pc_version pc) h)))"

text \<open>The outcome of a failed mutation: none when the container is skipped for good.\<close>

definition classify_apply_error :: "string \<Rightarrow> bool \<Rightarrow> proc_error \<Rightarrow> proc_error option" where
  "classify_apply_error cid privileged err =
     (if is_cgroup is_filter_missing err \<and> privileged then None
      else if is_cgroup is_filter_missing err then Some (Retryable cid ''filter_missing'' err)
      else if is_cgroup is_unsupported_attach_mode err then None
      else if is_cgroup is_owned_block_conflict err then Some (Retryable cid ''owned_block_conflict'' err)
      else if is_cgroup is_program_not_wrappable err then Some (Retryable cid ''program_not_wrappable'' err)
      else if is_cgroup is_filters_inaccessible err then Some (Retryable cid ''filters_inaccessible'' err)
      else Some err)"

section \<open>Transactions\<close>

text \<open>The revocations of the given records, one after the other; the result is what failed.\<close>

fun revoke_records ::
  "('k, 'f, 'n, 'p) proc_env \<Rightarrow> lifecycle_record list \<Rightarrow> 'k proc_state \<Rightarrow> proc_error option list \<times> 'k proc_state" where
  "revoke_records e [] s = ([], s)"
| "revoke_records e (r # rs) s =
     (if \<not> has_identity r then revoke_records e rs s
      else case revoke_at e r s of (outcome, s1) \<Rightarrow>
        (case revoke_records e rs s1 of (errs, s2) \<Rightarrow>
           ((case outcome of Inl err \<Rightarrow> Some err | Inr _ \<Rightarrow> None) # errs, s2)))"

definition revoke_after_inspect_failure ::
  "('k, 'f, 'n, 'p) proc_env \<Rightarrow> string \<Rightarrow> bool \<Rightarrow> proc_error \<Rightarrow> ('k proc_state, unit, proc_error) call" where
  "revoke_after_inspect_failure e cid dry_run inspect_error s =
     (case (if dry_run then ([], s)
            else let s1 = with_now e (\<lambda>now. lifecycle_provisional now cid) s in
              revoke_records e (lifecycle_records cid (ps_lifecycles s1)) s1) of
        (outcomes, s2) \<Rightarrow>
          (let errors = List.map_filter id outcomes in
           (if errors = [] \<and> is_not_found inspect_error then Inl (ContainerGone inspect_error)
            else Inl (PJoined (inspect_error # errors)), s2)))"

definition revoke_ended :: "('k, 'f, 'n, 'p) proc_env \<Rightarrow> string \<Rightarrow> string \<Rightarrow> ('k proc_state, unit, proc_error) call" where
  "revoke_ended e cid started_at s =
     (case lifecycle_lookup cid started_at (ps_lifecycles s) of
        None \<Rightarrow> (Inr (), s)
      | Some r \<Rightarrow>
          if \<not> has_identity r then (Inr (), s)
          else revoke_at e (r\<lparr>lr_state := Terminal\<rparr>) (on_history (mark_terminal cid started_at) s))"

definition err_or_ok :: "'e option \<Rightarrow> (unit, 'e) result" where
  "err_or_ok m = (case m of None \<Rightarrow> Inr () | Some err \<Rightarrow> Inl err)"

definition reconcile_running ::
  "('k, 'f, 'n, 'p) proc_env \<Rightarrow> string \<Rightarrow> container_inspect \<Rightarrow> container_state \<Rightarrow> runtime
    \<Rightarrow> ('k proc_state, unit, proc_error) call" where
  "reconcile_running e cid info st cfg s =
     (case compute_desired e cid info cfg s of (des, s1) \<Rightarrow>
        if rt_dry_run cfg then (err_or_ok (ds_incomplete des), s1)
        else let privileged = (ci_privileged info = Some True) in
          (case apply_pinned e cid st privileged (ds_rules des) s1 of
             (Inr _, s2) \<Rightarrow> (err_or_ok (ds_incomplete des), s2)
           | (Inl apply_error, s2) \<Rightarrow>
               (err_or_ok (join_errors [classify_apply_error cid privileged apply_error, ds_incomplete des]), s2)))"

text \<open>\<open>canceled\<close> says that the caller's context was cancelled when the transaction began.\<close>

definition reconcile_locked ::
  "('k, 'f, 'n, 'p) proc_env \<Rightarrow> string \<Rightarrow> bool \<Rightarrow> (container_inspect, proc_error) result \<Rightarrow> ('k proc_state, unit, proc_error) call" where
  "reconcile_locked e cid canceled inspected s =
     (let cfg = sn_runtime (ps_store s) in
      case inspected of
        Inl inspect_error \<Rightarrow>
          if canceled then (Inl inspect_error, s)
          else revoke_after_inspect_failure e cid (rt_dry_run cfg) inspect_error s
      | Inr info \<Rightarrow>
          (case ci_state info of
             None \<Rightarrow> if rt_dry_run cfg then (Inr (), s) else revoke_ended e cid [] s
           | Some st \<Rightarrow>
               if cs_running st \<and> cs_pid st \<noteq> 0 then reconcile_running e cid info st cfg s
               else if rt_dry_run cfg then (Inr (), s)
               else revoke_ended e cid (cs_started_at st) s))"

text \<open>The first inspect runs before the transaction, outside the lock.\<close>

definition reconcile :: "('k, 'f, 'n, 'p) proc_env \<Rightarrow> string \<Rightarrow> bool \<Rightarrow> ('k proc_state, unit, proc_error) call" where
  "reconcile e cid canceled s = (case inspect e cid s of (r, s1) \<Rightarrow> reconcile_locked e cid canceled r s1)"

definition terminate_locked ::
  "('k, 'f, 'n, 'p) proc_env \<Rightarrow> string \<Rightarrow> timestamp \<Rightarrow> ('k proc_state, unit, proc_error) call" where
  "terminate_locked e cid event_time s =
     (case lifecycle_terminate (e_time e) cid event_time (ps_lifecycles s) of (ended, lc) \<Rightarrow>
        let s1 = s\<lparr>ps_lifecycles := lc\<rparr> in
        if rt_dry_run (sn_runtime (ps_store s1)) then (Inr (), s1)
        else case revoke_records e ended s1 of (errs, s2) \<Rightarrow> (err_or_ok (join_errors errs), s2))"

datatype stat_error = StatError string errno

definition cgroup_gone :: "('k, 'f) syscalls \<Rightarrow> identity \<Rightarrow> ('k, bool, stat_error) call" where
  "cgroup_gone sys i k =
     (case sys_stat_ino sys (id_path i) k of
        (Inr ino, k1) \<Rightarrow> (Inr (ino \<noteq> id_inode i), k1)
      | (Inl n, k1) \<Rightarrow> (if n = ENOENT then Inr True else Inl (StatError (id_path i) n), k1))"

text \<open>One record of the sweep; the result says whether it was released.\<close>

definition sweep_record ::
  "('k, 'f, 'n, 'p) proc_env \<Rightarrow> timestamp \<Rightarrow> bool \<Rightarrow> lifecycle_record \<Rightarrow> 'k proc_state \<Rightarrow> bool \<times> 'k proc_state" where
  "sweep_record e now dry_run r s =
     (case lr_cgroup r of
        None \<Rightarrow>
          if lr_state r = Terminal \<or> now - max (lr_first_seen r) (lr_observed r) > PROVISIONAL_TTL
          then (True, on_history (lifecycle_release r) s)
          else (False, s)
      | Some cg \<Rightarrow>
          (case on_kernel (cgroup_gone (e_sys e) (rc_identity cg)) s of
             (Inl _, s1) \<Rightarrow> (False, s1)
           | (Inr True, s1) \<Rightarrow> (True, release_run r s1)
           | (Inr False, s1) \<Rightarrow>
               if lr_state r = Terminal \<and> \<not> lr_revoked r \<and> \<not> dry_run
               then (False, snd (revoke_at e r s1))
               else (False, s1)))"

fun sweep_records ::
  "('k, 'f, 'n, 'p) proc_env \<Rightarrow> timestamp \<Rightarrow> bool \<Rightarrow> lifecycle_record list \<Rightarrow> 'k proc_state \<Rightarrow> nat \<times> 'k proc_state" where
  "sweep_records e now dry_run [] s = (0, s)"
| "sweep_records e now dry_run (r # rs) s =
     (case sweep_record e now dry_run r s of (gone, s1) \<Rightarrow>
        (case sweep_records e now dry_run rs s1 of (n, s2) \<Rightarrow> (if gone then Suc n else n, s2)))"

definition sweep_locked :: "('k, 'f, 'n, 'p) proc_env \<Rightarrow> 'k proc_state \<Rightarrow> nat \<times> 'k proc_state" where
  "sweep_locked e s =
     (case on_kernel (e_now e) s of (now, s1) \<Rightarrow>
        sweep_records e now (rt_dry_run (sn_runtime (ps_store s1))) (lifecycle_all (ps_lifecycles s1)) s1)"

definition set_pass_requester :: "'k proc_state \<Rightarrow> 'k proc_state" where
  "set_pass_requester s = s\<lparr>ps_requested := Some []\<rparr>"

definition publish_and_reconcile :: "runtime \<Rightarrow> 'k proc_state \<Rightarrow> u64 \<times> 'k proc_state" where
  "publish_and_reconcile rt s =
     (case publish rt (ps_store s) of (generation, sn) \<Rightarrow>
        (generation, s\<lparr>ps_store := sn, ps_requested := map_option (\<lambda>gs. gs @ [generation]) (ps_requested s)\<rparr>))"

end
