(* ===== verification/Reconcile_Trace.thy ===== *)
theory Reconcile_Trace
  imports Reconcile
begin

text \<open>
  The calls of a transaction, in order. \<open>traced\<close> is an environment that answers as the given one
  and also records every Docker inspect, every system call on cgroups and processes, and every
  call of a controller, each with its answer. A transaction on it is the transaction on the given
  environment (\<open>traced_erases\<close>), so what its record shows holds of the transaction itself.
\<close>

section \<open>Recording\<close>

datatype 'f event =
    EvInspect string "(container_inspect, docker_error) result"
  | EvOpenDir string "('f, errno) result"
  | EvFstat 'f "(u64, errno) result"
  | EvStat string "(u64, errno) result"
  | EvOpenat 'f string "('f, errno) result"
  | EvRead 'f "(string, errno) result"
  | EvPidfd int "('f, errno) result"
  | EvPoll 'f "(nat, errno) result"
  | EvSet cgroup_version "'f cgroup_handle" "device_rule list" "(unit, cgroup_error) result"

definition logged :: "('a \<Rightarrow> 'f event) \<Rightarrow> ('k \<Rightarrow> 'a \<times> 'k) \<Rightarrow> 'k \<times> 'f event list \<Rightarrow> 'a \<times> 'k \<times> 'f event list" where
  "logged ev m kt = (case m (fst kt) of (r, k) \<Rightarrow> (r, k, snd kt @ [ev r]))"

definition quiet :: "('k \<Rightarrow> 'a \<times> 'k) \<Rightarrow> 'k \<times> 'f event list \<Rightarrow> 'a \<times> 'k \<times> 'f event list" where
  "quiet m kt = (case m (fst kt) of (r, k) \<Rightarrow> (r, k, snd kt))"

definition quiet_devfs :: "('k, 'n) devfs \<Rightarrow> ('k \<times> 'f event list, 'n) devfs" where
  "quiet_devfs dev =
     \<lparr>dev_root = dev_root dev, dev_open = (\<lambda>p. quiet (dev_open dev p)), dev_stat = (\<lambda>n. quiet (dev_stat dev n)),
      dev_resolved = (\<lambda>n. quiet (dev_resolved dev n)), dev_read_link = (\<lambda>p. quiet (dev_read_link dev p)),
      dev_read_uevent = (\<lambda>i. quiet (dev_read_uevent dev i)), dev_walk = (\<lambda>p. quiet (dev_walk dev p))\<rparr>"

definition traced_sys :: "('k, 'f) syscalls \<Rightarrow> ('k \<times> 'f event list, 'f) syscalls" where
  "traced_sys sys =
     \<lparr>sys_open_dir = (\<lambda>p. logged (EvOpenDir p) (sys_open_dir sys p)),
      sys_fstat_ino = (\<lambda>fd. logged (EvFstat fd) (sys_fstat_ino sys fd)),
      sys_stat_ino = (\<lambda>p. logged (EvStat p) (sys_stat_ino sys p)),
      sys_openat = (\<lambda>fd n. logged (EvOpenat fd n) (sys_openat sys fd n)),
      sys_read = (\<lambda>fd. logged (EvRead fd) (sys_read sys fd)),
      sys_pidfd_open = (\<lambda>p. logged (EvPidfd p) (sys_pidfd_open sys p)),
      sys_poll = (\<lambda>fd. logged (EvPoll fd) (sys_poll sys fd))\<rparr>"

definition with_kern :: "'l \<Rightarrow> 'k cgroup_mem \<Rightarrow> 'l cgroup_mem" where
  "with_kern k m = \<lparr>cm_kern = k, cm_ledger = cm_ledger m, cm_cache = cm_cache m, cm_probe = cm_probe m, cm_draws = cm_draws m\<rparr>"

definition traced_set :: "('k, 'f) set_device_rules \<Rightarrow> ('k \<times> 'f event list, 'f) set_device_rules" where
  "traced_set api version h rs m =
     (case api version h rs (with_kern (fst (cm_kern m)) m) of
        (r, m') \<Rightarrow> (r, with_kern (cm_kern m', snd (cm_kern m) @ [EvSet version h rs r]) m'))"

definition traced :: "('k, 'f, 'n, 'p) proc_env \<Rightarrow> ('k \<times> 'f event list, 'f, 'n, 'p) proc_env" where
  "traced e =
     \<lparr>e_sys = traced_sys (e_sys e), e_inspect = (\<lambda>cid. logged (EvInspect cid) (e_inspect e cid)),
      e_set_rules = traced_set (e_set_rules e),
      e_devfs = (\<lambda>kt. case quiet (e_devfs e) kt of (r, kt1) \<Rightarrow> (map_ok quiet_devfs r, kt1)),
      e_now = quiet (e_now e), e_time = e_time e, e_glob = e_glob e, e_host_root = e_host_root e,
      e_proc_root = e_proc_root e\<rparr>"

definition trace :: "('k \<times> 'f event list) proc_state \<Rightarrow> 'f event list" where
  "trace s = snd (cm_kern (ps_mem s))"

text \<open>What a call answers and adds to the record.\<close>

definition emits ::
  "(('k \<times> 'f event list) proc_state \<Rightarrow> 'a \<times> ('k \<times> 'f event list) proc_state)
    \<Rightarrow> ('k \<times> 'f event list) proc_state \<Rightarrow> ('a \<Rightarrow> 'f event list \<Rightarrow> bool) \<Rightarrow> bool" where
  "emits m s P \<longleftrightarrow> (\<exists>r s' d. m s = (r, s') \<and> trace s' = trace s @ d \<and> P r d)"

lemma emits_mono: "emits m s P \<Longrightarrow> (\<And>r d. P r d \<Longrightarrow> Q r d) \<Longrightarrow> emits m s Q"
  unfolding emits_def by blast

lemma emitsD: "emits m s P \<Longrightarrow> m s = (r, s') \<Longrightarrow> \<exists>d. trace s' = trace s @ d \<and> P r d"
  unfolding emits_def by auto

lemma emitsE:
  assumes "emits m s P"
  obtains r s' d where "m s = (r, s')" and "trace s' = trace s @ d" and "P r d"
  using assms unfolding emits_def by blast

lemma emits_bindS:
  assumes "emits m s P" and "\<And>x s1. m s = (Inr x, s1) \<Longrightarrow> emits (f x) s1 (Q x)"
  shows "emits (bindS m f) s (\<lambda>r d. (\<exists>err. r = Inl err \<and> P (Inl err) d)
    \<or> (\<exists>x d1 d2. d = d1 @ d2 \<and> P (Inr x) d1 \<and> Q x r d2))"
proof -
  obtain r s1 d1 where m: "m s = (r, s1)" "trace s1 = trace s @ d1" "P r d1" using assms(1) by (auto simp: emits_def)
  show ?thesis
  proof (cases r)
    case (Inl err)
    then show ?thesis using m by (auto simp: emits_def bindS_def)
  next
    case (Inr x)
    obtain r2 s2 d2 where "f x s1 = (r2, s2)" "trace s2 = trace s1 @ d2" "Q x r2 d2"
      using assms(2) [of x s1] m(1) Inr by (auto simp: emits_def)
    then show ?thesis using m Inr unfolding emits_def bindS_def by auto
  qed
qed

lemma emits_map_errS: "emits m s P \<Longrightarrow> emits (map_errS g m) s (\<lambda>r d. \<exists>r0. r = map_err g r0 \<and> P r0 d)"
  unfolding emits_def map_errS_def by (auto split: prod.splits)

lemma emits_ret: "P (Inr x) [] \<Longrightarrow> emits (retS x) s P" "P r [] \<Longrightarrow> emits (liftS r) s P"
  by (auto simp: emits_def)

lemma emits_if:
  "(b \<Longrightarrow> emits m s P) \<Longrightarrow> (\<not> b \<Longrightarrow> emits m' s P) \<Longrightarrow> emits (if b then m else m') s P"
  by simp

lemma emits_pair: "P r [] \<Longrightarrow> emits (\<lambda>s. (r, s)) s P"
  by (auto simp: emits_def)

lemma map_err_eqs [simp]:
  "Inr y = map_err g m \<longleftrightarrow> m = Inr y" "map_err g m = Inr y \<longleftrightarrow> m = Inr y"
  by (cases m; auto)+

section \<open>The calls of the environment\<close>

definition emits_k ::
  "('k \<times> 'f event list \<Rightarrow> 'a \<times> 'k \<times> 'f event list) \<Rightarrow> ('a \<Rightarrow> 'f event list \<Rightarrow> bool) \<Rightarrow> bool" where
  "emits_k m P \<longleftrightarrow> (\<forall>k t. \<exists>r k' d. m (k, t) = (r, k', t @ d) \<and> P r d)"

lemma emits_on_kernel:
  assumes "emits_k m P"
  shows "emits (on_kernel m) s P"
proof -
  obtain k t where kt: "cm_kern (ps_mem s) = (k, t)" by (cases "cm_kern (ps_mem s)")
  obtain r k' d where "m (k, t) = (r, k', t @ d)" "P r d" using assms unfolding emits_k_def by blast
  then show ?thesis by (auto simp: emits_def on_kernel_def kt trace_def)
qed

lemma emits_k_mono: "emits_k m P \<Longrightarrow> (\<And>r d. P r d \<Longrightarrow> Q r d) \<Longrightarrow> emits_k m Q"
  unfolding emits_k_def by meson

lemma emits_k_logged: "emits_k (logged ev m) (\<lambda>r d. d = [ev r])"
  by (auto simp: emits_k_def logged_def split: prod.splits)

lemma emits_k_quiet: "emits_k (quiet m) (\<lambda>r d. d = [])"
  by (auto simp: emits_k_def quiet_def split: prod.splits)

lemma emits_k_ret: "P (Inr x) [] \<Longrightarrow> emits_k (retS x) P" "P r [] \<Longrightarrow> emits_k (liftS r) P"
  by (auto simp: emits_k_def)

lemma emits_k_bindS:
  assumes "emits_k m P" and "\<And>x. emits_k (f x) (Q x)"
  shows "emits_k (bindS m f) (\<lambda>r d. (\<exists>err. r = Inl err \<and> P (Inl err) d)
    \<or> (\<exists>x d1 d2. d = d1 @ d2 \<and> P (Inr x) d1 \<and> Q x r d2))"
  unfolding emits_k_def
proof (intro allI)
  fix k t
  obtain r k1 d1 where m: "m (k, t) = (r, k1, t @ d1)" "P r d1" using assms(1) unfolding emits_k_def by blast
  show "\<exists>r k' d. bindS m f (k, t) = (r, k', t @ d) \<and> ((\<exists>err. r = Inl err \<and> P (Inl err) d)
    \<or> (\<exists>x d1 d2. d = d1 @ d2 \<and> P (Inr x) d1 \<and> Q x r d2))"
  proof (cases r)
    case (Inl err)
    then show ?thesis using m by (auto simp: bindS_def)
  next
    case (Inr x)
    obtain r2 k2 d2 where f2: "f x (k1, t @ d1) = (r2, k2, (t @ d1) @ d2)" "Q x r2 d2"
      using assms(2) [of x] unfolding emits_k_def by blast
    have "bindS m f (k, t) = (r2, k2, t @ (d1 @ d2))" using m(1) Inr f2(1) by (simp add: bindS_def)
    then show ?thesis using m(2) Inr f2(2) by blast
  qed
qed

lemma emits_k_map_errS: "emits_k m P \<Longrightarrow> emits_k (map_errS g m) (\<lambda>r d. \<exists>r0. r = map_err g r0 \<and> P r0 d)"
  unfolding emits_k_def map_errS_def by (metis (no_types, lifting) case_prod_conv)

lemma emits_set:
  "emits (on_mem (e_set_rules (traced e) v h rs)) s (\<lambda>r d. d = [EvSet v h rs r])"
  by (auto simp: emits_def on_mem_def traced_def traced_set_def with_kern_def trace_def split: prod.splits)

lemma emits_inspect:
  "emits (inspect (traced e) cid) s (\<lambda>r d. \<exists>a. r = map_err (PInspect cid) a \<and> d = [EvInspect cid a])"
proof -
  have "emits (on_kernel (e_inspect (traced e) cid)) s (\<lambda>r d. d = [EvInspect cid r])"
    by (rule emits_on_kernel) (simp add: traced_def emits_k_logged)
  from emits_map_errS [OF this, of "PInspect cid"] show ?thesis unfolding inspect_def by simp
qed

section \<open>Guarded mutations\<close>

definition no_set :: "'f event list \<Rightarrow> bool" where
  "no_set d \<longleftrightarrow> (\<forall>ev \<in> set d. case ev of EvSet _ _ _ _ \<Rightarrow> False | _ \<Rightarrow> True)"

lemma no_set_simps [simp]:
  "no_set []" "no_set (d1 @ d2) \<longleftrightarrow> no_set d1 \<and> no_set d2"
  "no_set (ev # d) \<longleftrightarrow> (case ev of EvSet _ _ _ _ \<Rightarrow> False | _ \<Rightarrow> True) \<and> no_set d"
  by (auto simp: no_set_def)

text \<open>The directory behind the handle was opened and its inode read.\<close>

definition open_events :: "'f cgroup_handle \<Rightarrow> 'f event list" where
  "open_events h =
     [EvOpenDir (id_path (h_identity h)) (Inr (h_fd h)), EvFstat (h_fd h) (Inr (id_inode (h_identity h)))]"

text \<open>The check made immediately before a mutation: the same run, alive, and a member of the cgroup.\<close>

definition member_events :: "int \<Rightarrow> 'f cgroup_handle \<Rightarrow> 'f event list \<Rightarrow> bool" where
  "member_events pid h d \<longleftrightarrow>
     (\<exists>fd data. d = [EvOpenat (h_fd h) ''cgroup.procs'' (Inr fd), EvRead fd (Inr data)] \<and> lists_process pid data)"

definition check_events :: "string \<Rightarrow> container_state \<Rightarrow> 'f \<Rightarrow> 'f cgroup_handle \<Rightarrow> bool \<Rightarrow> 'f event list \<Rightarrow> bool" where
  "check_events cid st pidfd h grants d \<longleftrightarrow>
     (\<exists>info tail. d = [EvInspect cid (Inr info), EvPoll pidfd (Inr 0)] @ tail \<and> same_run st info
        \<and> (if grants then member_events (cs_pid st) h tail else tail = []))"

text \<open>
  What precedes a mutation. A set on the cgroup of the running process comes right after the
  check, with the process pinned and the directory opened before it; grants need the membership.
  Any other set is empty, on a recorded directory reopened right before and found to be the same.
\<close>

definition pinned_before :: "container_state \<Rightarrow> 'f \<Rightarrow> 'f cgroup_handle \<Rightarrow> 'f event list \<Rightarrow> bool" where
  "pinned_before st pidfd h p \<longleftrightarrow>
     (\<exists>p1 p2 p3. p = p1 @ EvPidfd (cs_pid st) (Inr pidfd) # p2 @ open_events h @ p3)"

definition set_guarded :: "string \<Rightarrow> container_state \<Rightarrow> 'f event list \<Rightarrow> 'f cgroup_handle \<Rightarrow> device_rule list \<Rightarrow> bool" where
  "set_guarded cid st pre h rs \<longleftrightarrow>
     (rs = [] \<and> (\<exists>p. pre = p @ open_events h))
     \<or> (\<exists>p pidfd d grants. pre = p @ d \<and> pinned_before st pidfd h p \<and> check_events cid st pidfd h grants d
          \<and> (rs \<noteq> [] \<longrightarrow> grants))"

definition sets_ok :: "('f event list \<Rightarrow> 'f cgroup_handle \<Rightarrow> device_rule list \<Rightarrow> bool) \<Rightarrow> 'f event list \<Rightarrow> bool" where
  "sets_ok G t \<longleftrightarrow> (\<forall>pre v h rs r post. t = pre @ EvSet v h rs r # post \<longrightarrow> G pre h rs)"

definition reopened :: "'f event list \<Rightarrow> 'f cgroup_handle \<Rightarrow> device_rule list \<Rightarrow> bool" where
  "reopened pre h rs \<longleftrightarrow> rs = [] \<and> (\<exists>p. pre = p @ open_events h)"

abbreviation all_guarded :: "string \<Rightarrow> container_state \<Rightarrow> device_rule list \<Rightarrow> 'f event list \<Rightarrow> bool" where
  "all_guarded cid st rules' \<equiv> sets_ok (\<lambda>pre h rs. set_guarded cid st pre h rs \<and> (rs = [] \<or> rs = rules'))"

lemma set_guarded_extend: "set_guarded cid st pre h rs \<Longrightarrow> set_guarded cid st (p0 @ pre) h rs"
  unfolding set_guarded_def pinned_before_def
  by (metis (no_types, opaque_lifting) append.assoc)

lemma reopened_extend: "reopened pre h rs \<Longrightarrow> reopened (p0 @ pre) h rs"
  unfolding reopened_def by auto

lemma sets_ok_no_set: "no_set t \<Longrightarrow> sets_ok G t"
  unfolding sets_ok_def by auto

lemma sets_ok_append:
  assumes "\<And>p0 pre h rs. G pre h rs \<Longrightarrow> G (p0 @ pre) h rs" and "sets_ok G t1" and "sets_ok G t2"
  shows "sets_ok G (t1 @ t2)"
  unfolding sets_ok_def
proof (intro allI impI)
  fix pre v h rs r post
  assume eq: "t1 @ t2 = pre @ EvSet v h rs r # post"
  then consider us where "t1 = pre @ EvSet v h rs r # us" | us where "pre = t1 @ us" "t2 = us @ EvSet v h rs r # post"
    by (auto simp: append_eq_append_conv2 Cons_eq_append_conv append_eq_Cons_conv)
  then show "G pre h rs"
  proof cases
    case 1
    then show ?thesis using assms(2) unfolding sets_ok_def by blast
  next
    case 2
    then have "G us h rs" using assms(3) unfolding sets_ok_def by blast
    then show ?thesis using assms(1) [of us h rs t1] 2(1) by simp
  qed
qed

lemma sets_ok_snoc:
  assumes "sets_ok G t" and "G t h rs"
  shows "sets_ok G (t @ [EvSet v h rs r])"
  unfolding sets_ok_def
proof (intro allI impI)
  fix pre v' h' rs' r' post
  assume eq: "t @ [EvSet v h rs r] = pre @ EvSet v' h' rs' r' # post"
  show "G pre h' rs'"
  proof (cases post rule: rev_cases)
    case Nil
    then show ?thesis using eq assms(2) by simp
  next
    case (snoc post' ev)
    then have "t = pre @ EvSet v' h' rs' r' # post'" using eq by simp
    then show ?thesis using assms(1) unfolding sets_ok_def by blast
  qed
qed

lemma sets_ok_mono: "sets_ok G t \<Longrightarrow> (\<And>pre h rs. G pre h rs \<Longrightarrow> H pre h rs) \<Longrightarrow> sets_ok H t"
  unfolding sets_ok_def by blast

lemma all_guarded_append: "all_guarded cid st rules' t1 \<Longrightarrow> all_guarded cid st rules' t2 \<Longrightarrow> all_guarded cid st rules' (t1 @ t2)"
  by (rule sets_ok_append) (auto intro: set_guarded_extend)

lemma reopened_guarded: "sets_ok reopened t \<Longrightarrow> all_guarded cid st rules' t"
  by (erule sets_ok_mono) (auto simp: reopened_def set_guarded_def)

lemmas traced_sels = traced_def traced_sys_def

lemma emits_k_handle_open:
  "emits_k (handle_open (e_sys (traced e)) path)
     (\<lambda>r d. no_set d \<and> (\<forall>h. r = Inr h \<longrightarrow> id_path (h_identity h) = path \<and> d = open_events h))"
proof -
  let ?sys = "e_sys (traced e)"
  have o1: "emits_k (map_errS (HandleOpen path) (sys_open_dir ?sys path)) (\<lambda>r d. \<exists>a. r = map_err (HandleOpen path) a \<and> d = [EvOpenDir path a])"
    by (rule emits_k_map_errS) (simp add: traced_sels emits_k_logged)
  have o2: "emits_k (map_errS (HandleStat path) (sys_fstat_ino ?sys fd)) (\<lambda>r d. \<exists>a. r = map_err (HandleStat path) a \<and> d = [EvFstat fd a])" for fd
    by (rule emits_k_map_errS) (simp add: traced_sels emits_k_logged)
  have o3: "emits_k (retS \<lparr>h_fd = fd, h_identity = \<lparr>id_path = path, id_inode = ino\<rparr>\<rparr>)
      (\<lambda>r d. d = [] \<and> r = Inr \<lparr>h_fd = fd, h_identity = \<lparr>id_path = path, id_inode = ino\<rparr>\<rparr>)" for fd ino
    by (rule emits_k_ret) simp
  show ?thesis unfolding handle_open_def
    by (rule emits_k_mono [OF emits_k_bindS [OF o1 emits_k_bindS [OF o2 o3]]])
      (auto simp: open_events_def)
qed

lemma emits_k_alive:
  "emits_k (alive (e_sys (traced e)) fd) (\<lambda>r d. no_set d \<and> (r = Inr () \<longrightarrow> d = [EvPoll fd (Inr 0)]))"
proof -
  have o1: "emits_k (map_errS PinGone (sys_poll (e_sys (traced e)) fd)) (\<lambda>r d. \<exists>a. r = map_err PinGone a \<and> d = [EvPoll fd a])"
    by (rule emits_k_map_errS) (simp add: traced_sels emits_k_logged)
  have o2: "emits_k (if n = 0 then retS () else liftS (Inl (PinGone ESRCH))) (\<lambda>r d. d = [] \<and> (r = Inr () \<longrightarrow> n = 0))" for n :: nat
    by (auto intro: emits_k_ret)
  show ?thesis unfolding alive_def
    by (rule emits_k_mono [OF emits_k_bindS [OF o1 o2]]) auto
qed

lemma emits_k_has_process:
  "emits_k (has_process (e_sys (traced e)) h pid) (\<lambda>r d. no_set d \<and> (r = Inr True \<longrightarrow> member_events pid h d))"
proof -
  let ?sys = "e_sys (traced e)" and ?f = "OpenProcs (id_path (h_identity h))" and ?g = "ReadProcs (id_path (h_identity h))"
  have o1: "emits_k (map_errS ?f (sys_openat ?sys (h_fd h) ''cgroup.procs''))
      (\<lambda>r d. \<exists>a. r = map_err ?f a \<and> d = [EvOpenat (h_fd h) ''cgroup.procs'' a])"
    by (rule emits_k_map_errS) (simp add: traced_sels emits_k_logged)
  have o2: "emits_k (map_errS ?g (sys_read ?sys fd)) (\<lambda>r d. \<exists>a. r = map_err ?g a \<and> d = [EvRead fd a])" for fd
    by (rule emits_k_map_errS) (simp add: traced_sels emits_k_logged)
  have o3: "emits_k (retS (lists_process pid data)) (\<lambda>r d. d = [] \<and> r = Inr (lists_process pid data))" for data
    by (rule emits_k_ret) simp
  show ?thesis unfolding has_process_def
    by (rule emits_k_mono [OF emits_k_bindS [OF o1 emits_k_bindS [OF o2 o3]]])
      (auto simp: member_events_def)
qed

lemma emits_verify:
  "emits (verify_pinned (traced e) cid st pidfd h grants) s
     (\<lambda>r d. no_set d \<and> (r = Inr () \<longrightarrow> check_events cid st pidfd h grants d))"
proof -
  let ?e = "traced e" and ?f = "PVerify cid \<circ> VerifyInspect" and ?g = "PinnedGone cid (cs_pid st)"
  have o1: "emits (map_errS ?f (inspect ?e cid)) s'
      (\<lambda>r d. \<exists>a. (\<forall>x. r = Inr x \<longrightarrow> a = Inr x) \<and> d = [EvInspect cid a])" for s'
    by (rule emits_mono [OF emits_map_errS [OF emits_inspect]]) auto
  have o2: "emits (map_errS ?g (on_kernel (alive (e_sys ?e) pidfd))) s'
      (\<lambda>r d. no_set d \<and> (r = Inr () \<longrightarrow> d = [EvPoll pidfd (Inr 0)]))" for s'
    by (rule emits_mono [OF emits_map_errS [OF emits_on_kernel [OF emits_k_alive]]]) auto
  have o3: "emits (map_errS (PVerify cid \<circ> VerifyMembership) (on_kernel (has_process (e_sys ?e) h (cs_pid st)))) s'
      (\<lambda>r d. no_set d \<and> (r = Inr True \<longrightarrow> member_events (cs_pid st) h d))" for s'
    by (rule emits_mono [OF emits_map_errS [OF emits_on_kernel [OF emits_k_has_process]]]) auto
  have o4: "emits (if member then retS () else liftS (Inl (NotInCgroup cid (cs_pid st)))) s'
      (\<lambda>r d. d = [] \<and> (r = Inr () \<longrightarrow> member))" for s' :: "('a \<times> 'b event list) proc_state" and member
    by (auto intro: emits_ret)
  have o5: "emits (if \<not> grants then retS () else bindS (map_errS (PVerify cid \<circ> VerifyMembership)
        (on_kernel (has_process (e_sys ?e) h (cs_pid st)))) (\<lambda>member. if member then retS () else liftS (Inl (NotInCgroup cid (cs_pid st))))) s'
      (\<lambda>r d. no_set d \<and> (r = Inr () \<longrightarrow> (if grants then member_events (cs_pid st) h d else d = [])))" for s'
    by (cases grants) (auto intro!: emits_ret emits_mono [OF emits_bindS [OF o3 o4]])
  have o6: "emits (if \<not> same_run st again then liftS (Inl (LifecycleChanged cid (cs_pid st)))
        else bindS (map_errS ?g (on_kernel (alive (e_sys ?e) pidfd))) (\<lambda>_. if \<not> grants then retS ()
          else bindS (map_errS (PVerify cid \<circ> VerifyMembership) (on_kernel (has_process (e_sys ?e) h (cs_pid st))))
            (\<lambda>member. if member then retS () else liftS (Inl (NotInCgroup cid (cs_pid st)))))) s'
      (\<lambda>r d. no_set d \<and> (r = Inr () \<longrightarrow> same_run st again \<and>
        (\<exists>tail. d = EvPoll pidfd (Inr 0) # tail \<and> (if grants then member_events (cs_pid st) h tail else tail = []))))" for again s'
    by (rule emits_if, rule emits_ret, simp, rule emits_mono [OF emits_bindS [OF o2 o5]]) auto
  show ?thesis unfolding verify_pinned_def
    by (rule emits_mono [OF emits_bindS [OF o1 o6]]) (cases grants; auto simp: check_events_def)
qed

text \<open>A recorded directory: nothing is set while it is opened.\<close>

lemma emits_open_recorded:
  "emits (open_recorded (traced e) r i) s
     (\<lambda>a d. no_set d \<and> (\<forall>h. a = Inr (RecordedOpen h) \<longrightarrow> h_identity h = i \<and> d = open_events h))"
proof -
  obtain a s' d where h: "on_kernel (handle_open (e_sys (traced e)) (id_path i)) s = (a, s')" "trace s' = trace s @ d" "no_set d"
    "\<forall>h. a = Inr h \<longrightarrow> d = open_events h"
    using emits_on_kernel [OF emits_k_handle_open [of e "id_path i"], of s] by (auto simp: emits_def)
  show ?thesis
  proof (cases a)
    case (Inl err)
    then show ?thesis using h by (cases err) (auto simp: emits_def open_recorded_def)
  next
    case (Inr h')
    then show ?thesis using h by (auto simp: emits_def open_recorded_def)
  qed
qed

lemma trace_simps [simp]:
  "trace (on_history f s) = trace s" "trace (forget i s) = trace s" "trace (release_run r s) = trace s"
  "trace (s\<lparr>ps_lifecycles := lc\<rparr>) = trace s"
  by (simp_all add: trace_def on_history_def forget_def release_run_def Let_def split: option.splits)

lemma trace_with_now [simp]: "trace (with_now (traced e) f s) = trace s"
  using emits_on_kernel [OF emits_k_quiet [of "e_now e"], of s]
  by (auto simp: with_now_def traced_def emits_def trace_def on_history_def split: prod.splits)

text \<open>A revocation at a recorded directory: one empty set at most, right after the reopening.\<close>

definition revoke_events :: "'f event list \<Rightarrow> bool" where
  "revoke_events d \<longleftrightarrow> no_set d \<or> (\<exists>v h r. d = open_events h @ [EvSet v h [] r])"

lemma open_events_no_set [simp]: "no_set (open_events h)"
  by (simp add: open_events_def)

lemma revoke_events_reopened: "revoke_events d \<Longrightarrow> sets_ok reopened d"
proof (cases "no_set d")
  case False
  assume "revoke_events d"
  with False obtain v h r where d: "d = open_events h @ [EvSet v h [] r]" by (auto simp: revoke_events_def)
  have "reopened (open_events h) h []" unfolding reopened_def by (metis append_Nil)
  then show ?thesis unfolding d by (intro sets_ok_snoc sets_ok_no_set) simp_all
qed (rule sets_ok_no_set)

lemma emits_revoke_at: "emits (revoke_at (traced e) r) s (\<lambda>a d. revoke_events d)"
proof (cases "lr_cgroup r")
  case None
  then show ?thesis by (auto simp: revoke_at_def revoke_events_def intro: emits_ret)
next
  case (Some cg)
  obtain a s' d where o: "open_recorded (traced e) r (rc_identity cg) s = (a, s')" "trace s' = trace s @ d" "no_set d"
    "\<forall>h. a = Inr (RecordedOpen h) \<longrightarrow> d = open_events h"
    using emits_open_recorded [of e r "rc_identity cg" s] by (auto simp: emits_def)
  show ?thesis
  proof (cases "\<exists>h. a = Inr (RecordedOpen h)")
    case False
    then show ?thesis using o Some
      by (auto simp: emits_def revoke_at_def bindS_def revoke_events_def split: sum.splits recorded.splits)
  next
    case True
    then obtain h where h: "a = Inr (RecordedOpen h)" "d = open_events h" using o(4) by blast
    obtain b s2 where st: "on_mem (e_set_rules (traced e) (rc_version cg) h []) s' = (b, s2)"
      "trace s2 = trace s' @ [EvSet (rc_version cg) h [] b]"
      using emits_set [of e "rc_version cg" h "[]" s'] by (auto simp: emits_def)
    have "revoke_events (d @ [EvSet (rc_version cg) h [] b])" using h(2) by (auto simp: revoke_events_def)
    then show ?thesis using o h st Some
      by (auto simp: emits_def revoke_at_def bindS_def split: sum.splits)
  qed
qed

lemma emits_revoke_moved: "emits (revoke_moved (traced e) r previous) s (\<lambda>a d. revoke_events d)"
proof -
  obtain a s' d where o: "open_recorded (traced e) r (rc_identity previous) s = (a, s')" "trace s' = trace s @ d" "no_set d"
    "\<forall>h. a = Inr (RecordedOpen h) \<longrightarrow> d = open_events h"
    using emits_open_recorded [of e r "rc_identity previous" s] by (auto simp: emits_def)
  show ?thesis
  proof (cases "\<exists>h. a = Inr (RecordedOpen h)")
    case False
    then show ?thesis using o
      by (auto simp: emits_def revoke_moved_def bindS_def revoke_events_def split: sum.splits recorded.splits)
  next
    case True
    then obtain h where h: "a = Inr (RecordedOpen h)" "d = open_events h" using o(4) by blast
    obtain b s2 where st: "on_mem (e_set_rules (traced e) (rc_version previous) h []) s' = (b, s2)"
      "trace s2 = trace s' @ [EvSet (rc_version previous) h [] b]"
      using emits_set [of e "rc_version previous" h "[]" s'] by (auto simp: emits_def)
    have "revoke_events (d @ [EvSet (rc_version previous) h [] b])" using h(2) by (auto simp: revoke_events_def)
    then show ?thesis using o h st
      by (auto simp: emits_def revoke_moved_def bindS_def split: sum.splits)
  qed
qed

lemma emits_leave_previous:
  "emits (leave_previous (traced e) cid st pidfd h) s
     (\<lambda>r d. \<exists>d1 d2. d = d1 @ d2 \<and> revoke_events d1 \<and> no_set d2
        \<and> (r = Inr () \<longrightarrow> d = [] \<or> check_events cid st pidfd h True d2))"
    (is "emits _ _ ?P")
proof -
  have none: "?P (Inr ()) []" by (auto simp: revoke_events_def)
  have moved: "emits (bindS (revoke_moved (traced e) r previous) (\<lambda>_. verify_pinned (traced e) cid st pidfd h True)) s ?P" for r previous
  proof (rule emits_mono [OF emits_bindS [OF emits_revoke_moved emits_verify]])
    fix a :: "proc_error + unit" and d
    assume "(\<exists>err. a = Inl err \<and> revoke_events d) \<or> (\<exists>x d1 d2. d = d1 @ d2 \<and> revoke_events d1
      \<and> no_set d2 \<and> (a = Inr () \<longrightarrow> check_events cid st pidfd h True d2))"
    then show "?P a d" by (elim disjE exE conjE) (rule exI [of _ d], rule exI [of _ "[]"], simp, blast)
  qed
  show ?thesis
  proof (cases "lifecycle_lookup cid (cs_started_at st) (ps_lifecycles s)")
    case None
    then show ?thesis using none by (auto simp: leave_previous_def emits_def)
  next
    case (Some r)
    show ?thesis
    proof (cases "lr_cgroup r")
      case None
      then show ?thesis using none Some by (auto simp: leave_previous_def emits_def)
    next
      case (Some previous)
      then have "leave_previous (traced e) cid st pidfd h s = (if rc_identity previous = h_identity h then (Inr (), s)
          else bindS (revoke_moved (traced e) r previous) (\<lambda>_. verify_pinned (traced e) cid st pidfd h True) s)"
        using \<open>lifecycle_lookup _ _ _ = Some r\<close> by (simp add: leave_previous_def)
      then show ?thesis using moved [of r previous] none unfolding emits_def
        by (cases "rc_identity previous = h_identity h") simp_all
    qed
  qed
qed

lemma pinned_before_extend: "pinned_before st pidfd h p \<Longrightarrow> pinned_before st pidfd h (p @ q)"
  unfolding pinned_before_def by (metis (no_types, lifting) append.assoc append_Cons)

lemma checked_guarded:
  "pinned_before st pidfd h p \<Longrightarrow> check_events cid st pidfd h grants d \<Longrightarrow> (rs \<noteq> [] \<Longrightarrow> grants) \<Longrightarrow> set_guarded cid st (p @ d) h rs"
  unfolding set_guarded_def by blast

lemma apply_events_guarded:
  assumes "no_set p" and "pinned_before st pidfd h p" and "no_set dv" and "revoke_events d1" and "no_set d2"
  shows "all_guarded cid st rs (p @ dv @ d1 @ d2)"
    and "check_events cid st pidfd h (rs \<noteq> []) dv \<Longrightarrow> d1 @ d2 = [] \<or> check_events cid st pidfd h True d2
      \<Longrightarrow> set_guarded cid st (p @ dv @ d1 @ d2) h rs"
proof -
  show "all_guarded cid st rs (p @ dv @ d1 @ d2)"
    using assms by (intro all_guarded_append) (simp_all add: sets_ok_no_set reopened_guarded revoke_events_reopened)
  assume dv: "check_events cid st pidfd h (rs \<noteq> []) dv" and "d1 @ d2 = [] \<or> check_events cid st pidfd h True d2"
  then consider "d1 @ d2 = []" | "check_events cid st pidfd h True d2" by blast
  then show "set_guarded cid st (p @ dv @ d1 @ d2) h rs"
  proof cases
    case 1
    then show ?thesis using checked_guarded [OF assms(2) dv, of rs] by simp
  next
    case 2
    then show ?thesis using checked_guarded [OF pinned_before_extend [OF assms(2), of "dv @ d1"], of cid True d2 rs] by simp
  qed
qed

lemma emits_apply_handle:
  fixes h :: "'f cgroup_handle"
  shows "emits (apply_handle (traced e) cid st privileged rs pidfd version h) s
    (\<lambda>r d. \<forall>p. no_set p \<longrightarrow> pinned_before st pidfd h p \<longrightarrow> all_guarded cid st rs (p @ d))"
proof -
  let ?set = "\<lambda>s. map_errS SetRules (on_mem (e_set_rules (traced e) version h rs)) (with_now (traced e)
    (\<lambda>now. lifecycle_verify (e_time (traced e)) now cid (cs_started_at st) \<lparr>rc_identity = h_identity h, rc_version = version, rc_privileged = privileged\<rparr>) s)"
  have set: "emits ?set s' (\<lambda>r d. \<exists>a. d = [EvSet version h rs a])" for s'
  proof -
    let ?s = "with_now (traced e) (\<lambda>now. lifecycle_verify (e_time (traced e)) now cid (cs_started_at st)
      \<lparr>rc_identity = h_identity h, rc_version = version, rc_privileged = privileged\<rparr>) s'"
    have "trace ?s = trace s'" by simp
    then show ?thesis using emits_set [of e version h rs ?s] unfolding emits_def map_errS_def by auto
  qed
  show ?thesis unfolding apply_handle_def
  proof (rule emits_mono [OF emits_bindS [OF emits_verify emits_bindS [OF emits_leave_previous set]]], intro allI impI, elim disjE exE conjE)
    fix d p :: "'f event list" assume "no_set d" "no_set p"
    then show "all_guarded cid st rs (p @ d)" by (simp add: sets_ok_no_set)
  next
    fix d dv d12 d1 d2 p :: "'f event list"
    assume "no_set p" "pinned_before st pidfd h p" "d = dv @ d12" "d12 = d1 @ d2" "no_set dv" "revoke_events d1" "no_set d2"
    then show "all_guarded cid st rs (p @ d)" using apply_events_guarded(1) [of p st pidfd h dv d1 d2] by simp
  next
    fix d dv d12 dl ds d1 d2 p :: "'f event list" and x x2 :: unit and a
    assume "no_set p" "pinned_before st pidfd h p" "d = dv @ d12" "d12 = dl @ ds" "dl = d1 @ d2" "ds = [EvSet version h rs a]"
      "no_set dv" "revoke_events d1" "no_set d2" "Inr x = Inr () \<longrightarrow> check_events cid st pidfd h (rs \<noteq> []) dv"
      "Inr x2 = Inr () \<longrightarrow> dl = [] \<or> check_events cid st pidfd h True d2"
    then show "all_guarded cid st rs (p @ d)"
      using apply_events_guarded [of p st pidfd h dv d1 d2 cid rs] 
        sets_ok_snoc [of "\<lambda>pre h rs'. set_guarded cid st pre h rs' \<and> (rs' = [] \<or> rs' = rs)" "p @ dv @ d1 @ d2" h rs version a] by simp
  qed
qed

section \<open>The view of \<open>/dev\<close>\<close>

lemma quiet_app: "quiet m (k, t) = (case m k of (r, k') \<Rightarrow> (r, k', t))"
  by (simp add: quiet_def)

lemma quiet_devfs_simps [simp]:
  "dev_root (quiet_devfs dev) = dev_root dev" "dev_open (quiet_devfs dev) p = quiet (dev_open dev p)"
  "dev_stat (quiet_devfs dev) n = quiet (dev_stat dev n)" "dev_resolved (quiet_devfs dev) n = quiet (dev_resolved dev n)"
  "dev_read_link (quiet_devfs dev) p = quiet (dev_read_link dev p)"
  "dev_read_uevent (quiet_devfs dev) i = quiet (dev_read_uevent dev i)"
  "dev_walk (quiet_devfs dev) p = quiet (dev_walk dev p)"
  by (simp_all add: quiet_devfs_def)

lemma quiet_escape_prefixes:
  "escape_prefixes (quiet_devfs dev) rel parts is (k, t) = (case escape_prefixes dev rel parts is k of (r, k') \<Rightarrow> (r, k', t))"
  by (induction "is" arbitrary: k) (auto simp: quiet_app Let_def split: prod.splits sum.splits)

lemma quiet_open_hops:
  "open_hops (quiet_devfs dev) alias n rel (k, t) = (case open_hops dev alias n rel k of (r, k') \<Rightarrow> (r, k', t))"
  by (induction n arbitrary: rel k)
    (auto simp: quiet_app escape_hop_def Let_def quiet_escape_prefixes split: prod.splits sum.splits hop.splits)

lemma quiet_evaluate_node:
  "evaluate_node (quiet_devfs dev) j alias n (k, t) = (case evaluate_node dev j alias n k of (r, k') \<Rightarrow> (r, k', t))"
  by (auto simp: evaluate_node_def canonical_name_def bindS_def map_errS_def quiet_app Let_def
      split: prod.splits sum.splits node_kind.splits)

lemma quiet_evaluate_candidate:
  "evaluate_candidate (quiet_devfs dev) j alias (k, t) = (case evaluate_candidate dev j alias k of (r, k') \<Rightarrow> (r, k', t))"
  by (auto simp: evaluate_candidate_def open_candidate_def quiet_open_hops quiet_evaluate_node
      split: prod.splits sum.splits opened.splits)

lemma quiet_visit_entry:
  "visit_entry (quiet_devfs dev) j source base v (w, k, t) = (case visit_entry dev j source base v (w, k) of (c, w', k') \<Rightarrow> (c, w', k', t))"
  by (auto simp: visit_entry_def Let_def quiet_evaluate_candidate split: prod.splits option.splits)

lemma quiet_run_visits:
  "run_visits (visit_entry (quiet_devfs dev) j source base) vs (w, k, t)
     = (case run_visits (visit_entry dev j source base) vs (w, k) of (c, w', k') \<Rightarrow> (c, w', k', t))"
  by (induction vs arbitrary: w k) (auto simp: quiet_visit_entry split: prod.splits walk_control.splits)

lemma quiet_collect_mount_rules:
  "collect_mount_rules (quiet_devfs dev) j p (k, t) = (case collect_mount_rules dev j p k of (r, k') \<Rightarrow> (r, k', t))"
  by (auto simp: collect_mount_rules_def walk_mount_def Let_def quiet_evaluate_candidate quiet_run_visits quiet_app
      split: prod.splits option.splits node_kind.splits)

lemma quiet_collect_mounts:
  "collect_mounts (quiet_devfs dev) j mps acc (k, t) = (case collect_mounts dev j mps acc k of (r, k') \<Rightarrow> (r, k', t))"
proof (induction mps arbitrary: acc k)
  case (Cons mp mps)
  then show ?case by (cases acc) (auto simp: quiet_collect_mount_rules split: prod.splits)
qed (cases acc, simp)

lemma quiet_collect:
  "collect_container_rules (quiet_devfs dev) j mounts = quiet (collect_container_rules dev j mounts)"
  by (rule ext) (auto simp: collect_container_rules_def quiet_def quiet_collect_mounts split: prod.splits)

lemma emits_k_pin:
  "emits_k (pin (e_sys (traced e)) pid) (\<lambda>r d. no_set d \<and> (\<forall>fd. r = Inr fd \<longrightarrow> d = [EvPidfd pid (Inr fd)]))"
proof (cases "0 < pid \<and> pid < 2 ^ 31")
  case True
  have "emits_k (map_errS (PinOpen pid) (sys_pidfd_open (e_sys (traced e)) pid)) (\<lambda>r d. \<exists>a. r = map_err (PinOpen pid) a \<and> d = [EvPidfd pid a])"
    by (rule emits_k_map_errS) (simp add: traced_sels emits_k_logged)
  then show ?thesis using True by (auto simp: pin_def elim: emits_k_mono)
next
  case False
  then show ?thesis by (auto simp: pin_def emits_k_def map_errS_def)
qed

lemma emits_k_read_proc_cgroup: "emits_k (read_proc_cgroup (e_sys (traced e)) root pid) (\<lambda>r d. no_set d)"
proof -
  let ?sys = "e_sys (traced e)"
  have q: "emits_k (map_errS g (logged ev m)) (\<lambda>r d. no_set d)" if "\<And>a. no_set [ev a]" for g ev m
    using that by (auto intro: emits_k_mono [OF emits_k_map_errS [OF emits_k_logged]])
  have bind: "emits_k (bindS m f) (\<lambda>r d. no_set d)" if "emits_k m (\<lambda>r d. no_set d)" "\<And>x. emits_k (f x) (\<lambda>r d. no_set d)" for m f
    by (rule emits_k_mono [OF emits_k_bindS [OF that]]) auto
  have "emits_k (read_at ?sys dir name) (\<lambda>r d. no_set d)" for dir name
    unfolding read_at_def by (intro bind) (simp_all add: traced_sels q)
  then show ?thesis unfolding read_proc_cgroup_def Let_def
    by (intro bind) (simp_all add: traced_sels q emits_k_ret)
qed

lemma pinned_before_start: "pinned_before st pidfd h (EvPidfd (cs_pid st) (Inr pidfd) # d @ open_events h)"
  unfolding pinned_before_def by (metis append_Nil append_Nil2)

lemma emits_apply_pinned: "emits (apply_pinned (traced e) cid st privileged rs) s (\<lambda>r d. all_guarded cid st rs d)"
proof -
  let ?e = "traced e"
  have o1: "emits (map_errS (PPin cid) (on_kernel (pin (e_sys ?e) (cs_pid st)))) s'
      (\<lambda>r d. no_set d \<and> (\<forall>fd. r = Inr fd \<longrightarrow> d = [EvPidfd (cs_pid st) (Inr fd)]))" for s'
    by (rule emits_mono [OF emits_map_errS [OF emits_on_kernel [OF emits_k_pin]]]) auto
  have o2: "emits (map_errS (PProcCgroup cid) (on_kernel (read_proc_cgroup (e_sys ?e) root (cs_pid st)))) s' (\<lambda>r d. no_set d)" for s' root
    by (rule emits_mono [OF emits_map_errS [OF emits_on_kernel [OF emits_k_read_proc_cgroup]]]) auto
  have o3: "emits (map_errS OpenCgroup (on_kernel (handle_open (e_sys ?e) path))) s' (\<lambda>r d. no_set d \<and> (\<forall>h. r = Inr h \<longrightarrow> d = open_events h))" for s' path
    by (rule emits_mono [OF emits_map_errS [OF emits_on_kernel [OF emits_k_handle_open]]]) auto
  show ?thesis unfolding apply_pinned_def
  proof (rule emits_mono [OF emits_bindS [OF o1 emits_bindS [OF o2 emits_bindS [OF o3 emits_apply_handle]]]], elim disjE exE conjE, goal_cases)
    case (4 r d pidfd d1 d' pc d2 d'' h d3 d4)
    let ?p = "EvPidfd (cs_pid st) (Inr pidfd) # d2 @ open_events h"
    have "d = ?p @ d4" using 4 by simp
    moreover have "no_set ?p" "\<forall>p. no_set p \<longrightarrow> pinned_before st pidfd h p \<longrightarrow> all_guarded cid st rs (p @ d4)" using 4 by auto
    then have "all_guarded cid st rs (?p @ d4)" using pinned_before_start [of st pidfd h d2] by blast
    ultimately show ?case by simp
  qed (auto intro: sets_ok_no_set)
qed


text \<open>The desired rules are computed without a recorded call.\<close>

lemma emits_compute_desired: "emits (compute_desired (traced e) cid info cfg) s (\<lambda>r d. d = [])"
proof -
  have col: "emits (collect_devices (traced e) mounts g c) s (\<lambda>r d. d = [])" for mounts g c
  proof (cases "list_ex is_device_mount mounts")
    case True
    obtain r k1 where k1: "e_devfs e (fst (cm_kern (ps_mem s))) = (r, k1)" by fastforce
    let ?s1 = "s\<lparr>ps_mem := (ps_mem s)\<lparr>cm_kern := (k1, snd (cm_kern (ps_mem s)))\<rparr>\<rparr>"
    have o: "on_kernel (e_devfs (traced e)) s = (map_ok quiet_devfs r, ?s1)" "trace ?s1 = trace s"
      by (simp_all add: traced_def on_kernel_def quiet_def trace_def k1)
    show ?thesis
    proof (cases r)
      case (Inl err)
      then show ?thesis using True o by (auto simp: emits_def collect_devices_def)
    next
      case (Inr dev)
      have "emits (on_kernel (quiet m)) ?s1 (\<lambda>r d. d = [])" for m :: "_ \<Rightarrow> container_rules \<times> _"
        by (rule emits_on_kernel [OF emits_k_quiet])
      then show ?thesis using True o Inr by (auto simp: emits_def collect_devices_def quiet_collect)
    qed
  qed (auto simp: emits_def collect_devices_def)
  have "trace s2 = trace s" if "collect_devices (traced e) mounts g c s = (r, s2)" for mounts g c r s2
    using emitsD [OF col that] by simp
  then show ?thesis by (auto simp: emits_def compute_desired_def split: sum.splits prod.splits)
qed


section \<open>Transactions\<close>

lemma emits_revoke_records: "emits (revoke_records (traced e) rs) s (\<lambda>r d. sets_ok reopened d)"
proof (induction rs arbitrary: s)
  case Nil
  then show ?case by (auto simp: emits_def sets_ok_no_set)
next
  case (Cons r rs)
  show ?case
  proof (cases "has_identity r")
    case False
    then show ?thesis using Cons.IH [of s] by (simp add: emits_def)
  next
    case True
    obtain a s1 d1 where o1: "revoke_at (traced e) r s = (a, s1)" "trace s1 = trace s @ d1" "sets_ok reopened d1"
      using emits_revoke_at [of e r s] revoke_events_reopened by (auto simp: emits_def)
    obtain b s2 d2 where o2: "revoke_records (traced e) rs s1 = (b, s2)" "trace s2 = trace s1 @ d2" "sets_ok reopened d2"
      using Cons.IH [of s1] by (auto simp: emits_def)
    have "sets_ok reopened (d1 @ d2)" by (rule sets_ok_append [OF reopened_extend o1(3) o2(3)])
    then show ?thesis using True o1 o2 by (auto simp: emits_def)
  qed
qed

lemma emits_revoke_after_failure:
  "emits (revoke_after_inspect_failure (traced e) cid dry_run err) s (\<lambda>r d. sets_ok reopened d \<and> (dry_run \<longrightarrow> d = []))"
proof (cases dry_run)
  case False
  let ?s1 = "with_now (traced e) (\<lambda>now. lifecycle_provisional now cid) s"
  obtain a s2 d where "revoke_records (traced e) (lifecycle_records cid (ps_lifecycles ?s1)) ?s1 = (a, s2)"
    "trace s2 = trace ?s1 @ d" "sets_ok reopened d"
    by (rule emitsE [OF emits_revoke_records])
  then show ?thesis using False by (simp add: emits_def revoke_after_inspect_failure_def Let_def)
qed (simp add: emits_def revoke_after_inspect_failure_def Let_def sets_ok_no_set)

lemma emits_revoke_ended: "emits (revoke_ended (traced e) cid started_at) s (\<lambda>r d. sets_ok reopened d)"
proof -
  have nothing: "emits (\<lambda>s. (Inr (), s)) s (\<lambda>r d. sets_ok reopened d)" by (rule emits_pair) (simp add: sets_ok_no_set)
  have "\<exists>a s2 d. revoke_at (traced e) r' (on_history f s) = (a, s2) \<and> trace s2 = trace s @ d \<and> sets_ok reopened d" for r' f
    using emits_revoke_at [of e r' "on_history f s"] revoke_events_reopened by (auto simp: emits_def)
  then show ?thesis using nothing by (auto simp: emits_def revoke_ended_def sets_ok_no_set split: option.splits)
qed

lemma emits_reconcile_running:
  "emits (reconcile_running (traced e) cid info st cfg) s
     (\<lambda>r d. all_guarded cid st (ds_rules (fst (compute_desired (traced e) cid info cfg s))) d \<and> (rt_dry_run cfg \<longrightarrow> d = []))"
proof -
  obtain des s1 where c: "compute_desired (traced e) cid info cfg s = (des, s1)" "trace s1 = trace s"
    using emits_compute_desired [of e cid info cfg s] by (auto simp: emits_def)
  obtain a s2 d where "apply_pinned (traced e) cid st (ci_privileged info = Some True) (ds_rules des) s1 = (a, s2)"
    "trace s2 = trace s1 @ d" "all_guarded cid st (ds_rules des) d"
    by (rule emitsE [OF emits_apply_pinned])
  then show ?thesis using c
    by (auto simp: emits_def reconcile_running_def Let_def sets_ok_no_set split: sum.splits)
qed

end
