(* ===== verification/Rules_Correct.thy ===== *)
theory Rules_Correct
  imports Rules
begin

text \<open>
  What the collected rules grant. Every candidate is judged under its three names; the
  aggregation is proved to refine a specification on the list of all candidates; a granted device
  is authorized under its canonical and its resolved name, and no name it was found by is denied.
\<close>

section \<open>Judged candidates\<close>

abbreviation j_denied :: "'p judge \<Rightarrow> string \<Rightarrow> bool" where
  "j_denied j \<equiv> denied (j_crate j) (j_global j) (j_container j)"

abbreviation j_authorized :: "'p judge \<Rightarrow> string \<Rightarrow> bool" where
  "j_authorized j \<equiv> authorized (j_crate j) (j_global j) (j_container j)"

text \<open>A path strictly below \<open>/dev\<close>, without an empty, \<open>.\<close> or \<open>..\<close> element.\<close>

definition below_dev :: "string \<Rightarrow> bool" where
  "below_dev p \<longleftrightarrow> (\<exists>es. es \<noteq> [] \<and> p = ''/dev/'' @ join_with ''/'' es \<and> (\<forall>e \<in> set es. plain_element e))"

text \<open>What a \<open>DEVNAME\<close> that passes the check gives; the name \<open>.\<close> is one.\<close>

definition dev_name :: "string \<Rightarrow> bool" where
  "dev_name p \<longleftrightarrow> below_dev p \<or> p = ''/dev/.''"

definition judged :: "'p judge \<Rightarrow> candidate \<Rightarrow> bool" where
  "judged j c \<longleftrightarrow> under_dev (cand_alias c)
     \<and> (denied_by (cand_decision c) = None \<longrightarrow>
          \<not> j_denied j (cand_alias c) \<and> \<not> j_denied j (cand_resolved c)
          \<and> (cand_canonical c \<noteq> [] \<longrightarrow> \<not> j_denied j (cand_canonical c)))
     \<and> (is_authorized (cand_decision c) \<longrightarrow>
          denied_by (cand_decision c) = None \<and> dev_name (cand_canonical c)
          \<and> j_authorized j (cand_canonical c) \<and> j_authorized j (cand_resolved c))"

lemma evaluate_identity_None:
  "denied_by (evaluate_identity j a r c) = None \<longleftrightarrow> \<not> j_denied j a \<and> \<not> j_denied j r \<and> \<not> j_denied j c"
  by (simp add: evaluate_identity_def Let_def)

lemma evaluate_identity_authorized:
  "is_authorized (evaluate_identity j a r c) \<longleftrightarrow>
     denied_by (evaluate_identity j a r c) = None \<and> j_authorized j c \<and> j_authorized j r"
  by (auto simp: evaluate_identity_def Let_def)

text \<open>A relative clean name that does not climb has plain elements only.\<close>

lemma devname_elements:
  assumes "devname_ok name"
  shows "dev_name (DEV_ROOT @ ''/'' @ name)"
proof (cases rule: clean_cases [of name])
  case 1
  with assms show ?thesis by (auto simp: devname_ok_def dev_name_def DEV_ROOT_def)
next
  case (2 st)
  have root: "\<not> rooted_path name" and name: "lex_clean name = name" "name \<noteq> []" "name \<noteq> ''..''" "\<not> starts_with name ''../''"
    using assms by (auto simp: devname_ok_def rooted_path_def starts_with_append neq_Nil_conv)
  obtain xs k where st: "st = xs @ replicate k ''..''" "\<forall>x \<in> set xs. plain_element x"
    using 2(1) unfolding clean_stack_def by blast
  have render: "name = join_with ''/'' (rev st)" using 2(2) root name(1) by (simp add: render_def)
  have "k = 0"
  proof (rule ccontr)
    assume "k \<noteq> 0"
    then obtain k' where k: "rev st = ''..'' # replicate k' ''..'' @ rev xs"
      using st(1) by (cases k) (auto simp: replicate_append_same)
    with render name(3,4) show False
      by (cases "replicate k' ''..'' @ rev xs") (auto simp: starts_with_append)
  qed
  then have "rev st \<noteq> []" "\<forall>e \<in> set (rev st). plain_element e" using st render name(2) by auto
  with render show ?thesis by (auto simp: dev_name_def below_dev_def DEV_ROOT_def)
qed


lemma parse_uevent_name:
  assumes "parse_uevent data = Inr p"
  shows "dev_name p"
proof -
  obtain ls where "(case devnames ls of
      [name] \<Rightarrow> if devname_ok name then Inr (DEV_ROOT @ ''/'' @ name) else Inl (BadDevname (DevnameInvalid name))
    | names \<Rightarrow> Inl (BadDevname (DevnameCount (length names)))) = Inr p"
    using assms by (auto simp: parse_uevent_def result_simps)
  moreover from this obtain name where "devnames ls = [name]"
    by (cases "devnames ls"; cases "tl (devnames ls)") auto
  ultimately show ?thesis using devname_elements [of name] by (auto split: if_splits)
qed

lemma canonical_name_below: "canonical_name dev i d = (Inr p, d') \<Longrightarrow> dev_name p"
  by (auto simp: canonical_name_def result_simps liftS_def dest: parse_uevent_name)

lemma judge_device_judged:
  assumes "under_dev (cand_alias c)" and "cand_canonical c = []" and "case named of Inr p \<Rightarrow> dev_name p | Inl _ \<Rightarrow> True"
  shows "judged j (ev_candidate (judge_device j c i named))"
  using assms unfolding judged_def judge_device_def
  by (cases named) (simp_all add: Let_def evaluate_identity_None evaluate_identity_authorized)

lemma evaluate_candidate_judged:
  assumes "evaluate_candidate dev j alias d = (found, d')"
    and "ev_err found = None" and "ev_skip found = None" and "cand_kind (ev_candidate found) = NodeDevice i"
  shows "judged j (ev_candidate found)"
proof -
  have under: "under_dev alias" using assms(1,3) by (auto simp: evaluate_candidate_def split: if_splits)
  obtain n d1 where node: "evaluate_node dev j alias n d1 = (found, d')"
    using assms(1-3) under by (auto simp: evaluate_candidate_def split: prod.splits sum.splits opened.splits)
  obtain nk d2 where stat: "dev_stat dev n d1 = (Inr nk, d2)"
    using node assms(2) by (auto simp: evaluate_node_def split: prod.splits sum.splits)
  obtain path d3 where path: "dev_resolved dev n d2 = (path, d3)" by (cases "dev_resolved dev n d2")
  have nk: "nk = NodeDevice i"
    using node stat path assms(4)
    by (auto simp: evaluate_node_def judge_device_def Let_def split: node_kind.splits prod.splits sum.splits)
  obtain named d4 where named: "canonical_name dev i d3 = (named, d4)" by (cases "canonical_name dev i d3")
  have "found = judge_device j ((candidate_new alias)\<lparr>cand_kind := nk, cand_resolved := (if path = [] then alias else path)\<rparr>) i named"
    using node stat path nk named by (simp add: evaluate_node_def Let_def)
  moreover have "case named of Inr p \<Rightarrow> dev_name p | Inl _ \<Rightarrow> True"
    using canonical_name_below named by (auto split: sum.splits)
  ultimately show ?thesis using under by (simp add: judge_device_judged candidate_new_def)
qed

section \<open>The candidates of a mount\<close>

definition good_candidates :: "'p judge \<Rightarrow> candidate list \<Rightarrow> bool" where
  "good_candidates j cs \<longleftrightarrow> (\<forall>c \<in> set cs. judged j c \<and> (\<exists>i. cand_kind c = NodeDevice i))"

lemma run_visits_invariant:
  assumes "\<And>v s. P s \<Longrightarrow> P (snd (f v s))" and "P s"
  shows "P (snd (run_visits f vs s))"
  using assms(2)
proof (induction vs arbitrary: s)
  case (Cons v vs)
  obtain c s1 where "f v s = (c, s1)" by (cases "f v s")
  with Cons assms(1) [of s v] show ?case by (cases c) auto
qed simp

lemma good_simps [simp]:
  "mr_candidates (push_err e r) = mr_candidates r" "mr_candidates (add_skip why r) = mr_candidates r"
  "mr_candidates (push_candidate c r) = mr_candidates r @ [c]" "mr_candidates mount_result_default = []"
  by (simp_all add: push_err_def add_skip_def push_candidate_def mount_result_default_def)

lemma good_candidates_simps [simp]:
  "good_candidates j []" "good_candidates j (cs @ ds) \<longleftrightarrow> good_candidates j cs \<and> good_candidates j ds"
  "good_candidates j [c] \<longleftrightarrow> judged j c \<and> (\<exists>i. cand_kind c = NodeDevice i)"
  by (auto simp: good_candidates_def)

lemma visit_found_good:
  assumes "evaluate_candidate dev j alias d = (found, d')" and "good_candidates j (mr_candidates (ws_result s))"
  shows "good_candidates j (mr_candidates (ws_result (visit_found found s)))"
  using assms(2) evaluate_candidate_judged [OF assms(1)]
  by (simp add: visit_found_def on_result_def split: option.splits node_kind.splits)

lemma visit_entry_good:
  assumes "good_candidates j (mr_candidates (ws_result (fst sd)))"
  shows "good_candidates j (mr_candidates (ws_result (fst (snd (visit_entry dev j source base v sd)))))"
  using assms
  by (auto simp: visit_entry_def Let_def on_result_def split: prod.splits option.splits elim!: visit_found_good)

lemma walk_mount_good:
  assumes "good_candidates j (mr_candidates r)"
  shows "good_candidates j (mr_candidates (fst (walk_mount dev j source dir r d)))"
proof -
  obtain vs d1 where w: "dev_walk dev (lex_join [dev_root dev, rel_to_dev dir]) d = (vs, d1)" by fastforce
  let ?s = "\<lparr>ws_result = r, ws_policy_excluded = 0, ws_children_seen = [], ws_entries = 0\<rparr>"
  have "good_candidates j (mr_candidates (ws_result (fst (snd
      (run_visits (visit_entry dev j source (lex_join [dev_root dev, rel_to_dev dir])) vs (?s, d1))))))"
    by (rule run_visits_invariant) (use visit_entry_good assms in auto)
  then show ?thesis by (simp add: walk_mount_def Let_def w split_beta)
qed

lemma collect_mount_good:
  assumes "collect_mount_rules dev j path d = (mr, d')"
  shows "good_candidates j (mr_candidates mr)"
proof -
  obtain found d1 where e: "evaluate_candidate dev j path d = (found, d1)" by fastforce
  have walk: "good_candidates j (mr_candidates r)"
    if "walk_mount dev j path dir mount_result_default d1 = (r, d')" for dir r
    using walk_mount_good [of j mount_result_default dev path dir d1] that by simp
  show ?thesis
    using assms unfolding collect_mount_rules_def e
    by (auto split: option.splits node_kind.splits if_splits dest: walk evaluate_candidate_judged [OF e])
qed


section \<open>The aggregation\<close>

text \<open>The specification: the devices in the order they first occur, and when one is granted.\<close>

definition candidates_of :: "device_id \<Rightarrow> candidate list \<Rightarrow> candidate list" where
  "candidates_of i cs = filter (\<lambda>c. cand_kind c = NodeDevice i) cs"

fun first_devices :: "device_id list \<Rightarrow> candidate list \<Rightarrow> device_id list" where
  "first_devices seen [] = []"
| "first_devices seen (c # cs) =
     (case cand_kind c of
        NodeDevice i \<Rightarrow> if i \<in> set seen then first_devices seen cs else i # first_devices (i # seen) cs
      | _ \<Rightarrow> first_devices seen cs)"

definition grantable :: "candidate list \<Rightarrow> device_id \<Rightarrow> bool" where
  "grantable cs i \<longleftrightarrow> (\<exists>c \<in> set (candidates_of i cs). is_authorized (cand_decision c))
     \<and> (\<forall>c \<in> set (candidates_of i cs). denied_by (cand_decision c) = None)"

text \<open>The table holds exactly the votes of the candidates that were added.\<close>

definition votes_of :: "candidate list \<Rightarrow> device_id \<Rightarrow> device_votes \<Rightarrow> bool" where
  "votes_of cs i v \<longleftrightarrow> v_candidates v = length (candidates_of i cs)
     \<and> (v_authorized v \<longleftrightarrow> (\<exists>c \<in> set (candidates_of i cs). is_authorized (cand_decision c)))
     \<and> (v_denied_by v = None \<longleftrightarrow> (\<forall>c \<in> set (candidates_of i cs). denied_by (cand_decision c) = None))"

definition tallied :: "candidate list \<Rightarrow> aggregation \<Rightarrow> bool" where
  "tallied cs ag \<longleftrightarrow> ag_order ag = first_devices [] cs
     \<and> (\<forall>i. ag_votes ag i = None \<longleftrightarrow> candidates_of i cs = [])
     \<and> (\<forall>i v. ag_votes ag i = Some v \<longrightarrow> votes_of cs i v)"

lemma first_devices_set: "set (first_devices seen cs) = {i. candidates_of i cs \<noteq> []} - set seen"
  by (induction seen cs rule: first_devices.induct) (auto simp: candidates_of_def split: node_kind.splits)

lemma first_devices_snoc:
  "first_devices seen (cs @ [c]) = first_devices seen cs
    @ (case cand_kind c of NodeDevice i \<Rightarrow> if i \<in> set seen \<or> candidates_of i cs \<noteq> [] then [] else [i] | _ \<Rightarrow> [])"
  by (induction seen cs rule: first_devices.induct) (auto simp: candidates_of_def split: node_kind.splits)

lemma tallied_add:
  assumes "tallied cs ag"
  shows "tallied (cs @ [c]) (aggregation_add c ag)"
proof (cases "cand_kind c")
  case (NodeDevice i)
  have other: "candidates_of k (cs @ [c]) = candidates_of k cs" if "k \<noteq> i" for k
    using that NodeDevice by (simp add: candidates_of_def)
  have this_dev: "candidates_of i (cs @ [c]) = candidates_of i cs @ [c]" using NodeDevice by (simp add: candidates_of_def)
  have others: "votes_of (cs @ [c]) k v = votes_of cs k v" if "k \<noteq> i" for k v
    using other [OF that] by (simp add: votes_of_def)
  have order: "ag_order ag = first_devices [] cs" and none: "\<And>k. ag_votes ag k = None \<longleftrightarrow> candidates_of k cs = []"
    and votes: "\<And>k v. ag_votes ag k = Some v \<Longrightarrow> votes_of cs k v" using assms by (auto simp: tallied_def)
  define v0 where "v0 = (case ag_votes ag i of None \<Rightarrow> \<lparr>v_candidates = 0, v_authorized = False, v_denied_by = None\<rparr> | Some v \<Rightarrow> v)"
  have add: "ag_votes (aggregation_add c ag) = (ag_votes ag)(i \<mapsto> vote (cand_decision c) v0)"
    and add_order: "ag_order (aggregation_add c ag) = ag_order ag @ (if candidates_of i cs = [] then [i] else [])"
    using NodeDevice none [of i] by (auto simp: aggregation_add_def v0_def Let_def split: option.splits)
  have "votes_of cs i v0" using votes [of i] none [of i] by (cases "ag_votes ag i") (simp_all add: v0_def votes_of_def)
  then have "votes_of (cs @ [c]) i (vote (cand_decision c) v0)" by (auto simp: votes_of_def vote_def this_dev)
  then show ?thesis
    unfolding tallied_def add add_order using none votes order other others this_dev
    by (auto simp: first_devices_snoc NodeDevice)
next
  case NodeDir
  then show ?thesis using assms by (auto simp: tallied_def aggregation_add_def first_devices_snoc candidates_of_def votes_of_def)
next
  case NodeOther
  then show ?thesis using assms by (auto simp: tallied_def aggregation_add_def first_devices_snoc candidates_of_def votes_of_def)
qed

lemma tallied_fold: "tallied cs ag \<Longrightarrow> tallied (cs @ ds) (fold aggregation_add ds ag)"
proof (induction ds arbitrary: cs ag)
  case (Cons c ds)
  from Cons.IH [OF tallied_add [OF Cons.prems]] show ?case by simp
qed simp

lemma tallied_default: "tallied [] aggregation_default"
  by (simp add: tallied_def aggregation_default_def candidates_of_def)

lemma emit_fold:
  assumes "\<forall>i \<in> set ids. \<exists>v. ag_votes ag i = Some v \<and> votes_of cs i v"
  shows "foldl (emit_step ag) (rs, n) ids =
    (rs @ map device_rule_of (filter (grantable cs) ids), n + sum_list (map (\<lambda>i. length (candidates_of i cs)) (filter (\<lambda>i. \<not> grantable cs i) ids)))"
  using assms
proof (induction ids arbitrary: rs n)
  case (Cons i ids)
  then obtain v where v: "ag_votes ag i = Some v" "votes_of cs i v" by auto
  then have "v_denied_by v = None \<and> v_authorized v \<longleftrightarrow> grantable cs i" "v_candidates v = length (candidates_of i cs)"
    by (auto simp: votes_of_def grantable_def)
  with v Cons show ?case by (cases "grantable cs i") (simp_all add: emit_step_def)
qed simp

lemma emit_tallied:
  assumes "tallied cs ag"
  shows "aggregation_emit ag =
    (map device_rule_of (filter (grantable cs) (first_devices [] cs)),
     sum_list (map (\<lambda>i. length (candidates_of i cs)) (filter (\<lambda>i. \<not> grantable cs i) (first_devices [] cs))))"
proof -
  have "\<forall>i \<in> set (first_devices [] cs). \<exists>v. ag_votes ag i = Some v \<and> votes_of cs i v"
    using assms unfolding tallied_def first_devices_set by auto
  from emit_fold [OF this, of "[]" 0] assms show ?thesis by (simp add: aggregation_emit_def tallied_def)
qed

text \<open>The candidates of all mounts, in order.\<close>

fun mounts_candidates :: "('d, 'n) devfs \<Rightarrow> 'p judge \<Rightarrow> mount_point list \<Rightarrow> 'd \<Rightarrow> candidate list" where
  "mounts_candidates dev j [] d = []"
| "mounts_candidates dev j (mp # mps) d =
     (case collect_mount_rules dev j (mp_source mp) d of (mr, d1) \<Rightarrow>
        mr_candidates mr @ mounts_candidates dev j mps d1)"

definition container_candidates :: "('d, 'n) devfs \<Rightarrow> 'p judge \<Rightarrow> mount_point list \<Rightarrow> 'd \<Rightarrow> candidate list" where
  "container_candidates dev j mounts d = mounts_candidates dev j (filter is_device_mount mounts) d"

lemma mounts_candidates_good: "good_candidates j (mounts_candidates dev j mps d)"
  by (induction dev j mps d rule: mounts_candidates.induct) (auto split: prod.splits dest: collect_mount_good)

lemma collect_mounts_candidates:
  "collect_mounts dev j mps (res, ag) d = ((res', ag'), d') \<Longrightarrow>
    ag' = fold aggregation_add (mounts_candidates dev j mps d) ag"
  by (induction mps arbitrary: res ag d) (auto split: prod.splits)

lemma collect_granted:
  assumes "collect_container_rules dev j mounts d = (res, d')"
  shows "cr_granted res = map device_rule_of
    (filter (grantable (container_candidates dev j mounts d)) (first_devices [] (container_candidates dev j mounts d)))"
proof -
  obtain res1 ag d1 where c: "collect_mounts dev j (filter is_device_mount mounts) (container_rules_default, aggregation_default) d = ((res1, ag), d1)"
    by (metis surj_pair)
  then have "tallied (container_candidates dev j mounts d) ag"
    using tallied_fold [OF tallied_default] collect_mounts_candidates by (fastforce simp: container_candidates_def)
  from emit_tallied [OF this] assms c show ?thesis by (auto simp: collect_container_rules_def)
qed


section \<open>A walk without errors saw every name\<close>

definition found_total :: "mount_result \<Rightarrow> nat" where
  "found_total r = length (mr_candidates r) + mr_skipped r"

text \<open>The names below the mount that a walk enumerates, and those that are not directories.\<close>

definition walked_names :: "string \<Rightarrow> visit list \<Rightarrow> visit list" where
  "walked_names base vs = filter (\<lambda>(walked, _, _). walked \<noteq> base) vs"

definition walked_files :: "string \<Rightarrow> visit list \<Rightarrow> visit list" where
  "walked_files base vs = filter (\<lambda>(_, is_dir, _). \<not> is_dir) (walked_names base vs)"

lemma found_total_simps [simp]:
  "found_total (push_err e r) = found_total r" "found_total (add_skip why r) = Suc (found_total r)"
  "found_total (push_candidate c r) = Suc (found_total r)" "found_total mount_result_default = 0"
  by (simp_all add: found_total_def push_err_def add_skip_def push_candidate_def mount_result_default_def)

lemma mr_errs_simps [simp]:
  "mr_errs (push_err e r) = mr_errs r @ [e]" "mr_errs (add_skip why r) = mr_errs r"
  "mr_errs (push_candidate c r) = mr_errs r" "mr_errs mount_result_default = []"
  by (simp_all add: push_err_def add_skip_def push_candidate_def mount_result_default_def)

lemma visit_found_total:
  "mr_errs (ws_result (visit_found found s)) = [] \<Longrightarrow>
    mr_errs (ws_result s) = [] \<and> found_total (ws_result (visit_found found s)) = Suc (found_total (ws_result s))"
  "ws_entries (visit_found found s) = ws_entries s"
  "mr_errs (ws_result s) \<noteq> [] \<Longrightarrow> mr_errs (ws_result (visit_found found s)) \<noteq> []"
  by (auto simp: visit_found_def on_result_def split: option.splits node_kind.splits)

lemma visit_entry_total:
  assumes "visit_entry dev j source base v (s, d) = (c, s', d')" and "mr_errs (ws_result s') = []"
  shows "mr_errs (ws_result s) = []" and "c = Continue" and "snd (snd v) = None"
    and "ws_entries s' = ws_entries s + length (walked_names base [v])"
    and "found_total (ws_result s') = found_total (ws_result s) + length (walked_files base [v])"
    and "ws_entries s \<le> MAX_MOUNT_ENTRIES \<Longrightarrow> ws_entries s' \<le> MAX_MOUNT_ENTRIES"
proof -
  obtain walked is_dir err where v: "v = (walked, is_dir, err)" by (cases v)
  define name where "name = source @ (case strip_prefix base walked of None \<Rightarrow> walked | Some r \<Rightarrow> r)"
  define s1 where "s1 = s\<lparr>ws_entries := ws_entries s + 1\<rparr>"
  define s2 where "s2 = (if length (ws_children_seen s1) < MAX_LOG_CHILDREN
    then s1\<lparr>ws_children_seen := ws_children_seen s1 @ [lex_base walked]\<rparr> else s1)"
  have fields: "ws_result s2 = ws_result s" "ws_entries s2 = ws_entries s + 1" "ws_entries s1 = ws_entries s + 1"
    "ws_result s1 = ws_result s" by (simp_all add: s1_def s2_def)
  note vdef = visit_entry_def [of dev j source base v "(s, d)", unfolded v prod.case Let_def,
      folded name_def, folded s1_def, folded s2_def]
  have err: "err = None" using assms unfolding v vdef by (cases err) (auto simp: on_result_def)
  note run = assms(1) [unfolded v vdef, unfolded err option.case]
  have "mr_errs (ws_result s) = [] \<and> c = Continue \<and> ws_entries s' = ws_entries s + length (walked_names base [v])
    \<and> found_total (ws_result s') = found_total (ws_result s) + length (walked_files base [v])
    \<and> (ws_entries s \<le> MAX_MOUNT_ENTRIES \<longrightarrow> ws_entries s' \<le> MAX_MOUNT_ENTRIES)"
  proof (cases "walked = base")
    case True
    with run assms(2) show ?thesis by (simp add: v walked_names_def walked_files_def)
  next
    case False
    then have small: "\<not> ws_entries s1 > MAX_MOUNT_ENTRIES" using run assms(2) by (auto simp: on_result_def)
    show ?thesis
    proof (cases is_dir)
      case True
      with run False small have "c = Continue" "s' = s1" by simp_all
      with assms(2) True False small show ?thesis by (simp add: v fields walked_names_def walked_files_def)
    next
      case plain: False
      obtain found d1 where f: "evaluate_candidate dev j name d = (found, d1)" by fastforce
      with run False small plain have "c = Continue" "s' = visit_found found s2" by simp_all
      with visit_found_total(1,2) [of found s2] assms(2) False small plain show ?thesis
        by (simp add: v fields walked_names_def walked_files_def)
    qed
  qed
  then show "mr_errs (ws_result s) = []" and "c = Continue"
    and "ws_entries s' = ws_entries s + length (walked_names base [v])"
    and "found_total (ws_result s') = found_total (ws_result s) + length (walked_files base [v])"
    and "ws_entries s \<le> MAX_MOUNT_ENTRIES \<Longrightarrow> ws_entries s' \<le> MAX_MOUNT_ENTRIES" by blast+
  show "snd (snd v) = None" by (simp add: v err)
qed

lemma errs_grow:
  assumes "mr_errs (ws_result s) \<noteq> []"
  shows "mr_errs (ws_result (fst (snd (run_visits (visit_entry dev j source base) vs (s, d))))) \<noteq> []"
proof -
  have step: "mr_errs (ws_result (fst (snd (visit_entry dev j source base v sd)))) \<noteq> []"
    if "mr_errs (ws_result (fst sd)) \<noteq> []" for v sd
    using visit_entry_total(1) that by (metis surj_pair fst_conv snd_conv)
  show ?thesis by (rule run_visits_invariant) (use step assms in auto)
qed

lemma walk_total:
  "run_visits (visit_entry dev j source base) vs (s, d) = (c, s', d') \<Longrightarrow> mr_errs (ws_result s') = [] \<Longrightarrow>
    ws_entries s \<le> MAX_MOUNT_ENTRIES \<Longrightarrow>
    (\<forall>v \<in> set vs. snd (snd v) = None) \<and> ws_entries s + length (walked_names base vs) \<le> MAX_MOUNT_ENTRIES
    \<and> found_total (ws_result s') = found_total (ws_result s) + length (walked_files base vs)"
proof (induction vs arbitrary: s d)
  case (Cons v vs)
  obtain c1 s1 d1 where v: "visit_entry dev j source base v (s, d) = (c1, s1, d1)" by (metis surj_pair)
  have e1: "mr_errs (ws_result s1) = []"
  proof (cases c1)
    case Continue
    with Cons.prems(1,2) v errs_grow [of s1 dev j source base vs d1] show ?thesis by auto
  qed (use Cons.prems v in simp)
  note t = visit_entry_total [OF v e1]
  have app: "length (walked_names base (v # vs)) = length (walked_names base [v]) + length (walked_names base vs)"
    "length (walked_files base (v # vs)) = length (walked_files base [v]) + length (walked_files base vs)"
    by (simp_all add: walked_names_def walked_files_def)
  from Cons.IH [of s1 d1] Cons.prems v t app show ?case by simp
qed (simp add: walked_names_def walked_files_def)


lemma granted_judged:
  assumes "collect_container_rules dev j mounts d = (res, d')" and "r \<in> set (cr_granted res)"
  shows "\<exists>i. r = device_rule_of i
    \<and> (\<exists>c \<in> set (container_candidates dev j mounts d). cand_kind c = NodeDevice i \<and> dev_name (cand_canonical c)
         \<and> j_authorized j (cand_canonical c) \<and> j_authorized j (cand_resolved c))
    \<and> (\<forall>c \<in> set (container_candidates dev j mounts d). cand_kind c = NodeDevice i \<longrightarrow>
         \<not> j_denied j (cand_alias c) \<and> \<not> j_denied j (cand_resolved c)
         \<and> (cand_canonical c \<noteq> [] \<longrightarrow> \<not> j_denied j (cand_canonical c)))"
proof -
  let ?cs = "container_candidates dev j mounts d"
  have good: "\<forall>c \<in> set ?cs. judged j c"
    using mounts_candidates_good [of j dev "filter is_device_mount mounts" d]
    by (simp add: container_candidates_def good_candidates_def)
  obtain i where i: "r = device_rule_of i" "grantable ?cs i"
    using collect_granted [OF assms(1)] assms(2) by auto
  obtain c where c: "c \<in> set ?cs" "cand_kind c = NodeDevice i" "is_authorized (cand_decision c)"
    using i(2) by (auto simp: grantable_def candidates_of_def)
  have "\<forall>c \<in> set ?cs. cand_kind c = NodeDevice i \<longrightarrow> denied_by (cand_decision c) = None"
    using i(2) by (auto simp: grantable_def candidates_of_def)
  with good have all: "\<forall>c \<in> set ?cs. cand_kind c = NodeDevice i \<longrightarrow>
      \<not> j_denied j (cand_alias c) \<and> \<not> j_denied j (cand_resolved c)
      \<and> (cand_canonical c \<noteq> [] \<longrightarrow> \<not> j_denied j (cand_canonical c))"
    unfolding judged_def by blast
  from good c have "dev_name (cand_canonical c) \<and> j_authorized j (cand_canonical c) \<and> j_authorized j (cand_resolved c)"
    unfolding judged_def by blast
  with i(1) c(1,2) all show ?thesis by blast
qed

section \<open>Properties\<close>

text \<open>
  C33. A rule that a container is granted names a device that some candidate found authorized: its
  canonical name is a name below \<open>/dev\<close>, and its canonical and its resolved name pass the allow
  lists. No candidate of that device, on any mount, is denied under its alias, its resolved name
  or its canonical name.
\<close>

theorem granted_devices_judged:
  assumes "collect_container_rules dev j mounts d = (res, d')" and "r \<in> set (cr_granted res)"
  shows "\<exists>i. r = device_rule_of i
    \<and> (\<exists>c \<in> set (container_candidates dev j mounts d). cand_kind c = NodeDevice i \<and> dev_name (cand_canonical c)
         \<and> j_authorized j (cand_canonical c) \<and> j_authorized j (cand_resolved c))
    \<and> (\<forall>c \<in> set (container_candidates dev j mounts d). cand_kind c = NodeDevice i \<longrightarrow>
         \<not> j_denied j (cand_alias c) \<and> \<not> j_denied j (cand_resolved c)
         \<and> (cand_canonical c \<noteq> [] \<longrightarrow> \<not> j_denied j (cand_canonical c)))"
  by (rule granted_judged [OF assms])

text \<open>
  C9. The table of votes refines its specification: the rules of a container are those of the
  devices with an authorized candidate and no denied one, once each, in the order the devices were
  first found over all its mounts.
\<close>

theorem collect_refines:
  assumes "collect_container_rules dev j mounts d = (res, d')"
    and "cs = container_candidates dev j mounts d"
  shows "cr_granted res = map device_rule_of (filter (grantable cs) (first_devices [] cs))"
  unfolding assms(2) by (rule collect_granted [OF assms(1)])

text \<open>
  C34. A walk of a directory mount that ends without an error has judged or counted every name:
  the walk reported none of its visits as failed, there were at most 4096 names, and each of them
  that is no directory is a candidate or is counted as skipped.
\<close>

theorem walk_complete:
  assumes "dev_walk dev (lex_join [dev_root dev, rel_to_dev dir]) d = (vs, d1)"
    and "walk_mount dev j source dir mount_result_default d = (mr, d')" and "mr_errs mr = []"
  shows "(\<forall>v \<in> set vs. snd (snd v) = None)
    \<and> length (walked_names (lex_join [dev_root dev, rel_to_dev dir]) vs) \<le> 4096
    \<and> length (mr_candidates mr) + mr_skipped mr = length (walked_files (lex_join [dev_root dev, rel_to_dev dir]) vs)"
proof -
  let ?base = "lex_join [dev_root dev, rel_to_dev dir]"
  let ?s = "\<lparr>ws_result = mount_result_default, ws_policy_excluded = 0, ws_children_seen = [], ws_entries = 0\<rparr>"
  obtain c s' where r: "run_visits (visit_entry dev j source ?base) vs (?s, d1) = (c, s', d')" and mr: "mr = ws_result s'"
    using assms(1,2) by (auto simp: walk_mount_def Let_def split: prod.splits)
  from walk_total [OF r] assms(3) mr show ?thesis by (simp add: MAX_MOUNT_ENTRIES_def found_total_def mount_result_default_def)
qed

end
