(* ===== verification/Reconcile_Correct.thy ===== *)
theory Reconcile_Correct
  imports Reconcile_Trace Rules_Correct
begin

text \<open>
  Correctness of the processor. The record of a transaction is faithful: without it the
  transaction is the same. From the records: every mutation is guarded, grants are what the
  policy authorizes, and dry-run mutates nothing.
\<close>

section \<open>Recording changes nothing\<close>

definition erase :: "('k \<times> 'f event list) proc_state \<Rightarrow> 'k proc_state" where
  "erase s = \<lparr>ps_mem = with_kern (fst (cm_kern (ps_mem s))) (ps_mem s), ps_lifecycles = ps_lifecycles s,
     ps_store = ps_store s, ps_requested = ps_requested s\<rparr>"

definition erases_k :: "('k \<times> 'f event list \<Rightarrow> 'a \<times> 'k \<times> 'f event list) \<Rightarrow> ('k \<Rightarrow> 'a \<times> 'k) \<Rightarrow> bool" where
  "erases_k m m' \<longleftrightarrow> (\<forall>k t r k' t'. m (k, t) = (r, k', t') \<longrightarrow> m' k = (r, k'))"

definition erases ::
  "(('k \<times> 'f event list) proc_state \<Rightarrow> 'a \<times> ('k \<times> 'f event list) proc_state)
    \<Rightarrow> ('k proc_state \<Rightarrow> 'a \<times> 'k proc_state) \<Rightarrow> bool" where
  "erases m m' \<longleftrightarrow> (\<forall>s r s'. m s = (r, s') \<longrightarrow> m' (erase s) = (r, erase s'))"

lemma erases_kD: "erases_k m m' \<Longrightarrow> m (k, t) = (r, k', t') \<Longrightarrow> m' k = (r, k')"
  unfolding erases_k_def by blast

lemma erasesD: "erases m m' \<Longrightarrow> m s = (r, s') \<Longrightarrow> m' (erase s) = (r, erase s')"
  unfolding erases_def by blast

named_theorems erasing \<open>a call on the recording environment, erased\<close>

lemma erases_k_logged [erasing]: "erases_k (logged ev m) m"
  by (simp add: erases_k_def logged_def split: prod.splits)

lemma erases_k_quiet [erasing]: "erases_k (quiet m) m"
  by (simp add: erases_k_def quiet_def split: prod.splits)

lemma erases_k_ret [erasing]: "erases_k (retS x) (retS x)" "erases_k (liftS r) (liftS r)"
  by (simp_all add: erases_k_def)

lemma erases_k_bindS [erasing]:
  assumes "erases_k m m'" and "\<And>x. erases_k (f x) (f' x)"
  shows "erases_k (bindS m f) (bindS m' f')"
  unfolding erases_k_def
proof (intro allI impI)
  fix k t r k' t'
  assume b: "bindS m f (k, t) = (r, k', t')"
  obtain a k1 t1 where m: "m (k, t) = (a, k1, t1)" by (cases "m (k, t)")
  then have "m' k = (a, k1)" by (rule erases_kD [OF assms(1)])
  then show "bindS m' f' k = (r, k')" using b m erases_kD [OF assms(2)] by (cases a) (auto simp: bindS_def)
qed

lemma erases_k_map_errS [erasing]: "erases_k m m' \<Longrightarrow> erases_k (map_errS g m) (map_errS g m')"
  by (fastforce simp: erases_k_def map_errS_def split: prod.splits)

lemma erases_ret [erasing]: "erases (retS x) (retS x)" "erases (liftS r) (liftS r)" "erases (\<lambda>s. (y, s)) (\<lambda>s. (y, s))"
  by (simp_all add: erases_def)

lemma erases_bindS [erasing]:
  assumes "erases m m'" and "\<And>x. erases (f x) (f' x)"
  shows "erases (bindS m f) (bindS m' f')"
  unfolding erases_def
proof (intro allI impI)
  fix s r s'
  assume b: "bindS m f s = (r, s')"
  obtain a s1 where m: "m s = (a, s1)" by (cases "m s")
  then have "m' (erase s) = (a, erase s1)" by (rule erasesD [OF assms(1)])
  then show "bindS m' f' (erase s) = (r, erase s')" using b m erasesD [OF assms(2)] by (cases a) (auto simp: bindS_def)
qed

lemma erases_map_errS [erasing]: "erases m m' \<Longrightarrow> erases (map_errS g m) (map_errS g m')"
  by (fastforce simp: erases_def map_errS_def split: prod.splits)

lemma erases_on_kernel [erasing]:
  assumes "erases_k m m'"
  shows "erases (on_kernel m) (on_kernel m')"
  unfolding erases_def
proof (intro allI impI)
  fix s r s'
  assume o: "on_kernel m s = (r, s')"
  obtain k t where kt: "cm_kern (ps_mem s) = (k, t)" by (cases "cm_kern (ps_mem s)")
  obtain a k' t' where m: "m (k, t) = (a, k', t')" by (cases "m (k, t)")
  then have "m' k = (a, k')" by (rule erases_kD [OF assms])
  then show "on_kernel m' (erase s) = (r, erase s')" using o m kt by (auto simp: on_kernel_def erase_def with_kern_def)
qed

lemma erases_set [erasing]: "erases (on_mem (e_set_rules (traced e) v h rs)) (on_mem (e_set_rules e v h rs))"
  by (auto simp: erases_def on_mem_def traced_def traced_set_def erase_def with_kern_def split: prod.splits)

lemma erase_simps [simp]:
  "ps_lifecycles (erase s) = ps_lifecycles s" "ps_store (erase s) = ps_store s"
  "erase (on_history f s) = on_history f (erase s)" "erase (forget i s) = forget i (erase s)"
  "erase (s\<lparr>ps_lifecycles := lc\<rparr>) = (erase s)\<lparr>ps_lifecycles := lc\<rparr>"
  by (simp_all add: erase_def on_history_def forget_def with_kern_def)

lemma erase_release [simp]: "erase (release_run r s) = release_run r (erase s)"
  by (simp add: release_run_def Let_def split: option.splits)

lemma traced_simps [simp]:
  "e_time (traced e) = e_time e" "e_glob (traced e) = e_glob e" "e_host_root (traced e) = e_host_root e"
  "e_proc_root (traced e) = e_proc_root e" "e_now (traced e) = quiet (e_now e)"
  "e_inspect (traced e) cid = logged (EvInspect cid) (e_inspect e cid)" "e_sys (traced e) = traced_sys (e_sys e)"
  by (simp_all add: traced_def)

lemma traced_sys_simps [simp]:
  "sys_open_dir (traced_sys sys) p = logged (EvOpenDir p) (sys_open_dir sys p)"
  "sys_fstat_ino (traced_sys sys) fd = logged (EvFstat fd) (sys_fstat_ino sys fd)"
  "sys_stat_ino (traced_sys sys) p = logged (EvStat p) (sys_stat_ino sys p)"
  "sys_openat (traced_sys sys) fd n = logged (EvOpenat fd n) (sys_openat sys fd n)"
  "sys_read (traced_sys sys) fd = logged (EvRead fd) (sys_read sys fd)"
  "sys_pidfd_open (traced_sys sys) pid = logged (EvPidfd pid) (sys_pidfd_open sys pid)"
  "sys_poll (traced_sys sys) fd = logged (EvPoll fd) (sys_poll sys fd)"
  by (simp_all add: traced_sys_def)

lemma erase_with_now [simp]: "erase (with_now (traced e) f s) = with_now e f (erase s)"
proof -
  obtain now s1 where "on_kernel (quiet (e_now e)) s = (now, s1)" by (cases "on_kernel (quiet (e_now e)) s")
  with erasesD [OF erases_on_kernel [OF erases_k_quiet] this] show ?thesis by (simp add: with_now_def)
qed

lemma history_with_now [simp]: "ps_lifecycles (with_now (traced e) f s) = ps_lifecycles (with_now e f (erase s))"
  using erase_simps(1) [of "with_now (traced e) f s"] by simp

lemma erases_handle_open [erasing]: "erases_k (handle_open (traced_sys sys) path) (handle_open sys path)"
  unfolding handle_open_def by (intro erasing) (simp_all add: erasing)

lemma erases_has_process [erasing]: "erases_k (has_process (traced_sys sys) h pid) (has_process sys h pid)"
  unfolding has_process_def by (intro erasing) (simp_all add: erasing)

lemma erases_if [erasing]: "erases m m' \<Longrightarrow> erases n n' \<Longrightarrow> erases (if b then m else n) (if b then m' else n')"
  "erases_k p p' \<Longrightarrow> erases_k q q' \<Longrightarrow> erases_k (if b then p else q) (if b then p' else q')"
  by simp_all

lemma erases_alive [erasing]: "erases_k (alive (traced_sys sys) fd) (alive sys fd)"
  unfolding alive_def by (intro erasing) (simp_all add: erasing)

lemma erases_pin [erasing]: "erases_k (pin (traced_sys sys) pid) (pin sys pid)"
  unfolding pin_def by (intro erasing) (simp_all add: erasing)

lemma erases_read_proc_cgroup [erasing]: "erases_k (read_proc_cgroup (traced_sys sys) root pid) (read_proc_cgroup sys root pid)"
  unfolding read_proc_cgroup_def read_at_def Let_def by (simp add: erasing)

lemma erases_inspect [erasing]: "erases (inspect (traced e) cid) (inspect e cid)"
  unfolding inspect_def by (simp add: erasing)

lemma erases_verify [erasing]: "erases (verify_pinned (traced e) cid st pidfd h grants) (verify_pinned e cid st pidfd h grants)"
  unfolding verify_pinned_def by (intro erasing) (simp_all add: erasing)


lemma erases_open_recorded [erasing]: "erases (open_recorded (traced e) r i) (open_recorded e r i)"
  unfolding erases_def
proof (intro allI impI)
  fix s a s'
  assume o: "open_recorded (traced e) r i s = (a, s')"
  obtain b s1 where h: "on_kernel (handle_open (e_sys (traced e)) (id_path i)) s = (b, s1)" by fastforce
  have "erases (on_kernel (handle_open (e_sys (traced e)) (id_path i))) (on_kernel (handle_open (e_sys e) (id_path i)))"
    by (simp add: erasing)
  from erasesD [OF this h] show "open_recorded e r i (erase s) = (a, erase s')"
    using o h by (auto simp: open_recorded_def split: sum.splits handle_error.splits)
qed

text \<open>A set, whatever is done with its outcome.\<close>

lemma erases_then:
  assumes "erases m m'" and "\<And>x. erases (g x) (g' x)"
  shows "erases (\<lambda>s. case m s of (x, s1) \<Rightarrow> g x s1) (\<lambda>s. case m' s of (x, s1) \<Rightarrow> g' x s1)"
  unfolding erases_def
proof (intro allI impI)
  fix s r s'
  assume b: "(case m s of (x, s1) \<Rightarrow> g x s1) = (r, s')"
  obtain x s1 where m: "m s = (x, s1)" by (cases "m s")
  from erasesD [OF assms(1) m] b m erasesD [OF assms(2) [of x]] 
  show "(case m' (erase s) of (x, s1) \<Rightarrow> g' x s1) = (r, erase s')" by auto
qed

lemma erases_revoke_at [erasing]: "erases (revoke_at (traced e) r) (revoke_at e r)"
proof (cases "lr_cgroup r")
  case (Some cg)
  show ?thesis unfolding revoke_at_def Some option.case
    by (rule erases_bindS [OF erases_open_recorded]) 
      (auto simp: erases_def dest!: erasesD [OF erases_set] split: recorded.splits prod.splits sum.splits)
qed (simp add: revoke_at_def erasing)


lemma erases_revoke_moved [erasing]: "erases (revoke_moved (traced e) r previous) (revoke_moved e r previous)"
  unfolding revoke_moved_def
  by (rule erases_bindS [OF erases_open_recorded])
    (auto simp: erases_def dest!: erasesD [OF erases_set] split: recorded.splits prod.splits sum.splits)

lemma erases_leave_previous [erasing]: "erases (leave_previous (traced e) cid st pidfd h) (leave_previous e cid st pidfd h)"
proof -
  have "erases (bindS (revoke_moved (traced e) r previous) (\<lambda>_. verify_pinned (traced e) cid st pidfd h True))
      (bindS (revoke_moved e r previous) (\<lambda>_. verify_pinned e cid st pidfd h True))" for r previous
    by (intro erasing)
  from erasesD [OF this] show ?thesis by (auto simp: erases_def leave_previous_def split: option.splits)
qed

lemma erases_apply_handle [erasing]:
  "erases (apply_handle (traced e) cid st privileged rs pidfd version h) (apply_handle e cid st privileged rs pidfd version h)"
proof -
  have set: "erases (map_errS SetRules (on_mem (e_set_rules (traced e) version h rs))) (map_errS SetRules (on_mem (e_set_rules e version h rs)))"
    by (intro erasing)
  show ?thesis unfolding apply_handle_def
    by (intro erases_bindS erases_verify erases_leave_previous) (auto simp: erases_def dest!: erasesD [OF set])
qed

lemma erases_apply_pinned [erasing]: "erases (apply_pinned (traced e) cid st privileged rs) (apply_pinned e cid st privileged rs)"
  unfolding apply_pinned_def by (intro erasing) (simp_all add: erasing)

lemma erases_collect_devices [erasing]: "erases (collect_devices (traced e) mounts g c) (collect_devices e mounts g c)"
proof -
  have "collect_devices e mounts g c (erase s) = (r, erase s')" if c: "collect_devices (traced e) mounts g c s = (r, s')" for s r s'
  proof (cases "list_ex is_device_mount mounts")
    case False
    then show ?thesis using c by (simp add: collect_devices_def)
  next
    case True
    obtain a k1 where k1: "e_devfs e (fst (cm_kern (ps_mem s))) = (a, k1)" by fastforce
    let ?s1 = "s\<lparr>ps_mem := (ps_mem s)\<lparr>cm_kern := (k1, snd (cm_kern (ps_mem s)))\<rparr>\<rparr>"
    have o: "on_kernel (e_devfs (traced e)) s = (map_ok quiet_devfs a, ?s1)" "on_kernel (e_devfs e) (erase s) = (a, erase ?s1)"
      by (simp_all add: traced_def on_kernel_def quiet_def k1 erase_def with_kern_def)
    have q: "erases (on_kernel (quiet m)) (on_kernel m)" for m :: "_ \<Rightarrow> container_rules \<times> _" by (intro erasing)
    from True c o show ?thesis
      by (cases a) (auto simp: collect_devices_def quiet_collect dest!: erasesD [OF q])
  qed
  then show ?thesis by (simp add: erases_def)
qed

lemma erases_compute_desired [erasing]: "erases (compute_desired (traced e) cid info cfg) (compute_desired e cid info cfg)"
  by (auto simp: erases_def compute_desired_def dest!: erasesD [OF erases_collect_devices] split: sum.splits prod.splits)

lemma erases_revoke_records [erasing]: "erases (revoke_records (traced e) rs) (revoke_records e rs)"
proof (induction rs)
  case (Cons r rs)
  show ?case
  proof (cases "has_identity r")
    case True
    then show ?thesis
      by (auto simp: erases_def dest!: erasesD [OF erases_revoke_at] erasesD [OF Cons] split: prod.splits)
  qed (use Cons in \<open>simp add: erases_def\<close>)
qed (simp add: erases_def)

lemma erases_revoke_after_failure [erasing]:
  "erases (revoke_after_inspect_failure (traced e) cid dry_run err) (revoke_after_inspect_failure e cid dry_run err)"
  by (auto simp: erases_def revoke_after_inspect_failure_def Let_def dest!: erasesD [OF erases_revoke_records]
      split: prod.splits if_splits)

lemma erases_revoke_ended [erasing]: "erases (revoke_ended (traced e) cid started_at) (revoke_ended e cid started_at)"
  by (auto simp: erases_def revoke_ended_def dest!: erasesD [OF erases_revoke_at] split: option.splits)

lemma erases_reconcile_running [erasing]:
  "erases (reconcile_running (traced e) cid info st cfg) (reconcile_running e cid info st cfg)"
  by (auto simp: erases_def reconcile_running_def Let_def dest!: erasesD [OF erases_compute_desired] erasesD [OF erases_apply_pinned]
      split: prod.splits sum.splits)

lemma erases_reconcile_locked [erasing]:
  "erases (reconcile_locked (traced e) cid canceled inspected) (reconcile_locked e cid canceled inspected)"
  by (auto simp: erases_def reconcile_locked_def Let_def dest: erasesD [OF erases_revoke_after_failure]
      erasesD [OF erases_revoke_ended] erasesD [OF erases_reconcile_running] split: sum.splits option.splits)

lemma erases_reconcile: "erases (reconcile (traced e) cid canceled) (reconcile e cid canceled)"
  by (auto simp: erases_def reconcile_def dest!: erasesD [OF erases_inspect] erasesD [OF erases_reconcile_locked] split: prod.splits)

section \<open>What a reconcile records\<close>

definition runs :: "container_state \<Rightarrow> bool" where
  "runs st \<longleftrightarrow> cs_running st \<and> cs_pid st \<noteq> 0"

lemma reconcile_trace:
  assumes "reconcile (traced e) cid canceled s = (r, s')" and "cfg = sn_runtime (ps_store s)"
  shows "\<exists>a s1 d. trace s' = trace s @ EvInspect cid a # d \<and> (rt_dry_run cfg \<longrightarrow> d = [])
    \<and> (sets_ok reopened d \<or> (\<exists>info st. a = Inr info \<and> ci_state info = Some st \<and> runs st
         \<and> all_guarded cid st (ds_rules (fst (compute_desired e cid info cfg s1))) d))"
proof -
  obtain a s1 where i: "inspect (traced e) cid s = (map_err (PInspect cid) a, s1)" "trace s1 = trace s @ [EvInspect cid a]"
    using emits_inspect [of e cid s] by (auto elim!: emitsE)
  have store: "ps_store s1 = ps_store s"
    using i(1) by (auto simp: inspect_def map_errS_def on_kernel_def split: prod.splits)
  have l: "reconcile_locked (traced e) cid canceled (map_err (PInspect cid) a) s1 = (r, s')"
    using assms(1) i(1) by (simp add: reconcile_def)
  have "\<exists>s2 d. trace s' = trace s1 @ d \<and> (rt_dry_run cfg \<longrightarrow> d = [])
    \<and> (sets_ok reopened d \<or> (\<exists>info st. a = Inr info \<and> ci_state info = Some st \<and> runs st
         \<and> all_guarded cid st (ds_rules (fst (compute_desired e cid info cfg s2))) d))" (is "\<exists>s2 d. ?Q s2 d")
  proof (cases "(\<exists>err. a = Inl err) \<or> (\<exists>info. a = Inr info \<and> \<not> (\<exists>st. ci_state info = Some st \<and> runs st))")
    case True
    then consider (nothing) "s' = s1"
      | (failed) err where "revoke_after_inspect_failure (traced e) cid (rt_dry_run cfg) err s1 = (r, s')"
      | (ended) started_at where "\<not> rt_dry_run cfg" "revoke_ended (traced e) cid started_at s1 = (r, s')"
      using l assms(2) store by (auto simp: reconcile_locked_def Let_def runs_def split: option.splits if_splits)
    then have "\<exists>d. trace s' = trace s1 @ d \<and> (rt_dry_run cfg \<longrightarrow> d = []) \<and> sets_ok reopened d"
    proof cases
      case nothing
      then show ?thesis by (simp add: sets_ok_no_set)
    next
      case failed
      then show ?thesis using emitsD [OF emits_revoke_after_failure failed] by blast
    next
      case ended
      then show ?thesis using emitsD [OF emits_revoke_ended ended(2)] by blast
    qed
    then show ?thesis by blast
  next
    case False
    then obtain info st where a: "a = Inr info" "ci_state info = Some st" "runs st" by (cases a) auto
    then have "reconcile_running (traced e) cid info st cfg s1 = (r, s')"
      using l assms(2) store by (simp add: reconcile_locked_def Let_def runs_def)
    from emitsD [OF emits_reconcile_running this] obtain d where
      d: "trace s' = trace s1 @ d" "all_guarded cid st (ds_rules (fst (compute_desired (traced e) cid info cfg s1))) d" "rt_dry_run cfg \<longrightarrow> d = []"
      by blast
    have "fst (compute_desired (traced e) cid info cfg s1) = fst (compute_desired e cid info cfg (erase s1))"
      using erasesD [OF erases_compute_desired, of e cid info cfg s1] by (cases "compute_desired (traced e) cid info cfg s1") simp
    then have "?Q (erase s1) d" using a d by simp
    then show ?thesis by blast
  qed
  then obtain s2 d where "?Q s2 d" by blast
  then show ?thesis using i(2) by (intro exI [of _ a] exI [of _ s2] exI [of _ d]) simp
qed


lemma desired_granted:
  assumes "compute_desired e cid info cfg s = (des, s')" and "ds_rules des \<noteq> []"
  shows "\<exists>c dev k0 k1 k res k'. container_parse (e_glob e) (or_default (ci_labels info)) = Inr c \<and> enabled (rt_policy cfg) c
    \<and> e_devfs e k0 = (Inr dev, k1)
    \<and> collect_container_rules dev \<lparr>j_crate = e_glob e, j_global = rt_policy cfg, j_container = c\<rparr> (ci_mounts info) k = (res, k')
    \<and> cr_device_errs res = [] \<and> ds_rules des = cr_granted res"
proof -
  obtain c where c: "container_parse (e_glob e) (or_default (ci_labels info)) = Inr c" "enabled (rt_policy cfg) c"
    using assms by (auto simp: compute_desired_def desired_default_def split: sum.splits if_splits)
  obtain res s1 where col: "collect_devices e (ci_mounts info) (rt_policy cfg) c s = (res, s1)" by fastforce
  with assms c have res: "cr_device_errs res = []" "ds_rules des = cr_granted res"
    by (auto simp: compute_desired_def split: if_splits)
  with assms(2) col have "list_ex is_device_mount (ci_mounts info)"
    by (auto simp: collect_devices_def container_rules_default_def split: if_splits)
  with col res obtain dev s2 where dev: "on_kernel (e_devfs e) s = (Inr dev, s2)"
    "on_kernel (collect_container_rules dev \<lparr>j_crate = e_glob e, j_global = rt_policy cfg, j_container = c\<rparr> (ci_mounts info)) s2 = (res, s1)"
    by (auto simp: collect_devices_def container_rules_default_def split: prod.splits sum.splits)
  from dev(1) obtain k0 k1 where "e_devfs e k0 = (Inr dev, k1)" by (auto simp: on_kernel_def split: prod.splits)
  moreover from dev(2) obtain k k' where
    "collect_container_rules dev \<lparr>j_crate = e_glob e, j_global = rt_policy cfg, j_container = c\<rparr> (ci_mounts info) k = (res, k')"
    by (auto simp: on_kernel_def split: prod.splits)
  ultimately show ?thesis using c res by blast
qed

section \<open>All transactions\<close>

text \<open>What the processor runs under its lock, one at a time; the first inspect of a reconcile runs before it.\<close>

datatype transaction =
    TxReconcile string bool
  | TxTerminate string timestamp
  | TxSweep
  | TxPublish runtime

fun run_tx :: "('k, 'f, 'n, 'p) proc_env \<Rightarrow> transaction \<Rightarrow> 'k proc_state \<Rightarrow> 'k proc_state" where
  "run_tx e (TxReconcile cid canceled) s = snd (reconcile e cid canceled s)"
| "run_tx e (TxTerminate cid event_time) s = snd (terminate_locked e cid event_time s)"
| "run_tx e TxSweep s = snd (sweep_locked e s)"
| "run_tx e (TxPublish rt) s = snd (publish_and_reconcile rt s)"

lemma reopened_append: "sets_ok reopened t1 \<Longrightarrow> sets_ok reopened t2 \<Longrightarrow> sets_ok reopened (t1 @ t2)"
  by (rule sets_ok_append) (auto intro: reopened_extend)

lemma emits_terminate:
  "emits (terminate_locked (traced e) cid event_time) s
     (\<lambda>r d. sets_ok reopened d \<and> (rt_dry_run (sn_runtime (ps_store s)) \<longrightarrow> d = []))"
proof -
  obtain ended lc where t: "lifecycle_terminate (e_time e) cid event_time (ps_lifecycles s) = (ended, lc)" by fastforce
  obtain a s2 d where "revoke_records (traced e) ended (s\<lparr>ps_lifecycles := lc\<rparr>) = (a, s2)"
    "trace s2 = trace (s\<lparr>ps_lifecycles := lc\<rparr>) @ d" "sets_ok reopened d"
    by (rule emitsE [OF emits_revoke_records])
  then show ?thesis using t by (auto simp: emits_def terminate_locked_def Let_def sets_ok_no_set)
qed

lemma emits_sweep_record:
  "emits (sweep_record (traced e) now dry_run r) s (\<lambda>a d. sets_ok reopened d \<and> (dry_run \<longrightarrow> no_set d))"
proof (cases "lr_cgroup r")
  case None
  then show ?thesis by (auto simp: emits_def sweep_record_def sets_ok_no_set)
next
  case (Some cg)
  have "emits_k (cgroup_gone (traced_sys (e_sys e)) i) (\<lambda>a d. no_set d)" for i
    by (auto simp: emits_k_def cgroup_gone_def logged_def split: prod.splits sum.splits)
  then have "emits (on_kernel (cgroup_gone (e_sys (traced e)) (rc_identity cg))) s (\<lambda>a d. no_set d)"
    by (simp only: traced_simps) (rule emits_on_kernel)
  then obtain a s1 d1 where g: "on_kernel (cgroup_gone (e_sys (traced e)) (rc_identity cg)) s = (a, s1)" "trace s1 = trace s @ d1" "no_set d1"
    by (rule emitsE)
  obtain b s2 d2 where v: "revoke_at (traced e) r s1 = (b, s2)" "trace s2 = trace s1 @ d2" "revoke_events d2"
    by (rule emitsE [OF emits_revoke_at])
  have "sets_ok reopened (d1 @ d2)"
    by (rule reopened_append [OF sets_ok_no_set [OF g(3)] revoke_events_reopened [OF v(3)]])
  then show ?thesis using Some g v
    by (auto simp: emits_def sweep_record_def sets_ok_no_set split: sum.splits bool.splits)
qed

lemma emits_sweep_records:
  "emits (sweep_records (traced e) now dry_run rs) s (\<lambda>a d. sets_ok reopened d \<and> (dry_run \<longrightarrow> no_set d))"
proof (induction rs arbitrary: s)
  case Nil
  then show ?case by (auto simp: emits_def sets_ok_no_set)
next
  case (Cons r rs)
  obtain a s1 d1 where o1: "sweep_record (traced e) now dry_run r s = (a, s1)" "trace s1 = trace s @ d1"
    "sets_ok reopened d1 \<and> (dry_run \<longrightarrow> no_set d1)"
    by (rule emitsE [OF emits_sweep_record])
  obtain b s2 d2 where o2: "sweep_records (traced e) now dry_run rs s1 = (b, s2)" "trace s2 = trace s1 @ d2"
    "sets_ok reopened d2 \<and> (dry_run \<longrightarrow> no_set d2)"
    by (rule emitsE [OF Cons.IH])
  have "sets_ok reopened (d1 @ d2)" using o1(3) o2(3) by (simp add: reopened_append)
  then show ?case using o1 o2 by (auto simp: emits_def)
qed

lemma emits_sweep:
  "emits (sweep_locked (traced e)) s (\<lambda>a d. sets_ok reopened d \<and> (rt_dry_run (sn_runtime (ps_store s)) \<longrightarrow> no_set d))"
proof -
  obtain now s1 d0 where n: "on_kernel (quiet (e_now e)) s = (now, s1)" "trace s1 = trace s @ d0" "d0 = []"
    by (rule emitsE [OF emits_on_kernel [OF emits_k_quiet]])
  then have "ps_store s1 = ps_store s" by (auto simp: on_kernel_def split: prod.splits)
  with n show ?thesis
    using emits_sweep_records [of e now "rt_dry_run (sn_runtime (ps_store s))" "lifecycle_all (ps_lifecycles s1)" s1]
    by (auto simp: emits_def sweep_locked_def)
qed

lemma erases_snd: "erases m m' \<Longrightarrow> snd (m' (erase s)) = erase (snd (m s))"
  using erasesD [of m m' s] by (cases "m s") simp

lemma erases_terminate [erasing]: "erases (terminate_locked (traced e) cid event_time) (terminate_locked e cid event_time)"
  by (auto simp: erases_def terminate_locked_def Let_def dest!: erasesD [OF erases_revoke_records] split: prod.splits)

lemma erases_sweep_record: "erases (sweep_record (traced e) now dry_run r) (sweep_record e now dry_run r)"
proof (cases "lr_cgroup r")
  case None
  then show ?thesis by (auto simp: erases_def sweep_record_def)
next
  case (Some cg)
  have "erases_k (cgroup_gone (traced_sys (e_sys e)) i) (cgroup_gone (e_sys e) i)" for i
    by (auto simp: erases_k_def cgroup_gone_def logged_def split: prod.splits sum.splits)
  then have g: "erases (on_kernel (cgroup_gone (e_sys (traced e)) i)) (on_kernel (cgroup_gone (e_sys e) i))" for i
    by (simp only: traced_simps) (rule erases_on_kernel)
  show ?thesis unfolding erases_def
  proof (intro allI impI)
    fix s a s'
    assume sw: "sweep_record (traced e) now dry_run r s = (a, s')"
    obtain b s1 where o: "on_kernel (cgroup_gone (e_sys (traced e)) (rc_identity cg)) s = (b, s1)" by fastforce
    show "sweep_record e now dry_run r (erase s) = (a, erase s')"
      using sw Some o erasesD [OF g o] erases_snd [OF erases_revoke_at, of e r s1]
      by (auto simp del: traced_simps simp: sweep_record_def split: sum.splits bool.splits if_splits)
  qed
qed

lemma erases_sweep_records: "erases (sweep_records (traced e) now dry_run rs) (sweep_records e now dry_run rs)"
  by (induction rs) (auto simp: erases_def dest!: erasesD [OF erases_sweep_record] split: prod.splits)

lemma erases_sweep [erasing]: "erases (sweep_locked (traced e)) (sweep_locked e)"
proof -
  have "erases (on_kernel (e_now (traced e))) (on_kernel (e_now e))" by (simp add: erasing)
  from erasesD [OF this] erasesD [OF erases_sweep_records] show ?thesis
    by (fastforce simp: erases_def sweep_locked_def split: prod.splits)
qed

lemma erases_run_tx: "run_tx e tx (erase s) = erase (run_tx (traced e) tx s)"
proof -
  have eq: "run_tx e tx (erase s) = erase (run_tx (traced e) tx s)" if "\<forall>rt. tx \<noteq> TxPublish rt"
    using that erases_snd [OF erases_reconcile] erases_snd [OF erases_terminate] erases_snd [OF erases_sweep] by (cases tx) simp_all
  show ?thesis
  proof (cases tx)
    case (TxPublish rt)
    then show ?thesis by (simp add: publish_and_reconcile_def publish_def erase_def)
  qed (use eq in auto)
qed


lemma tx_trace:
  assumes "run_tx (traced e) tx s = s'" and "cfg = sn_runtime (ps_store s)"
  shows "\<exists>d. trace s' = trace s @ d \<and> (rt_dry_run cfg \<longrightarrow> no_set d)
    \<and> (sets_ok reopened d \<or> (\<exists>cid canceled info st d1 s1. tx = TxReconcile cid canceled \<and> d = EvInspect cid (Inr info) # d1
         \<and> ci_state info = Some st \<and> runs st \<and> all_guarded cid st (ds_rules (fst (compute_desired e cid info cfg s1))) d1))"
proof (cases tx)
  case (TxReconcile cid canceled)
  obtain r where r: "reconcile (traced e) cid canceled s = (r, s')" using assms(1) TxReconcile by (cases "reconcile (traced e) cid canceled s") simp
  from reconcile_trace [OF this assms(2)] obtain a s1 d where d: "trace s' = trace s @ EvInspect cid a # d" "rt_dry_run cfg \<longrightarrow> d = []"
    "sets_ok reopened d \<or> (\<exists>info st. a = Inr info \<and> ci_state info = Some st \<and> runs st
         \<and> all_guarded cid st (ds_rules (fst (compute_desired e cid info cfg s1))) d)" by blast
  have "sets_ok reopened (EvInspect cid a # d)" if "sets_ok reopened d"
    using reopened_append [OF sets_ok_no_set [of "[EvInspect cid a]"] that] by simp
  then show ?thesis using d TxReconcile by (intro exI [of _ "EvInspect cid a # d"]) auto
next
  case (TxTerminate cid event_time)
  obtain r where "terminate_locked (traced e) cid event_time s = (r, s')" using assms(1) TxTerminate by (cases "terminate_locked (traced e) cid event_time s") simp
  from emitsD [OF emits_terminate this] show ?thesis using assms(2) by auto
next
  case TxSweep
  obtain r where "sweep_locked (traced e) s = (r, s')" using assms(1) TxSweep by (cases "sweep_locked (traced e) s") simp
  from emitsD [OF emits_sweep this] show ?thesis using assms(2) by blast
next
  case (TxPublish rt)
  then have "trace s' = trace s" using assms(1) by (auto simp: publish_and_reconcile_def publish_def trace_def)
  then show ?thesis by (simp add: sets_ok_no_set)
qed

text \<open>What the policy lets a container have, of the candidates of its mounts.\<close>

definition rules_judged :: "'p judge \<Rightarrow> candidate list \<Rightarrow> device_rule list \<Rightarrow> bool" where
  "rules_judged j cs rs \<longleftrightarrow>
     (\<forall>r \<in> set rs. \<exists>i. r = device_rule_of i
        \<and> (\<exists>c \<in> set cs. cand_kind c = NodeDevice i \<and> dev_name (cand_canonical c)
             \<and> j_authorized j (cand_canonical c) \<and> j_authorized j (cand_resolved c))
        \<and> (\<forall>c \<in> set cs. cand_kind c = NodeDevice i \<longrightarrow> \<not> j_denied j (cand_alias c)
             \<and> \<not> j_denied j (cand_resolved c) \<and> (cand_canonical c \<noteq> [] \<longrightarrow> \<not> j_denied j (cand_canonical c))))"

text \<open>What a call of the kernel alone leaves as it was.\<close>

definition same_memory :: "'k proc_state \<Rightarrow> 'k proc_state \<Rightarrow> bool" where
  "same_memory s s' \<longleftrightarrow> ps_lifecycles s' = ps_lifecycles s \<and> ps_store s' = ps_store s
     \<and> cm_ledger (ps_mem s') = cm_ledger (ps_mem s) \<and> cm_cache (ps_mem s') = cm_cache (ps_mem s)"

lemma on_kernel_memory: "on_kernel m s = (r, s') \<Longrightarrow> same_memory s s'"
  by (auto simp: on_kernel_def same_memory_def split: prod.splits)

lemma same_memory_trans: "same_memory s s1 \<Longrightarrow> same_memory s1 s2 \<Longrightarrow> same_memory s s2"
  by (simp add: same_memory_def)

lemma same_memory_refl [simp]: "same_memory s s"
  by (simp add: same_memory_def)

lemma inspect_memory: "inspect e cid s = (r, s') \<Longrightarrow> same_memory s s'"
  by (auto simp: inspect_def map_errS_def dest: on_kernel_memory split: prod.splits)

lemma compute_desired_memory: "compute_desired e cid info cfg s = (des, s') \<Longrightarrow> same_memory s s'"
  by (auto simp: compute_desired_def collect_devices_def dest!: on_kernel_memory
      split: sum.splits if_splits prod.splits elim: same_memory_trans)

lemma dry_reconcile_memory:
  assumes "rt_dry_run (sn_runtime (ps_store s))" and "reconcile e cid canceled s = (r, s')"
  shows "same_memory s s'"
proof -
  obtain a s1 where i: "inspect e cid s = (a, s1)" by fastforce
  then have m: "same_memory s s1" by (rule inspect_memory)
  then have "rt_dry_run (sn_runtime (ps_store s1))" using assms(1) by (simp add: same_memory_def)
  then have "same_memory s1 s'" using assms(2) i
    by (auto simp: reconcile_def reconcile_locked_def Let_def revoke_after_inspect_failure_def reconcile_running_def
        dest: compute_desired_memory split: sum.splits option.splits if_splits prod.splits)
  then show ?thesis by (rule same_memory_trans [OF m])
qed

section \<open>Properties\<close>

text \<open>
  C2. Whatever the kernel, Docker and \<open>/dev\<close> answer, a transaction changes the rules of a cgroup
  only behind a guard. A reconcile sets rules on the cgroup of the container's process right after
  its check: a second inspect reports the same run as the first one, the process held by a pidfd
  since before the cgroup was resolved has not exited, and grants also need its pid in the
  \<open>cgroup.procs\<close> of the directory that is changed. Every other change is the empty set, on a
  directory that was opened, and its inode read, right before. The recording does not change the
  transaction.
\<close>

theorem mutations_guarded:
  assumes "run_tx (traced e) tx s = s'" and "trace s = []" and "trace s' = pre @ EvSet v h rs res # post"
  shows "run_tx e tx (erase s) = erase s' \<and> (reopened pre h rs \<or>
    (\<exists>cid canceled info st p d pidfd grants. tx = TxReconcile cid canceled \<and> hd pre = EvInspect cid (Inr info)
       \<and> ci_state info = Some st \<and> runs st \<and> pre = p @ d \<and> pinned_before st pidfd h p
       \<and> check_events cid st pidfd h grants d \<and> (rs \<noteq> [] \<longrightarrow> grants)))"
proof
  show "run_tx e tx (erase s) = erase s'" using erases_run_tx [of e tx s] assms(1) by simp
  from tx_trace [OF assms(1) refl] assms(2) consider (reopened) "sets_ok reopened (trace s')"
    | (running) cid canceled info st d1 rs' where "tx = TxReconcile cid canceled" "trace s' = EvInspect cid (Inr info) # d1"
      "ci_state info = Some st" "runs st" "all_guarded cid st rs' d1" by auto
  then show "reopened pre h rs \<or> (\<exists>cid canceled info st p d pidfd grants. tx = TxReconcile cid canceled
    \<and> hd pre = EvInspect cid (Inr info) \<and> ci_state info = Some st \<and> runs st \<and> pre = p @ d \<and> pinned_before st pidfd h p
    \<and> check_events cid st pidfd h grants d \<and> (rs \<noteq> [] \<longrightarrow> grants))" (is "_ \<or> ?C")
  proof cases
    case reopened
    then show ?thesis using assms(3) unfolding sets_ok_def by blast
  next
    case running
    then obtain pre1 where pre: "pre = EvInspect cid (Inr info) # pre1" "d1 = pre1 @ EvSet v h rs res # post"
      using assms(3) by (cases pre) auto
    then have "set_guarded cid st pre1 h rs" using running(5) unfolding sets_ok_def by blast
    then show ?thesis using set_guarded_extend [of cid st pre1 h rs "[EvInspect cid (Inr info)]"] running pre(1)
      unfolding set_guarded_def reopened_def by fastforce
  qed
qed

text \<open>
  C3. Rules that grant something reach a controller only from a reconcile that is not a dry run, of
  a container whose labels parse and which the policy enables, with every device of its mounts
  resolved. Each of them is a device that a candidate of the mounts resolved to under names the
  policy authorizes, and no candidate of that device is denied.
\<close>

theorem grants_authorized:
  assumes "run_tx (traced e) tx s = s'" and "trace s = []" and "trace s' = pre @ EvSet v h rs res # post" and "rs \<noteq> []"
    and "cfg = sn_runtime (ps_store s)"
  shows "\<not> rt_dry_run cfg \<and> (\<exists>cid canceled info c j dev k0 k1 k. tx = TxReconcile cid canceled
    \<and> hd (trace s') = EvInspect cid (Inr info) \<and> container_parse (e_glob e) (or_default (ci_labels info)) = Inr c
    \<and> enabled (rt_policy cfg) c \<and> e_devfs e k0 = (Inr dev, k1)
    \<and> j = \<lparr>j_crate = e_glob e, j_global = rt_policy cfg, j_container = c\<rparr>
    \<and> cr_device_errs (fst (collect_container_rules dev j (ci_mounts info) k)) = []
    \<and> rules_judged j (container_candidates dev j (ci_mounts info) k) rs)"
proof
  from tx_trace [OF assms(1,5)] obtain d where d: "trace s' = trace s @ d" "rt_dry_run cfg \<longrightarrow> no_set d"
    "sets_ok reopened d \<or> (\<exists>cid canceled info st d1 s1. tx = TxReconcile cid canceled \<and> d = EvInspect cid (Inr info) # d1
         \<and> ci_state info = Some st \<and> runs st \<and> all_guarded cid st (ds_rules (fst (compute_desired e cid info cfg s1))) d1)" by blast
  have dd: "d = pre @ EvSet v h rs res # post" using d(1) assms(2,3) by simp
  then show "\<not> rt_dry_run cfg" using d(2) by auto
  have "\<not> sets_ok reopened d" using dd assms(4) unfolding sets_ok_def reopened_def by blast
  with d(3) obtain cid canceled info st d1 s1 where tx: "tx = TxReconcile cid canceled" "d = EvInspect cid (Inr info) # d1"
    "all_guarded cid st (ds_rules (fst (compute_desired e cid info cfg s1))) d1" by blast
  then obtain pre1 where "d1 = pre1 @ EvSet v h rs res # post" using dd by (cases pre) auto
  with tx(3) assms(4) have rs: "rs = ds_rules (fst (compute_desired e cid info cfg s1))" unfolding sets_ok_def by blast
  obtain des s2 where des: "compute_desired e cid info cfg s1 = (des, s2)" by fastforce
  with rs assms(4) have "ds_rules des \<noteq> []" by simp
  from desired_granted [OF des this] obtain c dev k0 k1 k cr k' where col:
    "container_parse (e_glob e) (or_default (ci_labels info)) = Inr c" "enabled (rt_policy cfg) c" "e_devfs e k0 = (Inr dev, k1)"
    "collect_container_rules dev \<lparr>j_crate = e_glob e, j_global = rt_policy cfg, j_container = c\<rparr> (ci_mounts info) k = (cr, k')"
    "cr_device_errs cr = []" "rs = cr_granted cr" using rs des by auto
  have hd: "hd (trace s') = EvInspect cid (Inr info)" using d(1) assms(2) tx(2) by simp
  let ?j = "\<lparr>j_crate = e_glob e, j_global = rt_policy cfg, j_container = c\<rparr>"
  have "rules_judged ?j (container_candidates dev ?j (ci_mounts info) k) rs"
    unfolding rules_judged_def using granted_judged [OF col(4), folded col(6)] by blast
  then show "\<exists>cid canceled info c j dev k0 k1 k. tx = TxReconcile cid canceled
    \<and> hd (trace s') = EvInspect cid (Inr info) \<and> container_parse (e_glob e) (or_default (ci_labels info)) = Inr c
    \<and> enabled (rt_policy cfg) c \<and> e_devfs e k0 = (Inr dev, k1)
    \<and> j = \<lparr>j_crate = e_glob e, j_global = rt_policy cfg, j_container = c\<rparr>
    \<and> cr_device_errs (fst (collect_container_rules dev j (ci_mounts info) k)) = []
    \<and> rules_judged j (container_candidates dev j (ci_mounts info) k) rs"
    using tx(1) hd col by (intro exI [of _ cid] exI [of _ canceled] exI [of _ info] exI [of _ c] exI [of _ ?j] exI [of _ dev]
      exI [of _ k0] exI [of _ k1] exI [of _ k]) simp
qed


text \<open>
  C11. A dry run mutates nothing: no transaction calls a controller, and a reconcile makes no system
  call on processes or cgroups and keeps the history, the ledger and the filter cache.
\<close>

theorem dry_run_inert:
  assumes "run_tx (traced e) tx s = s'" and "trace s = []" and "rt_dry_run (sn_runtime (ps_store s))"
  shows "(\<forall>v h rs res. EvSet v h rs res \<notin> set (trace s'))
    \<and> (\<forall>cid canceled. tx = TxReconcile cid canceled \<longrightarrow> same_memory s s' \<and> (\<exists>a. trace s' = [EvInspect cid a]))"
proof
  from tx_trace [OF assms(1) refl] assms(2,3) have "no_set (trace s')" by auto
  then show "\<forall>v h rs res. EvSet v h rs res \<notin> set (trace s')" by (auto simp: no_set_def)
  show "\<forall>cid canceled. tx = TxReconcile cid canceled \<longrightarrow> same_memory s s' \<and> (\<exists>a. trace s' = [EvInspect cid a])"
  proof (intro allI impI)
    fix cid canceled
    assume "tx = TxReconcile cid canceled"
    then obtain r where r: "reconcile (traced e) cid canceled s = (r, s')" using assms(1)
      by (cases "reconcile (traced e) cid canceled s") simp
    from reconcile_trace [OF r refl] assms(2,3) dry_reconcile_memory [OF assms(3) r]
    show "same_memory s s' \<and> (\<exists>a. trace s' = [EvInspect cid a])" by auto
  qed
qed

end
