(* ===== verification/Controller.thy ===== *)
theory Controller
  imports Cgroup_Api
begin

text \<open>
  The contract of a controller that the processor relies on: a call remembers something only for
  the cgroup it is made on. It is proved for the controllers that \<open>cgroup_new\<close> makes.
\<close>

locale controller =
  fixes set_device_rules :: "('k, 'f) set_device_rules"
  assumes ledger_footprint: "set_device_rules v h rs m = (r, m') \<Longrightarrow> i \<noteq> h_identity h \<Longrightarrow> cm_ledger m' i = cm_ledger m i"
    and cache_footprint: "set_device_rules v h rs m = (r, m') \<Longrightarrow> i \<noteq> h_identity h \<Longrightarrow> cm_cache m' i = cm_cache m i"
begin

lemma remembered:
  assumes "set_device_rules v h rs m = (r, m')"
  shows "dom (cm_ledger m') \<union> dom (cm_cache m') \<subseteq> insert (h_identity h) (dom (cm_ledger m) \<union> dom (cm_cache m))"
proof
  fix i
  assume "i \<in> dom (cm_ledger m') \<union> dom (cm_cache m')"
  then show "i \<in> insert (h_identity h) (dom (cm_ledger m) \<union> dom (cm_cache m))"
    using ledger_footprint [OF assms, of i] cache_footprint [OF assms, of i] by (cases "i = h_identity h") auto
qed

end

section \<open>What a call keeps\<close>

text \<open>A call that keeps what \<open>f\<close> reads of its state.\<close>

definition keeps :: "('s \<Rightarrow> 'b) \<Rightarrow> ('s \<Rightarrow> 'a \<times> 's) \<Rightarrow> bool" where
  "keeps f m \<longleftrightarrow> (\<forall>s r s'. m s = (r, s') \<longrightarrow> f s' = f s)"

named_theorems keeping \<open>calls that keep a part of their state\<close>

lemma keepsD: "keeps f m \<Longrightarrow> m s = (r, s') \<Longrightarrow> f s' = f s"
  by (simp add: keeps_def)

lemma keeps_ret [keeping]: "keeps f (retS x)" "keeps f (liftS y)" "keeps f (\<lambda>s. (z, s))"
  by (simp_all add: keeps_def)

lemma keeps_bindS [keeping]: "keeps f m \<Longrightarrow> (\<And>x. keeps f (g x)) \<Longrightarrow> keeps f (bindS m g)"
  unfolding keeps_def bindS_def by (fastforce split: prod.splits sum.splits)

lemma keeps_map_errS [keeping]: "keeps f m \<Longrightarrow> keeps f (map_errS g m)"
  unfolding keeps_def map_errS_def by (fastforce split: prod.splits)

lemma keeps_if [keeping]: "keeps f m \<Longrightarrow> keeps f n \<Longrightarrow> keeps f (if b then m else n)"
  by simp

lemma keeps_on_kern [keeping]: "keeps (\<lambda>w. cache w i) (on_kern m)"
  by (auto simp: keeps_def on_kern_def split: prod.splits)

lemma keeps_on_draws [keeping]: "keeps (\<lambda>w. cache w i) (on_draws m)"
  by (auto simp: keeps_def on_draws_def split: prod.splits)

lemma keeps_set_cache: "i \<noteq> j \<Longrightarrow> keeps (\<lambda>w. cache w i) (set_cache j en)"
  by (auto simp: keeps_def set_cache_def cache_set_def)

section \<open>The v2 controller\<close>

lemma keeps_classify [keeping]: "keeps (\<lambda>w. cache w i) (classify sha ops index p)"
  unfolding classify_def by (intro keeping) (auto intro!: keeping split: prod.splits option.splits)

lemma keeps_classify_all [keeping]: "keeps (\<lambda>w. cache w i) (classify_all sha ops index ps)"
  by (induction ps arbitrary: index) (auto intro!: keeping)

lemma keeps_load_all [keeping]: "keeps (\<lambda>w. cache w i) (load_all ops ps)"
  by (induction ps rule: load_all.induct) (auto intro!: keeping simp: load_canonical_def)

lemma keeps_attach_then_detach [keeping]: "keeps (\<lambda>w. cache w i) (attach_then_detach ops old new)"
  unfolding attach_then_detach_def
  by (intro keeping) (auto simp: keeps_def on_kern_def split: prod.splits sum.splits)

lemma keeps_swap [keeping]: "keeps (\<lambda>w. cache w i) (swap ops old new)"
proof -
  have "cache s' i = cache s i" if "swap ops old new s = (r, s')" for s r s'
    using that keepsD [OF keeps_attach_then_detach, of ops old new _ r s' i]
    by (auto simp: swap_def Let_def on_kern_def split: if_splits prod.splits sum.splits)
  then show ?thesis by (simp add: keeps_def)
qed

lemma keeps_run_steps [keeping]: "keeps (\<lambda>w. cache w i) (run_steps ops attached loaded index count ss)"
  by (induction ss arbitrary: index) (auto intro!: keeping simp: run_step_def split: plan_step.splits)

lemma keeps_commit: "i \<noteq> j \<Longrightarrow> keeps (\<lambda>w. cache w i) (commit ops j attached plan rebuild)"
  unfolding commit_def execute_def by (intro keeping keeps_set_cache) simp_all

lemma keeps_rebuild_pass: "i \<noteq> j \<Longrightarrow> keeps (\<lambda>w. cache w i) (rebuild_pass sha rand ops j rs)"
proof -
  assume ne: "i \<noteq> j"
  have "keeps (\<lambda>w. cache w i) (bindS (on_draws (add_rebuild sha rand rs ls empty_plan)) (\<lambda>plan. commit ops j [] plan True))" for ls
    by (intro keeping keeps_commit ne)
  from keepsD [OF this] show ?thesis by (auto simp: keeps_def rebuild_pass_def Let_def split: if_splits)
qed

lemma keeps_set_rules: "i \<noteq> j \<Longrightarrow> keeps (\<lambda>w. cache w i) (set_rules sha rand ops j rs)"
proof -
  assume ne: "i \<noteq> j"
  have "keeps (\<lambda>w. cache w i) (bindS (on_draws (plan_pass sha rand entry classified rs)) (\<lambda>plan. commit ops j ps plan b))"
    for entry classified ps b
    by (intro keeping keeps_commit ne)
  from keepsD [OF this] have "keeps (\<lambda>w. cache w i) (\<lambda>w. let entry = cache_get j (cache w) in
      bindS (on_draws (plan_pass sha rand entry classified rs)) (\<lambda>plan. commit ops j ps plan (rebuilding entry)) w)" for classified ps
    by (auto simp: keeps_def Let_def)
  then show ?thesis unfolding set_rules_def by (intro keeping keeps_rebuild_pass ne)
qed


section \<open>The v1 controller\<close>

lemma keeps_on_files [keeping]: "keeps (\<lambda>w. v1_ledger w i) (on_files m)"
  by (auto simp: keeps_def on_files_def split: prod.splits)

lemma keeps_read_list [keeping]: "keeps (\<lambda>w. v1_ledger w i) (read_list files)"
  unfolding read_list_def by (intro keeping)

lemma keeps_verify_rules [keeping]: "keeps (\<lambda>w. v1_ledger w i) (verify files owned_old owned_new forgotten)"
  unfolding verify_def by (intro keeping) (auto simp: Let_def intro!: keeping)

lemma ledger_other: "i \<noteq> j \<Longrightarrow> ledger_remove j b l i = l i" "i \<noteq> j \<Longrightarrow> ledger_add j b l i = l i"
  by (auto simp: ledger_remove_def ledger_add_def split: option.splits)

lemma revoke_loop_other:
  "i \<noteq> j \<Longrightarrow> revoke_loop files j baseline owned_new bs forgotten w = (r, w') \<Longrightarrow> v1_ledger w' i = v1_ledger w i"
proof (induction bs arbitrary: forgotten w)
  case (Cons b bs)
  then show ?case using keepsD [OF keeps_on_files]
    by (fastforce simp: ledger_other split: if_splits prod.splits sum.splits)
qed simp

lemma grant_loop_other:
  "i \<noteq> j \<Longrightarrow> grant_loop files j es bs w = (errs, w') \<Longrightarrow> v1_ledger w' i = v1_ledger w i"
proof (induction bs arbitrary: errs w)
  case (Cons b bs)
  obtain a w1 where w1: "(if covered es b then (Inr (), w) else on_files (f_write files DEVICES_ALLOW (bit_line b)) w) = (a, w1)"
    by fastforce
  then have "v1_ledger w1 i = v1_ledger w i" using keepsD [OF keeps_on_files] by (auto split: if_splits)
  then show ?case using Cons w1 by (cases a) (auto simp: ledger_other split: prod.splits)
qed simp

lemma keeps_v1_set: "i \<noteq> j \<Longrightarrow> keeps (\<lambda>w. v1_ledger w i) (v1_set_device_rules files j rs)"
proof -
  assume ne: "i \<noteq> j"
  have grant: "keeps (\<lambda>w. v1_ledger w i) (\<lambda>w1. case grant_loop files j es bs w1 of (errors, w2) \<Rightarrow>
      (case verify files owned_old owned_new forgotten w2 of (rv, w3) \<Rightarrow>
         let errors' = errors @ (case rv of Inl e \<Rightarrow> [e] | Inr _ \<Rightarrow> []) in
         (if errors' = [] then Inr () else Inl (Joined errors'), w3)))" for es bs owned_old owned_new forgotten
    using grant_loop_other [OF ne] keepsD [OF keeps_verify_rules]
    by (fastforce simp: keeps_def Let_def split: prod.splits)
  have revoke: "keeps (\<lambda>w. v1_ledger w i) (revoke_loop files j baseline owned_new bs forgotten)" for baseline owned_new bs forgotten
    using revoke_loop_other [OF ne] by (auto simp: keeps_def)
  note both = keepsD [OF keeps_bindS [OF revoke grant]]
  show ?thesis unfolding v1_set_device_rules_def
    by (intro keeping, unfold keeps_def Let_def, intro allI impI, erule both [unfolded Let_def])
qed

interpretation production: controller "cgroup_new ka" for ka
proof
  show "cm_ledger m' i = cm_ledger m i" if "cgroup_new ka v h rs m = (r, m')" "i \<noteq> h_identity h" for v h rs m r m' i
    using that keepsD [OF keeps_v1_set [OF that(2)]]
    by (cases v) (fastforce simp: cgroup_new_def on_v1_def on_v2_def split: prod.splits)+
  show "cm_cache m' i = cm_cache m i" if "cgroup_new ka v h rs m = (r, m')" "i \<noteq> h_identity h" for v h rs m r m' i
    using that keepsD [OF keeps_set_rules [OF that(2)]]
    by (cases v) (fastforce simp: cgroup_new_def on_v1_def on_v2_def split: prod.splits)+
qed

end
