(* ===== verification/Processor_Memory.thy ===== *)
theory Processor_Memory
  imports Reconcile_Correct Controller
begin

text \<open>
  What the processor remembers. The ledger and the filter cache hold state per cgroup directory;
  the invariant is that they hold it only for directories that a record of the history names, so
  that nothing of a cgroup outlives the last record of it.
\<close>

section \<open>Runs of a container\<close>

lemma distinct_filter_nth:
  "distinct (map f (filter P xs)) \<Longrightarrow> i < length xs \<Longrightarrow> k < length xs \<Longrightarrow> i \<noteq> k \<Longrightarrow> P (xs ! i) \<Longrightarrow> P (xs ! k)
    \<Longrightarrow> f (xs ! i) \<noteq> f (xs ! k)"
proof (induction xs arbitrary: i k)
  case (Cons x xs)
  have head: "f x \<noteq> f (xs ! n)" if "P x" "P (xs ! n)" "n < length xs" for n
  proof -
    have "f (xs ! n) \<in> f ` set (filter P xs)" using that by simp
    then show ?thesis using Cons.prems(1) that(1) by auto
  qed
  show ?case using Cons head by (cases i; cases k) (auto split: if_splits dest: not_sym)
qed simp

lemma distinct_filter_update:
  "distinct (map f (filter P xs)) \<Longrightarrow> i < length xs \<Longrightarrow> \<forall>k < length xs. k \<noteq> i \<longrightarrow> P (xs ! k) \<longrightarrow> f (xs ! k) \<noteq> f y
    \<Longrightarrow> distinct (map f (filter P (xs[i := y])))"
proof (induction xs arbitrary: i)
  case (Cons x xs)
  show ?case
  proof (cases i)
    case 0
    have "f y \<notin> f ` set (filter P xs)"
    proof
      assume "f y \<in> f ` set (filter P xs)"
      then obtain k where "k < length xs" "P (xs ! k)" "f (xs ! k) = f y" by (auto simp: in_set_conv_nth)
      then show False using Cons.prems(3) 0 by (auto dest: spec [of _ "Suc k"])
    qed
    then show ?thesis using Cons.prems(1) 0 by (auto split: if_splits)
  next
    case (Suc j)
    have rest: "distinct (map f (filter P (xs[j := y])))"
    proof (rule Cons.IH)
      show "\<forall>k < length xs. k \<noteq> j \<longrightarrow> P (xs ! k) \<longrightarrow> f (xs ! k) \<noteq> f y"
      proof (intro allI impI)
        fix k assume "k < length xs" "k \<noteq> j" "P (xs ! k)"
        then show "f (xs ! k) \<noteq> f y" using Cons.prems(3) Suc by (auto dest!: spec [of _ "Suc k"])
      qed
    qed (use Cons.prems Suc in \<open>auto split: if_splits\<close>)
    have "P x \<Longrightarrow> f x \<noteq> f y" using Cons.prems(3) Suc by (auto dest!: spec [of _ 0])
    then have "P x \<Longrightarrow> f x \<notin> f ` set (filter P (xs[j := y]))"
      using Cons.prems(1) set_update_subset_insert [of xs j y] by (auto split: if_splits)
    then show ?thesis using rest Suc by auto
  qed
qed simp

lemma all2_left: "list_all2 R xs ys \<Longrightarrow> x \<in> set xs \<Longrightarrow> \<exists>y \<in> set ys. R x y"
  by (induction rule: list_all2_induct) auto

lemma all2_right: "list_all2 R xs ys \<Longrightarrow> y \<in> set ys \<Longrightarrow> \<exists>x \<in> set xs. R x y"
  by (induction rule: list_all2_induct) auto

definition run_ok :: "string \<Rightarrow> lifecycle_record \<Rightarrow> bool" where
  "run_ok cid r \<longleftrightarrow> lr_container_id r = cid \<and> (has_identity r \<longleftrightarrow> lr_started_at r \<noteq> [])
     \<and> (lr_state r = Provisional \<longrightarrow> \<not> has_identity r)"

definition runs_ok :: "string \<Rightarrow> lifecycle_record list \<Rightarrow> bool" where
  "runs_ok cid rs \<longleftrightarrow> (\<forall>r \<in> set rs. run_ok cid r) \<and> distinct (map lr_started_at (filter has_identity rs))"

definition history_runs :: "lifecycles \<Rightarrow> bool" where
  "history_runs lc \<longleftrightarrow> bt_sorted lc \<and> (\<forall>cid. runs_ok cid (lifecycle_records cid lc))"

definition ids :: "lifecycle_record list \<Rightarrow> identity set" where
  "ids rs = {i. Some i \<in> record_identity ` set rs}"

definition identities :: "lifecycles \<Rightarrow> identity set" where
  "identities lc = (\<Union>cid. ids (lifecycle_records cid lc))"

text \<open>A copy of a record whose run is still in the history, in the same cgroup.\<close>

definition known :: "lifecycles \<Rightarrow> lifecycle_record \<Rightarrow> bool" where
  "known lc r \<longleftrightarrow> run_ok (lr_container_id r) r \<and> (has_identity r \<longrightarrow> (\<exists>r' \<in> set (lifecycle_records (lr_container_id r) lc).
     lr_started_at r' = lr_started_at r \<and> lr_cgroup r' = lr_cgroup r))"

definition run_key :: "lifecycle_record \<Rightarrow> string \<times> string" where
  "run_key r = (lr_container_id r, lr_started_at r)"

text \<open>Records that differ in nothing that names a run or its cgroup.\<close>

definition same_run_of :: "lifecycle_record \<Rightarrow> lifecycle_record \<Rightarrow> bool" where
  "same_run_of r r' \<longleftrightarrow> lr_container_id r' = lr_container_id r \<and> lr_started_at r' = lr_started_at r
     \<and> lr_cgroup r' = lr_cgroup r \<and> (lr_state r' = Provisional \<longrightarrow> lr_state r = Provisional)"

lemma same_run_of_refl [simp]: "same_run_of r r"
  by (simp add: same_run_of_def)

lemma same_runs_filter:
  "list_all2 same_run_of rs rs' \<Longrightarrow> map lr_started_at (filter has_identity rs') = map lr_started_at (filter has_identity rs)"
  by (induction rule: list_all2_induct) (auto simp: same_run_of_def has_identity_def)

lemma same_runs_ok:
  assumes "list_all2 same_run_of rs rs'" and "runs_ok cid rs"
  shows "runs_ok cid rs'"
proof -
  have "run_ok cid r'" if r': "r' \<in> set rs'" for r'
  proof -
    obtain r where "r \<in> set rs" "same_run_of r r'" using all2_right [OF assms(1) r'] by blast
    then show ?thesis using assms(2) by (auto simp: runs_ok_def run_ok_def same_run_of_def has_identity_def)
  qed
  then show ?thesis using assms(2) by (simp add: runs_ok_def same_runs_filter [OF assms(1)])
qed

lemma same_runs_update: "i < length rs \<Longrightarrow> same_run_of (rs ! i) y \<Longrightarrow> list_all2 same_run_of rs (rs[i := y])"
  by (auto simp: list_all2_conv_all_nth nth_list_update)

lemma same_runs_map: "(\<And>r. same_run_of r (f r)) \<Longrightarrow> list_all2 same_run_of rs (map f rs)"
  by (simp add: list_all2_conv_all_nth)

section \<open>The operations of the history\<close>

lemma records_remove: "lifecycle_records cid (bt_remove cid' lc) = (if cid' = cid then [] else lifecycle_records cid lc)"
  by (simp add: lifecycle_records_def bt_remove_get)

text \<open>A change of the records of one container that keeps its runs.\<close>

lemma insert_same_runs:
  assumes "history_runs lc" and "list_all2 same_run_of (lifecycle_records cid lc) rs'"
  shows "history_runs (bt_insert cid rs' lc)" and "identities (bt_insert cid rs' lc) = identities lc"
    and "known lc r \<Longrightarrow> known (bt_insert cid rs' lc) r"
proof -
  have s: "bt_sorted lc" using assms(1) by (simp add: history_runs_def)
  show "history_runs (bt_insert cid rs' lc)"
    using assms s by (auto simp: history_runs_def records_insert bt_insert_sorted intro: same_runs_ok)
  have "map record_identity rs' = map record_identity (lifecycle_records cid lc)"
    using assms(2) by (induction rule: list_all2_induct) (auto simp: same_run_of_def record_identity_def)
  then have "ids rs' = ids (lifecycle_records cid lc)" by (simp add: ids_def flip: set_map)
  then have "ids (lifecycle_records c (bt_insert cid rs' lc)) = ids (lifecycle_records c lc)" for c
    using s by (simp add: records_insert)
  then show "identities (bt_insert cid rs' lc) = identities lc" by (simp add: identities_def)
  show "known (bt_insert cid rs' lc) r" if known: "known lc r"
  proof (cases "lr_container_id r = cid \<and> has_identity r")
    case True
    then obtain r' where "r' \<in> set (lifecycle_records cid lc)" "lr_started_at r' = lr_started_at r" "lr_cgroup r' = lr_cgroup r"
      using known by (auto simp: known_def)
    moreover from all2_left [OF assms(2) this(1)] obtain r2 where "r2 \<in> set rs'" "same_run_of r' r2" by blast
    moreover have "run_ok (lr_container_id r) r" using known by (simp add: known_def)
    ultimately show ?thesis using True s by (auto simp: known_def records_insert same_run_of_def)
  qed (use known s in \<open>auto simp: known_def records_insert\<close>)
qed

lemma identity_has: "Some i = record_identity r \<Longrightarrow> has_identity r"
  by (cases "lr_cgroup r") (auto simp: record_identity_def has_identity_def)

text \<open>A change that keeps the records with a cgroup.\<close>

lemma insert_same_identified:
  assumes "history_runs lc" and "\<forall>r \<in> set rs'. run_ok cid r"
    and f: "filter has_identity rs' = filter has_identity (lifecycle_records cid lc)"
  shows "history_runs (bt_insert cid rs' lc)" and "identities (bt_insert cid rs' lc) = identities lc"
    and "known lc r \<Longrightarrow> known (bt_insert cid rs' lc) r"
proof -
  have s: "bt_sorted lc" using assms(1) by (simp add: history_runs_def)
  have mem: "x \<in> set rs' \<longleftrightarrow> x \<in> set (lifecycle_records cid lc)" if "has_identity x" for x
    using arg_cong [OF f, of set] that by auto
  show "history_runs (bt_insert cid rs' lc)"
    using assms s by (auto simp: history_runs_def records_insert bt_insert_sorted runs_ok_def)
  have ids: "ids rs = ids (filter has_identity rs)" for rs
    by (auto simp: ids_def image_iff dest: identity_has)
  have "ids rs' = ids (lifecycle_records cid lc)" by (subst (1 2) ids) (simp add: f)
  then have "ids (lifecycle_records c (bt_insert cid rs' lc)) = ids (lifecycle_records c lc)" for c
    using s by (simp add: records_insert)
  then show "identities (bt_insert cid rs' lc) = identities lc" by (simp add: identities_def)
  show "known (bt_insert cid rs' lc) r" if known: "known lc r"
  proof (cases "lr_container_id r = cid \<and> has_identity r")
    case True
    then obtain r' where r': "r' \<in> set (lifecycle_records cid lc)" "lr_started_at r' = lr_started_at r" "lr_cgroup r' = lr_cgroup r"
      using known by (auto simp: known_def)
    moreover have "has_identity r'" using r'(3) True by (simp add: has_identity_def)
    moreover have "run_ok (lr_container_id r) r" using known by (simp add: known_def)
    ultimately show ?thesis using True s mem by (auto simp: known_def records_insert)
  qed (use known s in \<open>auto simp: known_def records_insert\<close>)
qed

lemma drop_excess_identified: "filter has_identity (drop_excess rs) = filter has_identity rs"
proof (induction rs rule: drop_excess.induct)
  case (1 rs)
  show ?case
  proof (cases "find_index (\<lambda>r. \<not> has_identity r) rs")
    case None
    then show ?thesis by (simp add: drop_excess.simps [of rs])
  next
    case (Some i)
    then have i: "i < length rs" "\<not> has_identity (rs ! i)" using find_index_Some by blast+
    have "filter has_identity rs = filter has_identity (take i rs @ drop (Suc i) rs)"
      by (subst id_take_nth_drop [OF i(1)]) (simp add: i(2))
    then show ?thesis using 1 Some by (simp add: drop_excess.simps [of rs])
  qed
qed

definition keeps_runs :: "lifecycles \<Rightarrow> lifecycles \<Rightarrow> bool" where
  "keeps_runs lc lc' \<longleftrightarrow> history_runs lc' \<and> identities lc' = identities lc \<and> (\<forall>r. known lc r \<longrightarrow> known lc' r)"

lemma keeps_runs_insert:
  "history_runs lc \<Longrightarrow> list_all2 same_run_of (lifecycle_records cid lc) rs' \<Longrightarrow> keeps_runs lc (bt_insert cid rs' lc)"
  by (simp add: keeps_runs_def insert_same_runs)

lemma records_runs: "history_runs lc \<Longrightarrow> r \<in> set (lifecycle_records cid lc) \<Longrightarrow> run_ok cid r"
  by (auto simp: history_runs_def runs_ok_def)

lemma keeps_provisional:
  assumes "history_runs lc"
  shows "keeps_runs lc (lifecycle_provisional now cid lc)"
proof (cases "find_index (\<lambda>r. lr_state r = Provisional) (lifecycle_records cid lc)")
  case (Some i)
  then have "i < length (lifecycle_records cid lc)" using find_index_Some by blast
  with Some assms show ?thesis
    by (auto simp: lifecycle_provisional_def Let_def same_run_of_def intro!: keeps_runs_insert same_runs_update)
next
  case None
  define x where "x = \<lparr>lr_container_id = cid, lr_started_at = [], lr_cgroup = None, lr_state = Provisional,
    lr_first_seen = now, lr_observed = now, lr_revoked = False\<rparr>"
  have x: "run_ok cid x" "\<not> has_identity x" "lr_container_id x = cid" by (simp_all add: x_def run_ok_def has_identity_def)
  let ?rs = "drop_excess (lifecycle_records cid lc @ [x])"
  have "\<forall>r \<in> set ?rs. run_ok cid r"
    using drop_excess_ok [of "lifecycle_records cid lc @ [x]"] records_runs [OF assms] x(1) by auto
  moreover have "filter has_identity ?rs = filter has_identity (lifecycle_records cid lc)"
    using x(2) by (simp add: drop_excess_identified)
  ultimately have "keeps_runs lc (bt_insert cid ?rs lc)" by (simp add: keeps_runs_def insert_same_identified [OF assms])
  then show ?thesis using None x(3) by (simp add: lifecycle_provisional_def lifecycle_append_def flip: x_def)
qed

lemma keeps_update:
  assumes "history_runs lc" and "\<And>r. same_run_of r (f r)"
  shows "keeps_runs lc (lifecycle_update cid started_at f lc)"
proof (cases "map_of lc cid")
  case None
  then show ?thesis using assms(1) by (simp add: lifecycle_update_def keeps_runs_def)
next
  case (Some rs)
  have "list_all2 same_run_of rs (map (\<lambda>r. if lr_started_at r = started_at then f r else r) rs)"
    by (rule same_runs_map) (simp add: assms(2))
  then show ?thesis using keeps_runs_insert [OF assms(1), of cid] Some
    by (simp add: lifecycle_update_def lifecycle_records_def)
qed

lemma keeps_mark_terminal: "history_runs lc \<Longrightarrow> keeps_runs lc (mark_terminal cid started_at lc)"
  unfolding mark_terminal_def by (erule keeps_update) (simp add: same_run_of_def)

lemma keeps_mark_revoked: "history_runs lc \<Longrightarrow> keeps_runs lc (mark_revoked cid started_at lc)"
  unfolding mark_revoked_def by (erule keeps_update) (simp add: same_run_of_def)

lemma keeps_terminate:
  assumes "history_runs lc" and "lifecycle_terminate tp cid event_time lc = (ended, lc')"
  shows "keeps_runs lc lc'" and "\<forall>r \<in> set ended. known lc' r" and "distinct (map run_key (filter has_identity ended))"
proof -
  have "keeps_runs lc lc' \<and> (\<forall>r \<in> set ended. known lc' r) \<and> distinct (map run_key (filter has_identity ended))"
  proof (cases "map_of lc cid")
    case None
    then show ?thesis using assms by (auto simp: lifecycle_terminate_def keeps_runs_def)
  next
    case (Some rs)
    then have rs: "lifecycle_records cid lc = rs" by (simp add: lifecycle_records_def)
    show ?thesis
    proof (cases "latest_start tp event_time 0 rs None")
      case None
      have "list_all2 same_run_of rs (map end_provisional rs)"
        by (rule same_runs_map) (simp add: same_run_of_def end_provisional_def)
      then have "keeps_runs lc lc'" using keeps_runs_insert [OF assms(1), of cid] rs Some None assms(2)
        by (auto simp: lifecycle_terminate_def)
      moreover have "\<not> has_identity (end_provisional r) \<and> run_ok cid (end_provisional r) \<and> lr_container_id (end_provisional r) = cid"
        if "run_ok cid r" "lr_state r = Provisional" for r
        using that by (auto simp: run_ok_def end_provisional_def has_identity_def)
      then have "\<forall>r \<in> set ended. \<not> has_identity r \<and> run_ok (lr_container_id r) r"
        using Some None assms(2) records_runs [OF assms(1), of _ cid] rs by (auto simp: lifecycle_terminate_def)
      ultimately show ?thesis by (auto simp: known_def filter_empty_conv)
    next
      case (Some m)
      obtain i start where m: "m = (i, start)" by (cases m)
      let ?r = "(rs ! i)\<lparr>lr_state := Terminal\<rparr>"
      have i: "i < length rs" using latest_start_Some Some m by fastforce
      have e: "ended = [?r]" "lc' = bt_insert cid (rs[i := ?r]) lc"
        using \<open>map_of lc cid = Some rs\<close> Some m assms(2) by (auto simp: lifecycle_terminate_def Let_def)
      have k: "keeps_runs lc lc'" unfolding e(2)
        by (rule keeps_runs_insert [OF assms(1)]) (simp add: rs, rule same_runs_update [OF i], simp add: same_run_of_def)
      have "run_ok cid (rs ! i)" using records_runs [OF assms(1), of "rs ! i" cid] rs i by simp
      then have "run_ok cid ?r" "lr_container_id (rs ! i) = cid" by (auto simp: run_ok_def has_identity_def)
      then have "known lc ?r" using rs i by (auto simp: known_def intro!: bexI [of _ "rs ! i"])
      then show ?thesis using k e(1) by (simp add: keeps_runs_def)
    qed
  qed
  then show "keeps_runs lc lc'" "\<forall>r \<in> set ended. known lc' r" "distinct (map run_key (filter has_identity ended))" by blast+
qed

lemma in_identities: "r \<in> set (lifecycle_records cid lc) \<Longrightarrow> record_identity r = Some i \<Longrightarrow> i \<in> identities lc"
  by (force simp: identities_def ids_def)

lemma identitiesE:
  assumes "i \<in> identities lc"
  obtains cid r where "r \<in> set (lifecycle_records cid lc)" and "record_identity r = Some i"
  using assms by (force simp: identities_def ids_def)

text \<open>The records of a container after a verification: the run has the new cgroup, the others are as they were.\<close>

definition verified_runs :: "string \<Rightarrow> string \<Rightarrow> run_cgroup \<Rightarrow> lifecycle_record list \<Rightarrow> lifecycle_record list \<Rightarrow> bool" where
  "verified_runs cid started_at cg rs rs' \<longleftrightarrow> runs_ok cid rs' \<and> (\<exists>r \<in> set rs'. record_identity r = Some (rc_identity cg))
     \<and> (\<forall>r \<in> set rs. has_identity r \<longrightarrow> r \<in> set rs' \<or> find (\<lambda>r. lr_started_at r = started_at) rs = Some r)"

lemma verified_update:
  assumes "runs_ok cid rs" and "started_at \<noteq> []" and "i < length rs"
    and "\<forall>k < length rs. k \<noteq> i \<longrightarrow> has_identity (rs ! k) \<longrightarrow> lr_started_at (rs ! k) \<noteq> started_at"
    and "has_identity (rs ! i) \<Longrightarrow> find (\<lambda>r. lr_started_at r = started_at) rs = Some (rs ! i)"
  shows "verified_runs cid started_at cg rs (rs[i := verify_record started_at cg (rs ! i)])"
proof -
  let ?x = "verify_record started_at cg (rs ! i)"
  have "run_ok cid (rs ! i)" using assms(1,3) by (simp add: runs_ok_def)
  then have x: "run_ok cid ?x" using assms(2) by (auto simp: verify_record_def run_ok_def has_identity_def)
  have "distinct (map lr_started_at (filter has_identity (rs[i := ?x])))"
    using assms(1,4) by (intro distinct_filter_update assms(3)) (auto simp: runs_ok_def verify_record_def)
  moreover have "\<forall>r \<in> set (rs[i := ?x]). run_ok cid r"
    using assms(1) x set_update_subset_insert [of rs i ?x] by (auto simp: runs_ok_def)
  moreover have "?x \<in> set (rs[i := ?x])" "record_identity ?x = Some (rc_identity cg)"
    using assms(3) by (auto simp: verify_record_def record_identity_def intro: set_update_memI)
  moreover have "r \<in> set (rs[i := ?x]) \<or> r = rs ! i" if "r \<in> set rs" for r
    using that by (metis in_set_conv_nth length_list_update nth_list_update_neq)
  ultimately show ?thesis using assms(5) by (auto simp: verified_runs_def runs_ok_def)
qed

lemma verified_append:
  assumes "runs_ok cid rs" and "\<forall>r \<in> set rs. lr_started_at r \<noteq> lr_started_at y" and "run_ok cid y" and "has_identity y"
    and "record_identity y = Some (rc_identity cg)"
  shows "verified_runs cid started_at cg rs (drop_excess (rs @ [y]))"
  using assms drop_excess_ok [of "rs @ [y]"] drop_excess_identified [of "rs @ [y]"]
  unfolding verified_runs_def runs_ok_def by auto

lemma verify_insert:
  assumes "history_runs lc" and "started_at \<noteq> []"
  shows "\<exists>rs'. lifecycle_verify tp now cid started_at cg lc = bt_insert cid rs' lc
    \<and> verified_runs cid started_at cg (lifecycle_records cid lc) rs'"
proof -
  let ?rs = "lifecycle_records cid lc"
  have ok: "runs_ok cid ?rs" using assms(1) by (simp add: history_runs_def)
  show ?thesis
  proof (cases "find_index (\<lambda>r. lr_started_at r = started_at) ?rs")
    case (Some i)
    then have il: "i < length ?rs" "lr_started_at (?rs ! i) = started_at" using find_index_Some by blast+
    have "has_identity (?rs ! i)" using records_runs [OF assms(1), of "?rs ! i" cid] il assms(2) by (simp add: run_ok_def)
    then have "\<forall>k < length ?rs. k \<noteq> i \<longrightarrow> has_identity (?rs ! k) \<longrightarrow> lr_started_at (?rs ! k) \<noteq> started_at"
      using distinct_filter_nth [of lr_started_at has_identity ?rs _ i] ok il by (auto simp: runs_ok_def)
    moreover have "find (\<lambda>r. lr_started_at r = started_at) ?rs = Some (?rs ! i)"
      unfolding find_Some_iff using il find_index_first [OF Some] by blast
    ultimately show ?thesis using verified_update [OF ok assms(2) il(1)] Some by (auto simp: lifecycle_verify_def Let_def)
  next
    case None
    then have none: "\<forall>r \<in> set ?rs. lr_started_at r \<noteq> started_at" by (simp add: find_index_None)
    show ?thesis
    proof (cases "find_index (\<lambda>r. lr_state r = Provisional) ?rs")
      case (Some i)
      then have il: "i < length ?rs" "lr_state (?rs ! i) = Provisional" using find_index_Some by blast+
      then have "\<not> has_identity (?rs ! i)" using records_runs [OF assms(1), of "?rs ! i" cid] by (auto simp: run_ok_def)
      then show ?thesis using verified_update [OF ok assms(2) il(1)] none None Some by (auto simp: lifecycle_verify_def Let_def)
    next
      case None
      then show ?thesis using \<open>find_index (\<lambda>r. lr_started_at r = started_at) ?rs = None\<close> assms(2) none
        by (auto simp: lifecycle_verify_def Let_def lifecycle_append_def run_ok_def has_identity_def record_identity_def
            intro!: verified_append [OF ok])
    qed
  qed
qed

lemma verify_runs:
  assumes "history_runs lc" and "started_at \<noteq> []" and "lc' = lifecycle_verify tp now cid started_at cg lc"
  shows "history_runs lc'" and "rc_identity cg \<in> identities lc'"
    and "\<lbrakk>i \<in> identities lc; \<forall>r previous. lifecycle_lookup cid started_at lc = Some r \<longrightarrow> lr_cgroup r = Some previous \<longrightarrow> rc_identity previous \<noteq> i\<rbrakk>
      \<Longrightarrow> i \<in> identities lc'"
proof -
  have s: "bt_sorted lc" using assms(1) by (simp add: history_runs_def)
  obtain rs' where rs': "lc' = bt_insert cid rs' lc" "verified_runs cid started_at cg (lifecycle_records cid lc) rs'"
    using verify_insert [OF assms(1,2)] assms(3) by blast
  show "history_runs lc'" using assms(1) rs' s by (auto simp: history_runs_def records_insert bt_insert_sorted verified_runs_def)
  show "rc_identity cg \<in> identities lc'"
    using rs' s by (auto simp: records_insert verified_runs_def intro!: in_identities [of _ cid])
  show "i \<in> identities lc'" if i: "i \<in> identities lc"
    and moved: "\<forall>r previous. lifecycle_lookup cid started_at lc = Some r \<longrightarrow> lr_cgroup r = Some previous \<longrightarrow> rc_identity previous \<noteq> i"
  proof -
    obtain c r where r: "r \<in> set (lifecycle_records c lc)" "record_identity r = Some i" using i by (rule identitiesE)
    then have "has_identity r" by (auto simp: record_identity_def has_identity_def)
    then have "c = cid \<Longrightarrow> r \<in> set rs'" using rs'(2) r moved
      by (auto simp: lifecycle_lookup_def record_identity_def verified_runs_def)
    then show ?thesis using r rs'(1) s by (auto simp: records_insert intro!: in_identities [of r c])
  qed
qed

lemma release_records:
  assumes "bt_sorted lc"
  shows "lifecycle_records c (lifecycle_release r lc) = (if c = lr_container_id r
      then filter (\<lambda>x. lr_started_at x \<noteq> lr_started_at r \<or> lr_first_seen x \<noteq> lr_first_seen r) (lifecycle_records c lc)
      else lifecycle_records c lc)"
    and "bt_sorted (lifecycle_release r lc)"
proof -
  let ?keep = "\<lambda>x. lr_started_at x \<noteq> lr_started_at r \<or> lr_first_seen x \<noteq> lr_first_seen r"
  let ?cid = "lr_container_id r"
  let ?rs = "lifecycle_records ?cid lc"
  have "lifecycle_release r lc = (if map_of lc ?cid = None then lc else if filter ?keep ?rs = [] then bt_remove ?cid lc
      else bt_insert ?cid (filter ?keep ?rs) lc)"
    by (simp add: lifecycle_release_def lifecycle_records_def Let_def split: option.split)
  moreover have "map_of lc ?cid = None \<Longrightarrow> ?rs = []" by (simp add: lifecycle_records_def)
  ultimately show "lifecycle_records c (lifecycle_release r lc) = (if c = ?cid then filter ?keep (lifecycle_records c lc) else lifecycle_records c lc)"
    and "bt_sorted (lifecycle_release r lc)"
    using assms by (simp_all add: records_insert records_remove bt_insert_sorted bt_remove_sorted)
qed

lemma release_runs:
  assumes "history_runs lc" and "known lc r" and "lc' = lifecycle_release r lc"
  shows "history_runs lc'" and "i \<in> identities lc \<Longrightarrow> record_identity r \<noteq> Some i \<Longrightarrow> i \<in> identities lc'"
    and "known lc r2 \<Longrightarrow> (has_identity r2 \<Longrightarrow> run_key r2 \<noteq> run_key r) \<Longrightarrow> known lc' r2"
proof -
  let ?cid = "lr_container_id r"
  let ?keep = "\<lambda>x. lr_started_at x \<noteq> lr_started_at r \<or> lr_first_seen x \<noteq> lr_first_seen r"
  have s: "bt_sorted lc" using assms(1) by (simp add: history_runs_def)
  note recs = release_records [OF s, where r = r, folded assms(3)]
  have ok: "runs_ok ?cid (lifecycle_records ?cid lc)" using assms(1) by (simp add: history_runs_def)
  have "runs_ok ?cid (filter ?keep rs)" if "runs_ok ?cid rs" for rs
    using that distinct_map_filter [of lr_started_at "filter has_identity rs" ?keep] by (auto simp: runs_ok_def conj_commute)
  then show "history_runs lc'" using assms(1) recs by (simp add: history_runs_def)
  have same: "lr_cgroup x = lr_cgroup r" if x: "x \<in> set (lifecycle_records ?cid lc)" "\<not> ?keep x" "has_identity x" for x
  proof -
    have "run_ok ?cid x" "run_ok ?cid r" using ok assms(2) x by (auto simp: runs_ok_def known_def)
    then have r: "has_identity r" using x by (auto simp: run_ok_def)
    then obtain r' where r': "r' \<in> set (lifecycle_records ?cid lc)" "lr_started_at r' = lr_started_at r" "lr_cgroup r' = lr_cgroup r"
      using assms(2) by (auto simp: known_def)
    then have "has_identity r'" using r by (simp add: has_identity_def)
    then have "r' = x" using ok x r' by (auto simp: runs_ok_def distinct_map inj_on_def)
    then show ?thesis using r'(3) by simp
  qed
  show "i \<in> identities lc'" if i: "i \<in> identities lc" "record_identity r \<noteq> Some i"
  proof -
    obtain c x where x: "x \<in> set (lifecycle_records c lc)" "record_identity x = Some i" using i(1) by (rule identitiesE)
    have "has_identity x" by (rule identity_has [OF x(2) [symmetric]])
    then have "c = ?cid \<Longrightarrow> ?keep x" using same [of x] x i(2) by (metis record_identity_def)
    then have "x \<in> set (lifecycle_records c lc')" using x(1) recs(1) by auto
    then show ?thesis using x(2) by (rule in_identities)
  qed
  show "known lc' r2" if r2: "known lc r2" and ne: "has_identity r2 \<Longrightarrow> run_key r2 \<noteq> run_key r"
  proof (cases "has_identity r2")
    case True
    then obtain r' where "r' \<in> set (lifecycle_records (lr_container_id r2) lc)" "lr_started_at r' = lr_started_at r2" "lr_cgroup r' = lr_cgroup r2"
      using r2 by (auto simp: known_def)
    then show ?thesis using r2 ne recs(1) [of "lr_container_id r2"]
      by (auto simp: known_def run_key_def intro!: bexI [of _ r'])
  qed (use r2 in \<open>simp add: known_def\<close>)
qed


section \<open>What is remembered of a cgroup\<close>

definition remembers :: "'k cgroup_mem \<Rightarrow> identity set" where
  "remembers m = dom (cm_ledger m) \<union> dom (cm_cache m)"

definition tracked :: "'k proc_state \<Rightarrow> bool" where
  "tracked s \<longleftrightarrow> history_runs (ps_lifecycles s) \<and> remembers (ps_mem s) \<subseteq> identities (ps_lifecycles s)"

lemma tracked_history: "tracked s \<Longrightarrow> keeps_runs (ps_lifecycles s) (f (ps_lifecycles s)) \<Longrightarrow> tracked (on_history f s)"
  by (simp add: tracked_def keeps_runs_def on_history_def)

lemma remembers_forget: "remembers (ps_mem (forget i s)) = remembers (ps_mem s) - {i}" "ps_lifecycles (forget i s) = ps_lifecycles s"
  by (auto simp: remembers_def forget_def ledger_forget_def cache_forget_def)

lemma release_run_tracked:
  assumes "tracked s" and "known (ps_lifecycles s) r"
  shows "tracked (release_run r s)"
    and "known (ps_lifecycles s) r2 \<Longrightarrow> (has_identity r2 \<Longrightarrow> run_key r2 \<noteq> run_key r) \<Longrightarrow> known (ps_lifecycles (release_run r s)) r2"
proof -
  let ?lc = "lifecycle_release r (ps_lifecycles s)"
  have h: "history_runs (ps_lifecycles s)" "remembers (ps_mem s) \<subseteq> identities (ps_lifecycles s)"
    using assms(1) by (simp_all add: tracked_def)
  have lc: "ps_lifecycles (release_run r s) = ?lc"
    by (simp add: release_run_def Let_def remembers_forget on_history_def split: option.split)
  have "remembers (ps_mem (release_run r s)) = remembers (ps_mem s) - set_option (record_identity r)"
    by (simp add: release_run_def Let_def remembers_forget on_history_def split: option.split)
  then show "tracked (release_run r s)"
    using h lc release_runs [OF h(1) assms(2) refl] by (auto simp: tracked_def)
  show "known (ps_lifecycles (release_run r s)) r2" if "known (ps_lifecycles s) r2" "has_identity r2 \<Longrightarrow> run_key r2 \<noteq> run_key r"
    unfolding lc by (rule release_runs(3) [OF h(1) assms(2) refl that])
qed


text \<open>What a call has to keep for the invariant.\<close>

definition memory :: "'k proc_state \<Rightarrow> ledger \<times> filter_cache \<times> lifecycles" where
  "memory s = (cm_ledger (ps_mem s), cm_cache (ps_mem s), ps_lifecycles s)"

lemma tracked_memory_iff: "memory s' = memory s \<Longrightarrow> tracked s' = tracked s"
  by (simp add: memory_def tracked_def remembers_def)

lemma memory_same: "memory s' = memory s \<Longrightarrow> ps_lifecycles s' = ps_lifecycles s \<and> remembers (ps_mem s') = remembers (ps_mem s)"
  by (simp add: memory_def remembers_def)

lemma keeps_on_kernel [keeping]: "keeps memory (on_kernel m)"
  by (auto simp: keeps_def on_kernel_def memory_def split: prod.splits)

lemma keeps_inspect [keeping]: "keeps memory (inspect e cid)"
  unfolding inspect_def by (intro keeping)

lemma keeps_verify_pinned [keeping]: "keeps memory (verify_pinned e cid st pidfd h grants)"
  unfolding verify_pinned_def by (intro keeping)

lemma keeps_open_recorded [keeping]: "keeps memory (open_recorded e r i)"
proof -
  have "memory s' = memory s" if "open_recorded e r i s = (res, s')" for s res s'
    using that keepsD [OF keeps_on_kernel, of "handle_open (e_sys e) (id_path i)" s]
    by (auto simp: open_recorded_def split: prod.splits sum.splits handle_error.splits)
  then show ?thesis by (simp add: keeps_def)
qed

lemma open_recorded_identity: "open_recorded e r i s = (Inr (RecordedOpen h), s') \<Longrightarrow> h_identity h = i"
  by (auto simp: open_recorded_def split: prod.splits sum.splits handle_error.splits if_splits)

lemma keeps_compute_desired [keeping]: "keeps memory (compute_desired e cid info cfg)"
proof -
  have "memory s' = memory s" if "collect_devices e mounts g c s = (res, s')" for mounts g c s res s'
    using that by (auto simp: collect_devices_def dest!: keepsD [OF keeps_on_kernel] split: prod.splits sum.splits if_splits)
  then show ?thesis unfolding keeps_def compute_desired_def by (auto split: prod.splits sum.splits if_splits)
qed

lemma set_tracked:
  assumes "controller (e_set_rules e)" and "tracked s" and "h_identity h \<in> identities (ps_lifecycles s)"
    and "on_mem (e_set_rules e v h rs) s = (r, s')"
  shows "tracked s'" and "ps_lifecycles s' = ps_lifecycles s"
proof -
  obtain m where m: "e_set_rules e v h rs (ps_mem s) = (r, m)" "s' = s\<lparr>ps_mem := m\<rparr>"
    using assms(4) by (auto simp: on_mem_def split: prod.splits)
  show "tracked s'" using controller.remembered [OF assms(1) m(1)] assms(2,3) m(2)
    unfolding tracked_def remembers_def by simp blast
  show "ps_lifecycles s' = ps_lifecycles s" using m(2) by simp
qed

lemma known_identity: "known lc r \<Longrightarrow> lr_cgroup r = Some cg \<Longrightarrow> rc_identity cg \<in> identities lc"
  by (auto simp: known_def has_identity_def record_identity_def intro!: in_identities)


lemma revoke_at_tracked:
  assumes "controller (e_set_rules e)" and "tracked s" and "known (ps_lifecycles s) r" and "revoke_at e r s = (res, s')"
  shows "tracked s' \<and> (\<forall>r2. known (ps_lifecycles s) r2 \<longrightarrow> (has_identity r2 \<longrightarrow> run_key r2 \<noteq> run_key r) \<longrightarrow> known (ps_lifecycles s') r2)"
proof (cases "lr_cgroup r")
  case None
  then show ?thesis using assms by (auto simp: revoke_at_def retS_def)
next
  case (Some cg)
  obtain rec s1 where o: "open_recorded e r (rc_identity cg) s = (rec, s1)" by fastforce
  have s1: "tracked s1" "ps_lifecycles s1 = ps_lifecycles s"
    using keepsD [OF keeps_open_recorded o] tracked_memory_iff memory_same assms(2) by blast+
  show ?thesis
  proof (cases rec)
    case (Inl x)
    then show ?thesis using assms(4) Some o s1 by (simp add: revoke_at_def bindS_def)
  next
    case (Inr rec)
    show ?thesis
    proof (cases rec)
      case (RecordedGone why)
      then have "s' = release_run r s1" using assms(4) Some o Inr by (simp add: revoke_at_def bindS_def)
      then show ?thesis using release_run_tracked [OF s1(1), of r] s1(2) assms(3) by auto
    next
      case (RecordedOpen h)
      obtain x s2 where x: "on_mem (e_set_rules e (rc_version cg) h []) s1 = (x, s2)" by fastforce
      have "h_identity h = rc_identity cg" using open_recorded_identity o Inr RecordedOpen by blast
      then have s2: "tracked s2" "ps_lifecycles s2 = ps_lifecycles s"
        using set_tracked [OF assms(1) s1(1) _ x] known_identity [OF assms(3) Some] s1(2) by simp_all
      have m: "keeps_runs (ps_lifecycles s2) (mark_revoked cid started_at (ps_lifecycles s2))" for cid started_at
        using s2(1) by (intro keeps_mark_revoked) (simp add: tracked_def)
      have "s' = s2 \<or> s' = on_history (mark_revoked (lr_container_id r) (lr_started_at r)) s2"
        using assms(4) Some o Inr RecordedOpen x by (auto simp: revoke_at_def bindS_def split: sum.splits if_splits)
      moreover have "tracked (on_history (mark_revoked cid started_at) s2)" for cid started_at
        by (rule tracked_history [OF s2(1)]) (rule m)
      ultimately show ?thesis using s2 m by (auto simp: keeps_runs_def on_history_def)
    qed
  qed
qed

lemma revoke_records_tracked:
  assumes "controller (e_set_rules e)"
  shows "tracked s \<Longrightarrow> \<forall>r \<in> set rs. known (ps_lifecycles s) r \<Longrightarrow> distinct (map run_key (filter has_identity rs))
    \<Longrightarrow> revoke_records e rs s = (errs, s') \<Longrightarrow> tracked s'"
proof (induction rs arbitrary: s errs)
  case (Cons r rs)
  show ?case
  proof (cases "has_identity r")
    case False
    then show ?thesis using Cons by simp
  next
    case True
    obtain res s1 where s1: "revoke_at e r s = (res, s1)" by fastforce
    note at = revoke_at_tracked [OF assms Cons.prems(1) _ s1]
    have "\<forall>r2 \<in> set rs. has_identity r2 \<longrightarrow> run_key r2 \<noteq> run_key r"
      using Cons.prems(3) True by (auto simp: image_iff)
    then have "\<forall>r2 \<in> set rs. known (ps_lifecycles s1) r2" using at Cons.prems(2) by simp
    then show ?thesis using Cons.IH [of s1] at Cons.prems s1 True by (auto split: prod.splits)
  qed
qed simp


lemma sweep_record_tracked:
  assumes "controller (e_set_rules e)" and "tracked s" and "known (ps_lifecycles s) r"
    and "sweep_record e now dry_run r s = (gone, s')"
  shows "tracked s' \<and> (\<forall>r2. known (ps_lifecycles s) r2 \<longrightarrow> (has_identity r2 \<longrightarrow> has_identity r \<longrightarrow> run_key r2 \<noteq> run_key r)
    \<longrightarrow> known (ps_lifecycles s') r2)"
proof (cases "lr_cgroup r")
  case None
  then have r: "record_identity r = None" "\<not> has_identity r" by (simp_all add: record_identity_def has_identity_def)
  then have "on_history (lifecycle_release r) s = release_run r s" by (simp add: release_run_def Let_def)
  then have "s' = s \<or> s' = release_run r s" using assms(4) None by (auto simp: sweep_record_def split: if_splits)
  moreover have "run_key r2 \<noteq> run_key r" if "known (ps_lifecycles s) r2" "has_identity r2" for r2
    using that r assms(3) by (auto simp: known_def run_ok_def run_key_def)
  ultimately show ?thesis using assms(2) release_run_tracked [OF assms(2,3)] by auto
next
  case (Some cg)
  obtain x s1 where x: "on_kernel (cgroup_gone (e_sys e) (rc_identity cg)) s = (x, s1)" by fastforce
  have s1: "tracked s1" "ps_lifecycles s1 = ps_lifecycles s"
    using keepsD [OF keeps_on_kernel x] tracked_memory_iff memory_same assms(2) by blast+
  have "s' = s1 \<or> s' = release_run r s1 \<or> s' = snd (revoke_at e r s1)"
    using assms(4) Some x by (auto simp: sweep_record_def split: if_splits sum.splits bool.splits)
  moreover have "tracked (release_run r s1)" "known (ps_lifecycles s) r2 \<Longrightarrow> (has_identity r2 \<Longrightarrow> run_key r2 \<noteq> run_key r)
      \<Longrightarrow> known (ps_lifecycles (release_run r s1)) r2" for r2
    using release_run_tracked [OF s1(1), of r] s1(2) assms(3) by simp_all
  moreover have "tracked (snd (revoke_at e r s1)) \<and> (\<forall>r2. known (ps_lifecycles s) r2 \<longrightarrow> (has_identity r2 \<longrightarrow> run_key r2 \<noteq> run_key r)
      \<longrightarrow> known (ps_lifecycles (snd (revoke_at e r s1))) r2)"
    using revoke_at_tracked [OF assms(1) s1(1), of r "fst (revoke_at e r s1)"] s1(2) assms(3) by simp
  moreover have "has_identity r" using Some by (simp add: has_identity_def)
  ultimately show ?thesis using s1 by metis
qed

lemma sweep_records_tracked:
  assumes "controller (e_set_rules e)"
  shows "tracked s \<Longrightarrow> \<forall>r \<in> set rs. known (ps_lifecycles s) r \<Longrightarrow> distinct (map run_key (filter has_identity rs))
    \<Longrightarrow> sweep_records e now dry_run rs s = (n, s') \<Longrightarrow> tracked s'"
proof (induction rs arbitrary: s n)
  case (Cons r rs)
  obtain gone s1 where s1: "sweep_record e now dry_run r s = (gone, s1)" by fastforce
  note one = sweep_record_tracked [OF assms Cons.prems(1) _ s1]
  have "\<forall>r2 \<in> set rs. has_identity r2 \<longrightarrow> has_identity r \<longrightarrow> run_key r2 \<noteq> run_key r"
    using Cons.prems(3) by (simp add: image_iff split: if_splits) metis
  then have "\<forall>r2 \<in> set rs. known (ps_lifecycles s1) r2" using one Cons.prems(2) by simp
  moreover have "distinct (map run_key (filter has_identity rs))" using Cons.prems(3) by (simp split: if_splits)
  ultimately show ?case using Cons.IH [of s1] one Cons.prems s1 by (auto split: prod.splits)
qed simp

lemma known_record: "history_runs lc \<Longrightarrow> r \<in> set (lifecycle_records cid lc) \<Longrightarrow> known lc r"
  using records_runs [of lc r cid] by (auto simp: known_def run_ok_def)

lemma runs_ok_keys: "runs_ok cid rs \<Longrightarrow> distinct (map run_key (filter has_identity rs))"
  by (auto simp: runs_ok_def distinct_map inj_on_def run_key_def)

lemma all_keys:
  "bt_sorted lc \<Longrightarrow> \<forall>p \<in> set lc. runs_ok (fst p) (snd p) \<Longrightarrow> distinct (map run_key (filter has_identity (lifecycle_all lc)))"
proof (induction lc)
  case (Cons p lc)
  have key: "fst (run_key r) = fst q" if "q \<in> set (p # lc)" "r \<in> set (snd q)" for q r
  proof -
    have "runs_ok (fst q) (snd q)" using Cons.prems(2) that(1) by blast
    then show ?thesis using that(2) by (simp add: runs_ok_def run_ok_def run_key_def)
  qed
  have new: "\<forall>q \<in> set lc. fst q \<noteq> fst p" using Cons.prems(1) by (fastforce simp: bt_sorted_def)
  have "run_key r \<noteq> run_key r2" if r: "r \<in> set (snd p)" "r2 \<in> set (lifecycle_all lc)" for r r2
  proof -
    obtain q where "q \<in> set lc" "r2 \<in> set (snd q)" using r(2) by (auto simp: lifecycle_all_def)
    then show ?thesis using key [of p r] key [of q r2] r(1) new by auto
  qed
  then have "run_key ` set (filter has_identity (snd p)) \<inter> run_key ` set (filter has_identity (lifecycle_all lc)) = {}"
    unfolding set_filter by blast
  moreover have "distinct (map run_key (filter has_identity (lifecycle_all lc)))"
    using Cons.prems by (intro Cons.IH) (simp_all add: bt_sorted_def)
  moreover have "distinct (map run_key (filter has_identity (snd p)))" using Cons.prems(2) by (intro runs_ok_keys) auto
  moreover have "lifecycle_all (p # lc) = snd p @ lifecycle_all lc" by (simp add: lifecycle_all_def)
  ultimately show ?case by simp
qed (simp add: lifecycle_all_def)

lemma history_all:
  assumes "history_runs lc"
  shows "\<forall>r \<in> set (lifecycle_all lc). known lc r" and "distinct (map run_key (filter has_identity (lifecycle_all lc)))"
proof -
  have s: "bt_sorted lc" using assms by (simp add: history_runs_def)
  then have "distinct (map fst lc)" by (simp add: bt_sorted_def strict_sorted_iff flip: sorted_wrt_map)
  then have get: "lifecycle_records cid lc = rs" if "(cid, rs) \<in> set lc" for cid rs
    using that by (simp add: lifecycle_records_def)
  show "\<forall>r \<in> set (lifecycle_all lc). known lc r"
  proof
    fix r
    assume "r \<in> set (lifecycle_all lc)"
    then obtain p where "p \<in> set lc" "r \<in> set (snd p)" by (auto simp: lifecycle_all_def)
    then show "known lc r" using known_record [OF assms, of r "fst p"] get [of "fst p" "snd p"] by simp
  qed
  show "distinct (map run_key (filter has_identity (lifecycle_all lc)))"
  proof (rule all_keys [OF s], rule ballI)
    show "runs_ok (fst p) (snd p)" if "p \<in> set lc" for p
      using get [of "fst p" "snd p"] that assms unfolding history_runs_def by (metis prod.collapse)
  qed
qed


section \<open>The transactions keep the invariant\<close>

lemma with_now_tracked:
  assumes "tracked s" and "\<And>now. keeps_runs (ps_lifecycles s) (f now (ps_lifecycles s))"
  shows "tracked (with_now e f s)"
proof -
  obtain now s1 where n: "on_kernel (e_now e) s = (now, s1)" by fastforce
  have s1: "tracked s1" "ps_lifecycles s1 = ps_lifecycles s"
    using keepsD [OF keeps_on_kernel n] tracked_memory_iff memory_same assms(1) by blast+
  have "tracked (on_history (f now) s1)" by (rule tracked_history [OF s1(1)]) (simp add: s1(2) assms(2))
  then show ?thesis by (simp add: with_now_def n)
qed

lemma failure_tracked:
  assumes "controller (e_set_rules e)" and "tracked s"
    and "revoke_after_inspect_failure e cid dry_run err s = (res, s')"
  shows "tracked s'"
proof (cases dry_run)
  case True
  then show ?thesis using assms(2,3) by (auto simp: revoke_after_inspect_failure_def Let_def split: if_splits)
next
  case False
  let ?s1 = "with_now e (\<lambda>now. lifecycle_provisional now cid) s"
  obtain errs s2 where s2: "revoke_records e (lifecycle_records cid (ps_lifecycles ?s1)) ?s1 = (errs, s2)" by fastforce
  have t: "tracked ?s1" by (rule with_now_tracked [OF assms(2)]) (use assms(2) in \<open>simp add: tracked_def keeps_provisional\<close>)
  then have h: "history_runs (ps_lifecycles ?s1)" by (simp add: tracked_def)
  have "distinct (map run_key (filter has_identity (lifecycle_records cid (ps_lifecycles ?s1))))"
    using h by (intro runs_ok_keys [of cid]) (simp add: history_runs_def)
  then have "tracked s2" using revoke_records_tracked [OF assms(1) t _ _ s2] known_record [OF h] by blast
  moreover have "s' = s2" using assms(3) False s2 by (auto simp: revoke_after_inspect_failure_def Let_def split: if_splits)
  ultimately show ?thesis by simp
qed

lemma ended_tracked:
  assumes "controller (e_set_rules e)" and "tracked s" and "revoke_ended e cid started_at s = (res, s')"
  shows "tracked s'"
proof (cases "lifecycle_lookup cid started_at (ps_lifecycles s)")
  case None
  then show ?thesis using assms(2,3) by (simp add: revoke_ended_def)
next
  case (Some r)
  have h: "history_runs (ps_lifecycles s)" using assms(2) by (simp add: tracked_def)
  have r: "r \<in> set (lifecycle_records cid (ps_lifecycles s))"
    using Some by (auto simp: lifecycle_lookup_def find_Some_iff)
  have k: "keeps_runs (ps_lifecycles s) (mark_terminal cid started_at (ps_lifecycles s))" by (rule keeps_mark_terminal [OF h])
  let ?s1 = "on_history (mark_terminal cid started_at) s"
  have t: "tracked ?s1" by (rule tracked_history [OF assms(2)]) (rule k)
  have "known (ps_lifecycles s) (r\<lparr>lr_state := Terminal\<rparr>)"
    using known_record [OF h r] by (auto simp: known_def run_ok_def has_identity_def)
  then have "known (ps_lifecycles ?s1) (r\<lparr>lr_state := Terminal\<rparr>)" using k by (simp add: keeps_runs_def on_history_def)
  then show ?thesis using revoke_at_tracked [OF assms(1) t] assms(2,3) Some
    by (auto simp: revoke_ended_def split: if_splits)
qed

lemma terminate_tracked:
  assumes "controller (e_set_rules e)" and "tracked s" and "terminate_locked e cid event_time s = (res, s')"
  shows "tracked s'"
proof -
  have h: "history_runs (ps_lifecycles s)" using assms(2) by (simp add: tracked_def)
  obtain ended lc where t: "lifecycle_terminate (e_time e) cid event_time (ps_lifecycles s) = (ended, lc)" by fastforce
  note k = keeps_terminate [OF h t]
  let ?s1 = "s\<lparr>ps_lifecycles := lc\<rparr>"
  have s1: "tracked ?s1" using assms(2) k(1) by (simp add: tracked_def keeps_runs_def)
  obtain errs s2 where s2: "revoke_records e ended ?s1 = (errs, s2)" by fastforce
  have "tracked s2" using revoke_records_tracked [OF assms(1) s1 _ k(3) s2] k(2) by simp
  then show ?thesis using assms(3) t s2 s1 by (auto simp: terminate_locked_def Let_def split: if_splits)
qed

lemma sweep_tracked:
  assumes "controller (e_set_rules e)" and "tracked s" and "sweep_locked e s = (n, s')"
  shows "tracked s'"
proof -
  obtain now s1 where n: "on_kernel (e_now e) s = (now, s1)" by fastforce
  have s1: "tracked s1" using keepsD [OF keeps_on_kernel n] tracked_memory_iff assms(2) by blast
  then have h: "history_runs (ps_lifecycles s1)" by (simp add: tracked_def)
  show ?thesis using sweep_records_tracked [OF assms(1) s1 history_all [OF h]] assms(3) n by (simp add: sweep_locked_def)
qed

lemma revoke_moved_tracked:
  assumes "controller (e_set_rules e)" and "tracked s" and "rc_identity previous \<in> identities (ps_lifecycles s)"
    and "revoke_moved e r previous s = (res, s')"
  shows "tracked s'" and "ps_lifecycles s' = ps_lifecycles s"
    and "res = Inr () \<Longrightarrow> rc_identity previous \<notin> remembers (ps_mem s')"
proof -
  obtain rec s1 where o: "open_recorded e r (rc_identity previous) s = (rec, s1)" by fastforce
  have s1: "tracked s1" "ps_lifecycles s1 = ps_lifecycles s"
    using keepsD [OF keeps_open_recorded o] tracked_memory_iff memory_same assms(2) by blast+
  have set: "tracked s2 \<and> ps_lifecycles s2 = ps_lifecycles s"
    if "rec = Inr (RecordedOpen h)" "on_mem (e_set_rules e (rc_version previous) h []) s1 = (x, s2)" for h x s2
    using set_tracked [OF assms(1) s1(1) _ that(2)] open_recorded_identity [of e r _ s h s1] o that(1) s1(2) assms(3) by simp
  obtain s2 where s2: "tracked s2" "ps_lifecycles s2 = ps_lifecycles s"
    and s': "s' = forget (rc_identity previous) s2 \<or> s' = s2 \<and> res \<noteq> Inr ()"
  proof (cases rec)
    case (Inl x)
    then show ?thesis using that [of s1] s1 assms(4) o by (auto simp: revoke_moved_def bindS_def)
  next
    case (Inr rec')
    then show ?thesis
      using that s1 set assms(4) o
      by (cases rec') (auto simp: revoke_moved_def bindS_def split: prod.splits sum.splits if_splits)
  qed
  show "tracked s'" using s' s2 by (auto simp: tracked_def remembers_forget)
  show "ps_lifecycles s' = ps_lifecycles s" using s' s2 by (auto simp: remembers_forget)
  show "rc_identity previous \<notin> remembers (ps_mem s')" if "res = Inr ()" using s' that by (auto simp: remembers_forget)
qed

text \<open>After the revocation in the cgroup the run left, nothing is remembered of that cgroup.\<close>

definition left_previous :: "string \<Rightarrow> string \<Rightarrow> identity \<Rightarrow> 'k proc_state \<Rightarrow> bool" where
  "left_previous cid started_at i s \<longleftrightarrow> (\<forall>r previous. lifecycle_lookup cid started_at (ps_lifecycles s) = Some r
     \<longrightarrow> lr_cgroup r = Some previous \<longrightarrow> rc_identity previous = i \<or> rc_identity previous \<notin> remembers (ps_mem s))"

lemma leave_previous_tracked:
  assumes "controller (e_set_rules e)" and "tracked s" and "leave_previous e cid st pidfd h s = (res, s')"
  shows "tracked s' \<and> (res = Inr () \<longrightarrow> left_previous cid (cs_started_at st) (h_identity h) s')"
proof (cases "lifecycle_lookup cid (cs_started_at st) (ps_lifecycles s)")
  case None
  then show ?thesis using assms(2,3) by (auto simp: leave_previous_def left_previous_def)
next
  case (Some moved)
  show ?thesis
  proof (cases "\<exists>previous. lr_cgroup moved = Some previous \<and> rc_identity previous \<noteq> h_identity h")
    case False
    then show ?thesis using assms(2,3) Some by (auto simp: leave_previous_def left_previous_def split: option.splits if_splits)
  next
    case True
    then obtain previous where p: "lr_cgroup moved = Some previous" "rc_identity previous \<noteq> h_identity h" by blast
    obtain x s1 where x: "revoke_moved e moved previous s = (x, s1)" by fastforce
    have "moved \<in> set (lifecycle_records cid (ps_lifecycles s))" using Some by (auto simp: lifecycle_lookup_def find_Some_iff)
    then have "rc_identity previous \<in> identities (ps_lifecycles s)" using p(1) by (auto simp: record_identity_def intro: in_identities)
    note m = revoke_moved_tracked [OF assms(1,2) this x]
    show ?thesis
    proof (cases x)
      case (Inl err)
      then show ?thesis using assms(3) Some p x m(1) by (auto simp: leave_previous_def bindS_def)
    next
      case (Inr u)
      then have "verify_pinned e cid st pidfd h True s1 = (res, s')"
        using assms(3) Some p x by (simp add: leave_previous_def bindS_def)
      note k = keepsD [OF keeps_verify_pinned this]
      have "tracked s'" using tracked_memory_iff [OF k] m(1) by simp
      moreover have "left_previous cid (cs_started_at st) (h_identity h) s'"
        using memory_same [OF k] m(2,3) Inr Some p(1) by (auto simp: left_previous_def)
      ultimately show ?thesis by simp
    qed
  qed
qed

lemma verify_tracked:
  assumes "tracked s" and "started_at \<noteq> []" and "left_previous cid started_at (rc_identity cg) s"
    and "s' = with_now e (\<lambda>now. lifecycle_verify (e_time e) now cid started_at cg) s"
  shows "tracked s'" and "rc_identity cg \<in> identities (ps_lifecycles s')"
proof -
  obtain now s1 where n: "on_kernel (e_now e) s = (now, s1)" by fastforce
  have s1: "tracked s1" "ps_lifecycles s1 = ps_lifecycles s" "remembers (ps_mem s1) = remembers (ps_mem s)"
    using keepsD [OF keeps_on_kernel n] tracked_memory_iff memory_same assms(1) by blast+
  have h: "history_runs (ps_lifecycles s)" "remembers (ps_mem s) \<subseteq> identities (ps_lifecycles s)"
    using assms(1) by (simp_all add: tracked_def)
  have s': "ps_lifecycles s' = lifecycle_verify (e_time e) now cid started_at cg (ps_lifecycles s)" "ps_mem s' = ps_mem s1"
    using assms(4) n s1(2) by (simp_all add: with_now_def on_history_def)
  note v = verify_runs [OF h(1) assms(2) s'(1)]
  show "rc_identity cg \<in> identities (ps_lifecycles s')" by (rule v(2))
  have "i \<in> identities (ps_lifecycles s')" if "i \<in> remembers (ps_mem s)" for i
    using v(2) v(3) [of i] that h(2) assms(3) by (cases "i = rc_identity cg") (auto simp: left_previous_def)
  then show "tracked s'" using v(1) s1(3) s'(2) by (auto simp: tracked_def)
qed

lemma apply_handle_tracked:
  assumes "controller (e_set_rules e)" and "tracked s" and "cs_started_at st \<noteq> []"
    and "apply_handle e cid st privileged rs pidfd version h s = (res, s')"
  shows "tracked s'"
proof -
  obtain x s1 where x: "verify_pinned e cid st pidfd h (rs \<noteq> []) s = (x, s1)" by fastforce
  have s1: "tracked s1" using tracked_memory_iff [OF keepsD [OF keeps_verify_pinned x]] assms(2) by simp
  obtain y s2 where y: "leave_previous e cid st pidfd h s1 = (y, s2)" by fastforce
  note s2 = leave_previous_tracked [OF assms(1) s1 y]
  let ?cg = "\<lparr>rc_identity = h_identity h, rc_version = version, rc_privileged = privileged\<rparr>"
  define s3 where "s3 = with_now e (\<lambda>now. lifecycle_verify (e_time e) now cid (cs_started_at st) ?cg) s2"
  obtain z s4 where z: "on_mem (e_set_rules e version h rs) s3 = (z, s4)" by fastforce
  have "tracked s4" if "y = Inr ()"
  proof -
    have "left_previous cid (cs_started_at st) (rc_identity ?cg) s2" using s2 that by simp
    note s3 = verify_tracked [OF conjunct1 [OF s2] assms(3) this s3_def]
    show ?thesis using set_tracked [OF assms(1) s3(1) _ z] s3(2) by simp
  qed
  moreover have "s' = s1 \<or> s' = s2 \<or> y = Inr () \<and> s' = s4"
    using assms(4) x y z by (auto simp: apply_handle_def bindS_def map_errS_def simp flip: s3_def split: sum.splits)
  ultimately show ?thesis using s1 s2 by blast
qed

lemma apply_pinned_tracked:
  assumes "controller (e_set_rules e)" and "tracked s" and "cs_started_at st \<noteq> []"
    and "apply_pinned e cid st privileged rs s = (res, s')"
  shows "tracked s'"
proof -
  have step: "tracked s'" if "bindS (map_errS g (on_kernel m)) f s = (res, s')" "tracked s"
    "\<And>x s. tracked s \<Longrightarrow> f x s = (res, s') \<Longrightarrow> tracked s'" for g m f s
  proof -
    obtain y s1 where y: "on_kernel m s = (y, s1)" by fastforce
    have "tracked s1" using tracked_memory_iff [OF keepsD [OF keeps_on_kernel y]] that(2) by simp
    then show ?thesis using that(1,3) y by (auto simp: bindS_def map_errS_def split: sum.splits)
  qed
  show ?thesis using assms(4) unfolding apply_pinned_def
    by (elim step) (auto intro: assms(2) apply_handle_tracked [OF assms(1) _ assms(3)])
qed

lemma running_tracked:
  assumes "controller (e_set_rules e)" and "tracked s" and "cs_started_at st \<noteq> []"
    and "reconcile_running e cid info st cfg s = (res, s')"
  shows "tracked s'"
proof -
  obtain des s1 where d: "compute_desired e cid info cfg s = (des, s1)" by fastforce
  have s1: "tracked s1" using tracked_memory_iff [OF keepsD [OF keeps_compute_desired d]] assms(2) by simp
  show ?thesis using apply_pinned_tracked [OF assms(1) s1 assms(3)] s1 assms(4) d
    by (auto simp: reconcile_running_def Let_def split: if_splits prod.splits sum.splits)
qed

text \<open>What the Docker API documents of a running container: it has a start time.\<close>

definition reports_start :: "('k, 'f, 'n, 'p) proc_env \<Rightarrow> bool" where
  "reports_start e \<longleftrightarrow> (\<forall>cid k info st k'. e_inspect e cid k = (Inr info, k') \<longrightarrow> ci_state info = Some st
     \<longrightarrow> cs_running st \<longrightarrow> cs_started_at st \<noteq> [])"

lemma reconcile_tracked:
  assumes "controller (e_set_rules e)" and "tracked s" and "reports_start e" and "reconcile e cid canceled s = (res, s')"
  shows "tracked s'"
proof -
  obtain r s1 where r: "inspect e cid s = (r, s1)" by fastforce
  have s1: "tracked s1" using tracked_memory_iff [OF keepsD [OF keeps_inspect r]] assms(2) by simp
  have l: "reconcile_locked e cid canceled r s1 = (res, s')" using assms(4) r by (simp add: reconcile_def)
  show ?thesis
  proof (cases r)
    case (Inl err)
    then show ?thesis using l s1 failure_tracked [OF assms(1) s1] by (auto simp: reconcile_locked_def Let_def split: if_splits)
  next
    case (Inr info)
    have start: "cs_started_at st \<noteq> []" if "ci_state info = Some st" "cs_running st" for st
    proof -
      obtain x k where x: "e_inspect e cid (cm_kern (ps_mem s)) = (x, k)" by fastforce
      then have "x = Inr info" using r Inr by (cases x) (auto simp: inspect_def map_errS_def on_kernel_def)
      then show ?thesis using x that assms(3) by (auto simp: reports_start_def)
    qed
    show ?thesis
    proof (cases "ci_state info")
      case None
      then show ?thesis using l Inr s1 ended_tracked [OF assms(1) s1] by (auto simp: reconcile_locked_def Let_def split: if_splits)
    next
      case (Some st)
      then show ?thesis using l Inr s1 ended_tracked [OF assms(1) s1] running_tracked [OF assms(1) s1] start
        by (auto simp: reconcile_locked_def Let_def split: if_splits)
    qed
  qed
qed

section \<open>Reachable states\<close>

text \<open>
  The processor starts with nothing remembered. It runs transactions, one at a time; between two
  of them the kernel changes as it likes.
\<close>

inductive proc_step :: "('k, 'f, 'n, 'p) proc_env \<Rightarrow> 'k proc_state \<Rightarrow> 'k proc_state \<Rightarrow> bool" for e where
  step_tx: "proc_step e s (run_tx e tx s)"
| step_requester: "proc_step e s (set_pass_requester s)"
| step_kernel: "proc_step e s (s\<lparr>ps_mem := (ps_mem s)\<lparr>cm_kern := k\<rparr>\<rparr>)"

inductive_cases proc_stepE: "proc_step e s s'"

definition proc_start :: "runtime \<Rightarrow> 'k cgroup_mem \<Rightarrow> 'k proc_state" where
  "proc_start rt m = \<lparr>ps_mem = m\<lparr>cm_ledger := Map.empty, cm_cache := Map.empty\<rparr>, ps_lifecycles = [],
     ps_store = new_store rt, ps_requested = None\<rparr>"

inductive proc_reachable :: "('k, 'f, 'n, 'p) proc_env \<Rightarrow> 'k proc_state \<Rightarrow> bool" for e where
  reach_start: "proc_reachable e (proc_start rt m)"
| reach_step: "proc_reachable e s \<Longrightarrow> proc_step e s s' \<Longrightarrow> proc_reachable e s'"

lemma step_tracked:
  assumes "controller (e_set_rules e)" and "reports_start e" and "tracked s" and "proc_step e s s'"
  shows "tracked s'"
  using assms(4)
proof (cases rule: proc_step.cases)
  case (step_tx tx)
  show ?thesis
  proof (cases tx)
    case (TxReconcile cid canceled)
    then show ?thesis using step_tx reconcile_tracked [OF assms(1,3,2)] by (metis run_tx.simps(1) prod.collapse)
  next
    case (TxTerminate cid event_time)
    then show ?thesis using step_tx terminate_tracked [OF assms(1,3)] by (metis run_tx.simps(2) prod.collapse)
  next
    case TxSweep
    then show ?thesis using step_tx sweep_tracked [OF assms(1,3)] by (metis run_tx.simps(3) prod.collapse)
  next
    case (TxPublish rt)
    then show ?thesis using step_tx assms(3) by (simp add: publish_and_reconcile_def publish_def tracked_def)
  qed
next
  case step_requester
  then show ?thesis using assms(3) by (simp add: set_pass_requester_def tracked_def)
next
  case (step_kernel k)
  then show ?thesis using assms(3) by (simp add: tracked_def remembers_def)
qed

lemma reachable_tracked:
  assumes "controller (e_set_rules e)" and "reports_start e" and "proc_reachable e s"
  shows "tracked s"
  using assms(3)
proof (induction rule: proc_reachable.induct)
  case (reach_start rt m)
  then show ?case
    by (simp add: tracked_def proc_start_def remembers_def history_runs_def bt_sorted_def lifecycle_records_def runs_ok_def)
next
  case (reach_step s s')
  then show ?case using step_tracked [OF assms(1,2)] by blast
qed

text \<open>
  C6. In every reachable state of a processor with a production controller, a cgroup of which the
  ledger or the filter cache remembers anything is the cgroup of a record of the history: when the
  last record that names a cgroup is released, the state kept for it is gone too. The hypothesis on
  Docker is that it reports the start time of a running container.
\<close>

theorem memory_tracked:
  assumes "proc_reachable e s" and "e_set_rules e = cgroup_new ka" and "reports_start e"
    and "cm_ledger (ps_mem s) i \<noteq> None \<or> cm_cache (ps_mem s) i \<noteq> None"
  shows "\<exists>cid r. r \<in> set (lifecycle_records cid (ps_lifecycles s)) \<and> record_identity r = Some i"
proof -
  have "controller (e_set_rules e)" unfolding assms(2) by (rule production.controller_axioms)
  then have "tracked s" using reachable_tracked assms(1,3) by blast
  then have "i \<in> identities (ps_lifecycles s)" using assms(4) by (auto simp: tracked_def remembers_def)
  then show ?thesis by (rule identitiesE) blast
qed

end
