(* ===== verification/Fake_Devfs.thy ===== *)
theory Fake_Devfs
  imports Rules_Correct "HOL-Library.AList"
begin

text \<open>
  The scripted \<open>/dev\<close> of \<open>src/src/processor/fake_devfs.rs\<close>: tables of what each name resolves
  to, and a directory tree that a walk enumerates. It is an instance of \<open>devfs\<close> on which the
  properties of the collection are exercised.
\<close>

record fake_node =
  fn_kind :: node_kind
  fn_path :: string

record fake_dev =
  fd_root :: string
  fd_tree :: fs_tree
  fd_nodes :: "string \<Rightarrow> fake_node option"
  fd_errs :: "string \<Rightarrow> sys_error option"
  fd_links :: "string \<Rightarrow> string option"
  fd_uevents :: "device_id \<Rightarrow> string option"
  fd_walk_errs :: "string \<Rightarrow> sys_error option"

definition fake_dev_new :: "string \<Rightarrow> fake_dev" where
  "fake_dev_new root = \<lparr>fd_root = root, fd_tree = FsDir [] None, fd_nodes = Map.empty, fd_errs = Map.empty,
     fd_links = Map.empty, fd_uevents = Map.empty, fd_walk_errs = Map.empty\<rparr>"

text \<open>Making a file or a directory below a tree, with the directories above it.\<close>

fun tree_make :: "fs_tree \<Rightarrow> string list \<Rightarrow> fs_tree \<Rightarrow> fs_tree" where
  "tree_make leaf [] t = (case t of FsDir es err \<Rightarrow> t | FsFile \<Rightarrow> leaf)"
| "tree_make leaf (p # ps) (FsDir es err) =
     (case map_of es p of
        None \<Rightarrow> FsDir (es @ [(p, if ps = [] then leaf else tree_make leaf ps (FsDir [] None))]) err
      | Some sub \<Rightarrow> FsDir (AList.update p (tree_make leaf ps sub) es) err)"
| "tree_make leaf (p # ps) FsFile = FsFile"

definition fake_touch :: "string \<Rightarrow> fake_dev \<Rightarrow> fake_dev" where
  "fake_touch rel s = s\<lparr>fd_tree := tree_make FsFile (split_on (CHR ''/'') rel) (fd_tree s)\<rparr>"

definition put_node :: "string \<Rightarrow> node_kind \<Rightarrow> string \<Rightarrow> fake_dev \<Rightarrow> fake_dev" where
  "put_node rel nk path s = s\<lparr>fd_nodes := (fd_nodes s)(rel \<mapsto> \<lparr>fn_kind = nk, fn_path = path\<rparr>)\<rparr>"

definition fake_device :: "string \<Rightarrow> device_id \<Rightarrow> string \<Rightarrow> fake_dev \<Rightarrow> fake_dev" where
  "fake_device rel i devname s =
     (let s1 = put_node rel (NodeDevice i) (''/dev/'' @ rel) (fake_touch rel s) in
      s1\<lparr>fd_uevents := (fd_uevents s1)(i \<mapsto> ''MAJOR='' @ show_int (uint (dev_major i)) @ ''\<newline>DEVNAME='' @ devname @ ''\<newline>'')\<rparr>)"

text \<open>The target is registered: the index of a missing one is a panic of the fake.\<close>

definition fake_alias :: "string \<Rightarrow> string \<Rightarrow> fake_dev \<Rightarrow> fake_dev" where
  "fake_alias rel target s =
     (let s1 = fake_touch rel s in
      case fd_nodes s1 target of
        Some n \<Rightarrow> s1\<lparr>fd_nodes := (fd_nodes s1)(rel \<mapsto> n)\<rparr>
      | None \<Rightarrow> s1)"

definition fake_abs_link :: "string \<Rightarrow> string \<Rightarrow> fake_dev \<Rightarrow> fake_dev" where
  "fake_abs_link rel target s =
     (let s1 = fake_touch rel s in
      s1\<lparr>fd_errs := (fd_errs s1)(rel \<mapsto> sys_error_new (''openat2 '' @ rel) EXDEV),
         fd_links := (fd_links s1)(rel \<mapsto> target)\<rparr>)"

definition fake_directory :: "string \<Rightarrow> fake_dev \<Rightarrow> fake_dev" where
  "fake_directory rel s =
     put_node rel NodeDir (''/dev/'' @ rel)
       (s\<lparr>fd_tree := tree_make (FsDir [] None) (split_on (CHR ''/'') rel) (fd_tree s)\<rparr>)"

definition fake_other :: "string \<Rightarrow> node_kind \<Rightarrow> string \<Rightarrow> fake_dev \<Rightarrow> fake_dev" where
  "fake_other rel nk path s = put_node rel nk path (fake_touch rel s)"

section \<open>The operations\<close>

definition fake_open :: "string \<Rightarrow> (fake_dev, fake_node, sys_error) call" where
  "fake_open rel s =
     (let parts = split_on (CHR ''/'') rel;
          failed = List.map_filter (\<lambda>index. fd_errs s (join_with ''/'' (take (Suc index) parts))) [0 ..< length parts]
      in (case failed of
            e # _ \<Rightarrow> Inl e
          | [] \<Rightarrow> ok_or (sys_error_new (''openat2 '' @ rel) ENOENT) (fd_nodes s rel), s))"

definition fake_read_link :: "string \<Rightarrow> (fake_dev, string, sys_error) call" where
  "fake_read_link rel s = (ok_or (sys_error_new [] EINVAL) (fd_links s rel), s)"

definition fake_read_uevent :: "device_id \<Rightarrow> (fake_dev, string, sys_error) call" where
  "fake_read_uevent i s =
     (ok_or (sys_error_new (''read uevent '' @ device_id_text i) ENOENT) (fd_uevents s i), s)"

fun subtree :: "string list \<Rightarrow> fs_tree \<Rightarrow> fs_tree option" where
  "subtree [] t = Some t"
| "subtree (p # ps) (FsDir es err) = (case map_of es p of None \<Rightarrow> None | Some t \<Rightarrow> subtree ps t)"
| "subtree (p # ps) FsFile = None"

definition below_root :: "fake_dev \<Rightarrow> string \<Rightarrow> string" where
  "below_root s path = (case relative_beneath (fd_root s) path of None \<Rightarrow> [] | Some r \<Rightarrow> if r = ''.'' then [] else r)"

definition fake_walk :: "string \<Rightarrow> fake_dev \<Rightarrow> visit list \<times> fake_dev" where
  "fake_walk base s =
     (let vs = (case subtree (elements (below_root s base)) (fd_tree s) of
                  None \<Rightarrow> [(base, False, Some (sys_error_new (''lstat '' @ base) ENOENT))]
                | Some t \<Rightarrow> tree_visits base t)
      in (map (\<lambda>(path, is_dir, err).
             case (err, fd_walk_errs s (below_root s path)) of
               (None, Some injected_err) \<Rightarrow> (path, is_dir, Some injected_err)
             | (e, _) \<Rightarrow> (path, is_dir, e)) vs, s))"

definition fake_devfs :: "string \<Rightarrow> (fake_dev, fake_node) devfs" where
  "fake_devfs root = \<lparr>dev_root = root, dev_open = fake_open, dev_stat = (\<lambda>n s. (Inr (fn_kind n), s)),
     dev_resolved = (\<lambda>n s. (fn_path n, s)), dev_read_link = fake_read_link,
     dev_read_uevent = fake_read_uevent, dev_walk = fake_walk\<rparr>"

definition char_dev :: "u32 \<Rightarrow> u32 \<Rightarrow> device_id" where
  "char_dev ma mi = \<lparr>dev_type = CharDevice, dev_major = ma, dev_minor = mi\<rparr>"

definition DEV_SDA :: device_id where "DEV_SDA = \<lparr>dev_type = BlockDevice, dev_major = 8, dev_minor = 0\<rparr>"
definition DEV_CARD :: device_id where "DEV_CARD = char_dev 226 0"
definition DEV_REND :: device_id where "DEV_REND = char_dev 226 128"
definition DEV_NULL :: device_id where "DEV_NULL = char_dev 1 3"

section \<open>Examples\<close>

text \<open>The limits compared as integers, for evaluation.\<close>

lemma limits_code [code_unfold]:
  "(n < MAX_LINE) = (int n < 65536)" "(MAX_MOUNT_ENTRIES < n) = (4096 < int n)"
  by (auto simp: MAX_LINE_def MAX_MOUNT_ENTRIES_def)

definition dri_dev :: fake_dev where
  "dri_dev = fake_alias ''dri/gpu'' ''dri/card0''
     (fake_device ''dri/renderD128'' DEV_REND ''dri/renderD128''
       (fake_device ''dri/card0'' DEV_CARD ''dri/card0''
         (fake_directory ''dri'' (fake_dev_new ''/tmp/dev''))))"

definition dri_judge :: "string judge" where
  "dri_judge = \<lparr>j_crate = literal_crate, j_global = \<lparr>g_mode = AllMode, g_allow = None, g_deny = Some [''/dev/dri/gpu'']\<rparr>,
     j_container = unlabelled\<rparr>"

definition dri_mounts :: "mount_point list" where
  "dri_mounts = [\<lparr>mp_kind = ''bind'', mp_source = ''/dev/dri'', mp_destination = ''/dev/dri''\<rparr>]"


abbreviation dri_fs :: "(fake_dev, fake_node) devfs" where
  "dri_fs \<equiv> fake_devfs ''/tmp/dev''"

lemma dri_collect: "cr_granted (fst (collect_container_rules dri_fs dri_judge dri_mounts dri_dev)) = [device_rule_of DEV_REND]"
  by code_simp

lemma dri_walk: "mr_errs (fst (walk_mount dri_fs dri_judge ''/dev/dri'' ''/dev/dri'' mount_result_default dri_dev)) = []"
  by code_simp

theorem granted_devices_judged_witness:
  "\<exists>i c. device_rule_of DEV_REND = device_rule_of i \<and> c \<in> set (container_candidates dri_fs dri_judge dri_mounts dri_dev)
    \<and> dev_name (cand_canonical c) \<and> j_authorized dri_judge (cand_canonical c)"
proof -
  have "device_rule_of DEV_REND \<in> set (cr_granted (fst (collect_container_rules dri_fs dri_judge dri_mounts dri_dev)))"
    by (simp add: dri_collect)
  from granted_devices_judged [OF prod.collapse [symmetric] this] show ?thesis by blast
qed

theorem collect_refines_witness:
  "map device_rule_of (filter (grantable (container_candidates dri_fs dri_judge dri_mounts dri_dev))
     (first_devices [] (container_candidates dri_fs dri_judge dri_mounts dri_dev))) = [device_rule_of DEV_REND]"
  using collect_refines [OF prod.collapse [symmetric] refl, of dri_fs dri_judge dri_mounts dri_dev] dri_collect by simp

theorem walk_complete_witness:
  "length (walked_names (lex_join [''/tmp/dev'', rel_to_dev ''/dev/dri''])
     (fst (fake_walk (lex_join [''/tmp/dev'', rel_to_dev ''/dev/dri'']) dri_dev))) \<le> 4096"
proof -
  have "dev_walk dri_fs (lex_join [dev_root dri_fs, rel_to_dev ''/dev/dri'']) dri_dev
      = (fst (fake_walk (lex_join [''/tmp/dev'', rel_to_dev ''/dev/dri'']) dri_dev), dri_dev)"
    by (simp add: fake_devfs_def fake_walk_def Let_def)
  from walk_complete [OF this prod.collapse [symmetric] dri_walk] show ?thesis by (simp add: fake_devfs_def)
qed

end
