(* ===== verification/Fake_Proc.thy ===== *)
theory Fake_Proc
  imports Processor_Memory Fake_Devfs
begin

text \<open>
  A host for the examples of the processor: one container on a v1 host, whose process is in the
  cgroup it is expected in, and the devices of the fake of \<open>/dev\<close>. Every system call answers
  the same each time; a file descriptor is the path it was opened by.
\<close>

definition demo_read :: "string \<Rightarrow> string" where
  "demo_read fd =
     (if fd = ''/proc/42/cgroup'' then ''4:devices:/docker/web\<newline>0::/docker/web\<newline>''
      else if fd = ''/proc/42/mountinfo'' then ''30 25 0:26 / /sys/fs/cgroup/devices rw - cgroup cgroup rw,devices\<newline>''
      else ''42\<newline>'')"

definition demo_sys :: "('k, string) syscalls" where
  "demo_sys = \<lparr>sys_open_dir = (\<lambda>p k. (Inr p, k)), sys_fstat_ino = (\<lambda>fd k. (Inr 7, k)), sys_stat_ino = (\<lambda>p k. (Inr 7, k)),
     sys_openat = (\<lambda>fd n k. (Inr (fd @ ''/'' @ n), k)), sys_read = (\<lambda>fd k. (Inr (demo_read fd), k)),
     sys_pidfd_open = (\<lambda>pid k. (Inr ''pidfd'', k)), sys_poll = (\<lambda>fd k. (Inr 0, k))\<rparr>"

definition refuse :: "('k, 'a, ops_error) call" where
  "refuse = liftS (Inl (OpQuery ENOENT))"

definition demo_access :: "('k, string, nat) kernel_access" where
  "demo_access = \<lparr>ka_files = (\<lambda>fd. \<lparr>f_read = (\<lambda>n k. (Inr [], k)), f_write = (\<lambda>n v k. (Inr (), k))\<rparr>),
     ka_ops = (\<lambda>fd. \<lparr>op_query = refuse, op_load = (\<lambda>_ _. refuse), op_attach = (\<lambda>_ _ _. refuse),
       op_detach = (\<lambda>_. refuse), op_instructions = (\<lambda>_. refuse)\<rparr>), ka_sha = (\<lambda>b. []), ka_rand = (\<lambda>n. Inr 0)\<rparr>"

definition demo_inspect :: container_inspect where
  "demo_inspect = \<lparr>ci_id = ''web'', ci_state = Some \<lparr>cs_running = True, cs_pid = 42, cs_started_at = ''t1''\<rparr>,
     ci_labels = None, ci_privileged = None, ci_mounts = dri_mounts\<rparr>"

definition demo_env :: "(fake_dev, string, fake_node, string) proc_env" where
  "demo_env = \<lparr>e_sys = demo_sys, e_inspect = (\<lambda>cid k. (Inr demo_inspect, k)), e_set_rules = cgroup_new demo_access,
     e_devfs = (\<lambda>k. (Inr dri_fs, k)), e_now = (\<lambda>k. (0, k)), e_time = \<lparr>ts_min = 0, ts_parse = (\<lambda>_. Some 1)\<rparr>,
     e_glob = literal_crate, e_host_root = ''/'', e_proc_root = ''/''\<rparr>"

definition demo_mem :: "'k \<Rightarrow> 'k cgroup_mem" where
  "demo_mem k = \<lparr>cm_kern = k, cm_ledger = Map.empty, cm_cache = Map.empty, cm_probe = ReplaceUnknown, cm_draws = 0\<rparr>"

definition demo_runtime :: "bool \<Rightarrow> runtime" where
  "demo_runtime dry_run = \<lparr>rt_dry_run = dry_run, rt_policy = j_global dri_judge\<rparr>"

definition demo_start :: "bool \<Rightarrow> (fake_dev \<times> string event list) proc_state" where
  "demo_start dry_run = proc_start (demo_runtime dry_run) (demo_mem (dri_dev, []))"

definition demo_after :: "bool \<Rightarrow> (fake_dev \<times> string event list) proc_state" where
  "demo_after dry_run = run_tx (traced demo_env) (TxReconcile ''web'' False) (demo_start dry_run)"

lemma demo_start_trace: "trace (demo_start dry_run) = []" "sn_runtime (ps_store (demo_start dry_run)) = demo_runtime dry_run"
  by (simp_all add: demo_start_def proc_start_def trace_def demo_mem_def new_store_def)

definition demo_set :: "'f event \<Rightarrow> bool" where
  "demo_set ev = (case ev of EvSet v h rs res \<Rightarrow> v = CgroupV1 \<and> rs = [device_rule_of DEV_REND] | _ \<Rightarrow> False)"

lemma demo_sets: "map demo_set (trace (demo_after False)) = replicate 13 False @ [True]"
  by code_simp

lemma demo_trace:
  obtains pre h res where "trace (demo_after False) = pre @ [EvSet CgroupV1 h [device_rule_of DEV_REND] res]"
proof -
  let ?t = "trace (demo_after False)"
  from demo_sets obtain pre ev where t: "?t = pre @ [ev]" "demo_set ev" by (auto simp: map_eq_append_conv)
  then obtain h res where "ev = EvSet CgroupV1 h [device_rule_of DEV_REND] res" by (auto simp: demo_set_def split: event.splits)
  with t(1) show ?thesis by (intro that [of pre h res]) simp
qed

section \<open>The properties on this host\<close>

theorem mutations_guarded_witness:
  "\<exists>pre h res p d info st pidfd. trace (demo_after False) = pre @ [EvSet CgroupV1 h [device_rule_of DEV_REND] res]
    \<and> hd pre = EvInspect ''web'' (Inr info) \<and> ci_state info = Some st \<and> pre = p @ d
    \<and> pinned_before st pidfd h p \<and> check_events ''web'' st pidfd h True d"
proof -
  obtain pre h res where t: "trace (demo_after False) = pre @ [EvSet CgroupV1 h [device_rule_of DEV_REND] res]" by (rule demo_trace)
  from mutations_guarded [OF demo_after_def [of False, symmetric] demo_start_trace(1) t] obtain info st p d pidfd where
    "hd pre = EvInspect ''web'' (Inr info)" "ci_state info = Some st" "pre = p @ d" "pinned_before st pidfd h p"
    "check_events ''web'' st pidfd h True d"
    by (auto simp: reopened_def)
  with t show ?thesis by blast
qed

theorem grants_authorized_witness:
  "\<exists>(info :: container_inspect) c dev k0 k1 k. container_parse literal_crate (or_default (ci_labels info)) = Inr c
    \<and> enabled (j_global dri_judge) c \<and> e_devfs demo_env k0 = (Inr dev, k1)
    \<and> rules_judged \<lparr>j_crate = literal_crate, j_global = j_global dri_judge, j_container = c\<rparr>
         (container_candidates dev \<lparr>j_crate = literal_crate, j_global = j_global dri_judge, j_container = c\<rparr> (ci_mounts info) k)
         [device_rule_of DEV_REND]"
proof -
  obtain pre h res where t: "trace (demo_after False) = pre @ [EvSet CgroupV1 h [device_rule_of DEV_REND] res]" by (rule demo_trace)
  have g: "e_glob demo_env = literal_crate" "rt_policy (demo_runtime False) = j_global dri_judge"
    by (simp_all add: demo_env_def demo_runtime_def)
  from grants_authorized [OF demo_after_def [of False, symmetric] demo_start_trace(1) t list.simps(3) demo_start_trace(2) [symmetric]]
  show ?thesis unfolding g by (elim conjE exE) blast
qed

theorem dry_run_inert_witness:
  "same_memory (demo_start True) (demo_after True) \<and> (\<exists>a. trace (demo_after True) = [EvInspect ''web'' a])"
proof -
  have "rt_dry_run (sn_runtime (ps_store (demo_start True)))" by (simp add: demo_start_trace demo_runtime_def)
  from dry_run_inert [OF demo_after_def [of True, symmetric] demo_start_trace(1) this] show ?thesis by blast
qed

definition demo_reconciled :: "fake_dev proc_state" where
  "demo_reconciled = run_tx demo_env (TxReconcile ''web'' False) (proc_start (demo_runtime False) (demo_mem dri_dev))"

definition demo_identity :: identity where
  "demo_identity = \<lparr>id_path = ''/sys/fs/cgroup/devices/docker/web'', id_inode = 7\<rparr>"

lemma demo_ledger: "cm_ledger (ps_mem demo_reconciled) demo_identity \<noteq> None"
  by code_simp

theorem memory_tracked_witness:
  "\<exists>cid r. r \<in> set (lifecycle_records cid (ps_lifecycles demo_reconciled)) \<and> record_identity r = Some demo_identity"
proof -
  have "proc_reachable demo_env demo_reconciled"
    unfolding demo_reconciled_def by (rule reach_step [OF reach_start step_tx])
  moreover have "e_set_rules demo_env = cgroup_new demo_access" by (simp add: demo_env_def)
  moreover have "reports_start demo_env" by (auto simp: reports_start_def demo_env_def demo_inspect_def)
  ultimately show ?thesis using memory_tracked demo_ledger by blast
qed

end
