(* ===== verification/Coordinator.thy ===== *)
theory Coordinator
  imports Lifecycle
begin

text \<open>
  The state of the coordinator of \<open>src/src/daemon/coordinator.rs\<close> and the operations under its
  lock. An ordered map is an association list sorted by key, as in \<open>Lifecycle\<close>. Wall time is a
  \<open>timestamp\<close>, the monotonic clock an \<open>instant\<close>, both in nanoseconds; an operation that reads a
  clock has the answer as an argument. Log records and metrics are left out.
\<close>

type_synonym instant = int

definition SECOND :: int where "SECOND = 1000000000"
definition MIN_BACKOFF :: int where "MIN_BACKOFF = SECOND"
definition MAX_BACKOFF :: int where "MAX_BACKOFF = 30 * SECOND"
definition PROCESSED_TTL :: int where "PROCESSED_TTL = 60 * SECOND"
definition SWEEP_INTERVAL :: int where "SWEEP_INTERVAL = 60 * SECOND"

definition ACTION_DIE :: string where "ACTION_DIE = ''die''"
definition ACTION_DESTROY :: string where "ACTION_DESTROY = ''destroy''"

text \<open>What a pass reconciles for. The derived equality compares both fields.\<close>

record pass_key =
  pk_generation :: u64
  pk_epoch :: u64

record pending_entry =
  pe_key :: pass_key
  pe_backoff :: int
  pe_due :: instant

record inspected =
  in_at :: timestamp
  in_monotonic :: instant

datatype pass_outcome = PassDone | ListFailed | Superseded

record reservation =
  rv_apply_start :: "timestamp option"
  rv_running :: bool
  rv_reconcile :: bool
  rv_terminate_at :: "timestamp option"

record coord_state =
  co_latest :: pass_key
  co_dirty :: bool
  co_incomplete :: bool
  co_announced :: pass_key
  co_pending :: "(string \<times> pending_entry) list"
  co_processed :: "(string \<times> inspected) list"
  co_in_flight :: "(string \<times> reservation) list"

definition key_default :: pass_key where
  "key_default = \<lparr>pk_generation = 0, pk_epoch = 0\<rparr>"

definition coord_default :: coord_state where
  "coord_default = \<lparr>co_latest = key_default, co_dirty = False, co_incomplete = False, co_announced = key_default,
     co_pending = [], co_processed = [], co_in_flight = []\<rparr>"

section \<open>Requests\<close>

definition retag :: "pass_key \<Rightarrow> (string \<times> pending_entry) list \<Rightarrow> (string \<times> pending_entry) list" where
  "retag key = map (\<lambda>(cid, entry). (cid, entry\<lparr>pe_key := key\<rparr>))"

definition request :: "u64 \<Rightarrow> coord_state \<Rightarrow> coord_state" where
  "request generation st =
     (let latest = \<lparr>pk_generation = max (pk_generation (co_latest st)) generation, pk_epoch = pk_epoch (co_latest st) + 1\<rparr> in
      st\<lparr>co_latest := latest, co_dirty := True, co_incomplete := True, co_pending := retag latest (co_pending st)\<rparr>)"

definition request_reenumeration :: "coord_state \<Rightarrow> coord_state" where
  "request_reenumeration = request 0"

definition take_request :: "coord_state \<Rightarrow> pass_key option \<times> coord_state" where
  "take_request st = (if \<not> co_dirty st then (None, st) else (Some (co_latest st), st\<lparr>co_dirty := False\<rparr>))"

definition redo :: "coord_state \<Rightarrow> coord_state" where
  "redo st = st\<lparr>co_dirty := True\<rparr>"

definition superseded :: "pass_key \<Rightarrow> coord_state \<Rightarrow> bool" where
  "superseded key st \<longleftrightarrow> co_latest st \<noteq> key"

section \<open>Completion\<close>

definition announce_locked :: "coord_state \<Rightarrow> coord_state" where
  "announce_locked st =
     (if co_incomplete st \<or> co_pending st \<noteq> [] \<or> co_announced st = co_latest st then st
      else if list_ex (\<lambda>(cid, held). rv_reconcile held \<or> rv_running held) (co_in_flight st) then st
      else st\<lparr>co_announced := co_latest st\<rparr>)"

definition report_locked :: "coord_state \<Rightarrow> coord_state" where
  "report_locked st = (if co_incomplete st \<or> co_pending st \<noteq> [] then st else announce_locked st)"

definition finish_pass :: "pass_key \<Rightarrow> coord_state \<Rightarrow> coord_state" where
  "finish_pass key st = report_locked (if key = co_latest st then st\<lparr>co_incomplete := False\<rparr> else st)"

section \<open>Reservations\<close>

text \<open>Whether the caller got the container.\<close>

definition reserve :: "timestamp \<Rightarrow> string \<Rightarrow> timestamp option \<Rightarrow> bool \<Rightarrow> coord_state \<Rightarrow> bool \<times> coord_state" where
  "reserve now cid event_time terminal st =
     (case map_of (co_in_flight st) cid of
        None \<Rightarrow>
          (True, st\<lparr>co_in_flight := bt_insert cid
             \<lparr>rv_apply_start = (if terminal then None else Some now), rv_running = \<not> terminal, rv_reconcile = False,
              rv_terminate_at = None\<rparr> (co_in_flight st)\<rparr>)
      | Some held \<Rightarrow>
          let held' =
            (if terminal then
               (case event_time of
                  None \<Rightarrow> held
                | Some t \<Rightarrow>
                    if (case rv_terminate_at held of None \<Rightarrow> True | Some queued \<Rightarrow> t > queued)
                    then held\<lparr>rv_terminate_at := Some t\<rparr> else held)
             else if (case (event_time, rv_apply_start held) of (Some t, Some apply_start) \<Rightarrow> t > apply_start | _ \<Rightarrow> True)
             then held\<lparr>rv_reconcile := True\<rparr> else held)
          in (False, st\<lparr>co_in_flight := bt_insert cid held' (co_in_flight st)\<rparr>))"

text \<open>The queued work, whether the run loop is woken, and the state.\<close>

definition next_work :: "timestamp \<Rightarrow> string \<Rightarrow> coord_state \<Rightarrow> (bool \<times> timestamp option) \<times> bool \<times> coord_state" where
  "next_work now cid st =
     (case map_of (co_in_flight st) cid of
        None \<Rightarrow> ((False, None), False, st)
      | Some held \<Rightarrow>
          if rv_reconcile held \<or> rv_terminate_at held \<noteq> None then
            ((rv_reconcile held, rv_terminate_at held), False,
             st\<lparr>co_in_flight := bt_insert cid
               (held\<lparr>rv_terminate_at := None, rv_reconcile := False, rv_running := rv_reconcile held,
                     rv_apply_start := (if rv_reconcile held then Some now else None)\<rparr>) (co_in_flight st)\<rparr>)
          else
            ((False, None), map_of (co_pending st) cid \<noteq> None,
             announce_locked (st\<lparr>co_in_flight := bt_remove cid (co_in_flight st)\<rparr>)))"

section \<open>Pending containers\<close>

definition settle :: "('e \<Rightarrow> bool) \<Rightarrow> instant \<Rightarrow> string \<Rightarrow> pass_key \<Rightarrow> 'e option \<Rightarrow> coord_state \<Rightarrow> coord_state" where
  "settle is_container_gone now cid key err st =
     (let settled = (case err of None \<Rightarrow> True | Some e \<Rightarrow> is_container_gone e) in
      case map_of (co_pending st) cid of
        Some entry \<Rightarrow>
          if settled \<and> pe_key entry = key then st\<lparr>co_pending := bt_remove cid (co_pending st)\<rparr>
          else if settled then st\<lparr>co_pending := bt_insert cid (entry\<lparr>pe_due := now\<rparr>) (co_pending st)\<rparr>
          else
            (let backoff = min (pe_backoff entry * 2) MAX_BACKOFF in
             st\<lparr>co_pending := bt_insert cid (entry\<lparr>pe_backoff := backoff, pe_due := now + backoff\<rparr>) (co_pending st)\<rparr>)
      | None \<Rightarrow>
          if settled then st
          else st\<lparr>co_pending := bt_insert cid
            \<lparr>pe_key = co_latest st, pe_backoff = MIN_BACKOFF, pe_due = now + MIN_BACKOFF\<rparr> (co_pending st)\<rparr>)"

definition unreserved_pending :: "coord_state \<Rightarrow> (string \<times> pending_entry) list" where
  "unreserved_pending st = filter (\<lambda>(cid, entry). map_of (co_in_flight st) cid = None) (co_pending st)"

definition next_due :: "coord_state \<Rightarrow> instant option" where
  "next_due st =
     (case map (pe_due \<circ> snd) (unreserved_pending st) of [] \<Rightarrow> None | d # ds \<Rightarrow> Some (foldl min d ds))"

definition due_ids :: "instant \<Rightarrow> coord_state \<Rightarrow> string list" where
  "due_ids now st = map fst (filter (\<lambda>(cid, entry). pe_due entry \<le> now) (unreserved_pending st))"

section \<open>Covered events\<close>

definition event_time :: "64 word \<Rightarrow> timestamp" where
  "event_time time_nano = sint time_nano"

definition expired :: "instant \<Rightarrow> inspected \<Rightarrow> bool" where
  "expired now i \<longleftrightarrow> max 0 (now - in_monotonic i) > PROCESSED_TTL"

definition mark_processed :: "string \<Rightarrow> inspected \<Rightarrow> coord_state \<Rightarrow> coord_state" where
  "mark_processed cid i st = st\<lparr>co_processed := bt_insert cid i (co_processed st)\<rparr>"

definition skip_event :: "instant \<Rightarrow> string \<Rightarrow> timestamp \<Rightarrow> coord_state \<Rightarrow> bool \<times> coord_state" where
  "skip_event now cid t st =
     (case map_of (co_processed st) cid of
        None \<Rightarrow> (False, st)
      | Some i \<Rightarrow> (\<not> expired now i \<and> t \<le> in_at i, st\<lparr>co_processed := bt_remove cid (co_processed st)\<rparr>))"

definition arm_prune :: "instant \<Rightarrow> instant option \<Rightarrow> coord_state \<Rightarrow> instant option" where
  "arm_prune now armed st =
     (if armed \<noteq> None then armed else if co_processed st = [] then None else Some (now + PROCESSED_TTL))"

definition prune_processed :: "instant \<Rightarrow> coord_state \<Rightarrow> coord_state" where
  "prune_processed now st = st\<lparr>co_processed := filter (\<lambda>(cid, i). \<not> expired now i) (co_processed st)\<rparr>"

end
