(* ===== verification/Coordinator_Run.thy ===== *)
theory Coordinator_Run
  imports Coordinator
begin

text \<open>
  The tasks of \<open>src/src/daemon/coordinator.rs\<close>: the run loop, the holds and the handling of
  events, which interleave at the coordinator lock. A task is a program counter with its local
  variables; an action lets one task go on to its next lock, with the answers of its environment
  (a clock, the list of containers, the outcome of a reconcile) as the input. Spawning a hold
  follows its reservation without another lock, so both are one action.
\<close>

section \<open>Tasks\<close>

datatype 'e hold_phase =
    HoldTop bool "timestamp option"
  | HoldMid bool
  | HoldRun pass_key inspected
  | HoldSettle pass_key inspected "'e option"
  | HoldMark inspected
  | HoldNext
  | HoldDone

record 'e hold =
  ho_container :: string
  ho_enumerated :: bool
  ho_last_error :: "'e option"
  ho_phase :: "'e hold_phase"

text \<open>The pass phases carry the whole list as well as what is left of it.\<close>

datatype run_phase =
    RunTop
  | RunList pass_key
  | RunVisit pass_key "string list" "string list"
  | RunReserve pass_key "string list" string "string list"
  | RunAwait pass_key "string list" "string list" nat
  | RunIdle
  | RunSelect "instant option"
  | RunDue
  | RunRetry "string list"
  | RunRetryAwait "string list" nat
  | RunSweep
  | RunStopped

record run_task =
  ru_phase :: run_phase
  ru_list_backoff :: int
  ru_list_retry :: "instant option"
  ru_prune :: "instant option"
  ru_sweep :: instant

datatype event_phase = EvIdle | EvReserve string timestamp | EvAwait nat bool

text \<open>
  The last three fields are history: the number of requests, the key and the outcome of the last
  settled reconcile of each container, and the key and the containers of the last pass that was
  finished for the latest request. No task reads them.
\<close>

record 'e daemon_sys =
  sy_coord :: coord_state
  sy_holds :: "'e hold list"
  sy_run :: run_task
  sy_event :: event_phase
  sy_wake :: bool
  sy_first_pass :: bool
  sy_canceled :: bool
  sy_now :: instant
  sy_requests :: nat
  sy_settled :: "string \<Rightarrow> (pass_key \<times> bool) option"
  sy_listed :: "(pass_key \<times> string list) option"

definition sys_start :: "instant \<Rightarrow> 'e daemon_sys" where
  "sys_start now = \<lparr>sy_coord = coord_default, sy_holds = [],
     sy_run = \<lparr>ru_phase = RunTop, ru_list_backoff = MIN_BACKOFF, ru_list_retry = None, ru_prune = None, ru_sweep = now + SWEEP_INTERVAL\<rparr>,
     sy_event = EvIdle, sy_wake = False, sy_first_pass = False, sy_canceled = False, sy_now = now,
     sy_requests = 0, sy_settled = Map.empty, sy_listed = None\<rparr>"

definition goto :: "run_phase \<Rightarrow> 'e daemon_sys \<Rightarrow> 'e daemon_sys" where
  "goto p s = s\<lparr>sy_run := (sy_run s)\<lparr>ru_phase := p\<rparr>\<rparr>"

definition on_coord :: "(coord_state \<Rightarrow> coord_state) \<Rightarrow> 'e daemon_sys \<Rightarrow> 'e daemon_sys" where
  "on_coord f s = s\<lparr>sy_coord := f (sy_coord s)\<rparr>"

section \<open>Holds\<close>

text \<open>A container is reserved and its hold spawned, unless it is being handled.\<close>

definition start_hold :: "timestamp \<Rightarrow> string \<Rightarrow> timestamp option \<Rightarrow> bool \<Rightarrow> 'e daemon_sys \<Rightarrow> nat option \<times> 'e daemon_sys" where
  "start_hold wall cid event_at terminal s =
     (case reserve wall cid event_at terminal (sy_coord s) of (got, st) \<Rightarrow>
        if got then
          (Some (length (sy_holds s)),
           s\<lparr>sy_coord := st, sy_holds := sy_holds s @ [\<lparr>ho_container = cid, ho_enumerated = (\<not> terminal \<and> event_at = None),
             ho_last_error = None, ho_phase = HoldTop (\<not> terminal) (if terminal then event_at else None)\<rparr>]\<rparr>)
        else (None, s\<lparr>sy_coord := st\<rparr>))"

definition set_hold :: "nat \<Rightarrow> 'e hold \<Rightarrow> 'e daemon_sys \<Rightarrow> 'e daemon_sys" where
  "set_hold tid h s = s\<lparr>sy_holds := (sy_holds s)[tid := h]\<rparr>"

text \<open>
  One part of \<open>hold\<close> (with \<open>process_one\<close>): \<open>wall\<close> is the answer of the wall clock, \<open>err\<close> the
  outcome of the reconcile.
\<close>

definition hold_step :: "('e \<Rightarrow> bool) \<Rightarrow> nat \<Rightarrow> timestamp \<Rightarrow> 'e option \<Rightarrow> 'e daemon_sys \<Rightarrow> 'e daemon_sys option" where
  "hold_step is_container_gone tid wall err s =
     (if tid \<ge> length (sy_holds s) then None
      else let h = sy_holds s ! tid; cid = ho_container h; go = (\<lambda>p. set_hold tid (h\<lparr>ho_phase := p\<rparr>)) in
        case ho_phase h of
          HoldTop reconcile terminate_at \<Rightarrow> Some (go (HoldMid reconcile) s)
        | HoldMid reconcile \<Rightarrow>
            Some (go (if reconcile then HoldRun (co_latest (sy_coord s)) \<lparr>in_at = wall, in_monotonic = sy_now s\<rparr> else HoldNext) s)
        | HoldRun key begun \<Rightarrow> Some (go (HoldSettle key begun err) s)
        | HoldSettle key begun outcome \<Rightarrow>
            Some (set_hold tid (h\<lparr>ho_last_error := outcome,
                ho_phase := if outcome = None \<and> ho_enumerated h then HoldMark begun else HoldNext\<rparr>)
              (s\<lparr>sy_coord := settle is_container_gone (sy_now s) cid key outcome (sy_coord s),
                 sy_settled := (sy_settled s)(cid \<mapsto> (key, case outcome of None \<Rightarrow> True | Some e \<Rightarrow> is_container_gone e))\<rparr>))
        | HoldMark begun \<Rightarrow> Some (go HoldNext (on_coord (mark_processed cid begun) s))
        | HoldNext \<Rightarrow>
            (case next_work wall cid (sy_coord s) of ((reconcile, terminate_at), wake, st) \<Rightarrow>
               Some (go (if \<not> reconcile \<and> terminate_at = None then HoldDone else HoldTop reconcile terminate_at)
                 (s\<lparr>sy_coord := st, sy_wake := sy_wake s \<or> wake\<rparr>)))
        | HoldDone \<Rightarrow> None)"

definition hold_done :: "nat \<Rightarrow> 'e daemon_sys \<Rightarrow> bool" where
  "hold_done tid s \<longleftrightarrow> tid < length (sy_holds s) \<and> ho_phase (sy_holds s ! tid) = HoldDone"

section \<open>The run loop\<close>

datatype select = SelDone | SelWake | SelListRetry | SelRetry | SelPrune | SelSweep

datatype run_input = RunGo timestamp | RunListed "string list option" | RunSelected select

definition elapsed :: "instant \<Rightarrow> instant option \<Rightarrow> bool" where
  "elapsed now deadline \<longleftrightarrow> (case deadline of None \<Rightarrow> False | Some t \<Rightarrow> t \<le> now)"

text \<open>A ticker that skips missed ticks.\<close>

definition next_tick :: "instant \<Rightarrow> instant \<Rightarrow> instant" where
  "next_tick now t = now + SWEEP_INTERVAL - (now - t) mod SWEEP_INTERVAL"

definition end_pass :: "pass_outcome \<Rightarrow> 'e daemon_sys \<Rightarrow> 'e daemon_sys" where
  "end_pass outcome s =
     (let ru = sy_run s in
      s\<lparr>sy_first_pass := True,
        sy_run := (case outcome of
            ListFailed \<Rightarrow> ru\<lparr>ru_phase := RunTop, ru_list_retry := Some (sy_now s + ru_list_backoff ru),
              ru_list_backoff := min (ru_list_backoff ru * 2) MAX_BACKOFF\<rparr>
          | PassDone \<Rightarrow> ru\<lparr>ru_phase := RunTop, ru_list_retry := None, ru_list_backoff := MIN_BACKOFF\<rparr>
          | Superseded \<Rightarrow> ru\<lparr>ru_phase := RunTop\<rparr>)\<rparr>)"

definition select_step :: "instant option \<Rightarrow> select \<Rightarrow> 'e daemon_sys \<Rightarrow> 'e daemon_sys option" where
  "select_step retry sel s =
     (let ru = sy_run s; now = sy_now s in
      case sel of
        SelDone \<Rightarrow> if sy_canceled s then Some (goto RunStopped s) else None
      | SelWake \<Rightarrow> if sy_wake s then Some (goto RunTop (s\<lparr>sy_wake := False\<rparr>)) else None
      | SelListRetry \<Rightarrow>
          if elapsed now (ru_list_retry ru)
          then Some (goto RunTop (on_coord redo (s\<lparr>sy_run := ru\<lparr>ru_list_retry := None\<rparr>\<rparr>))) else None
      | SelRetry \<Rightarrow> if elapsed now retry then Some (goto RunDue s) else None
      | SelPrune \<Rightarrow>
          if elapsed now (ru_prune ru)
          then Some (goto RunTop (on_coord (prune_processed now) (s\<lparr>sy_run := ru\<lparr>ru_prune := None\<rparr>\<rparr>))) else None
      | SelSweep \<Rightarrow>
          if ru_sweep ru \<le> now then Some (goto RunSweep (s\<lparr>sy_run := ru\<lparr>ru_sweep := next_tick now (ru_sweep ru)\<rparr>\<rparr>)) else None)"

definition run_go :: "timestamp \<Rightarrow> 'e daemon_sys \<Rightarrow> 'e daemon_sys option" where
  "run_go wall s =
     (case ru_phase (sy_run s) of
        RunTop \<Rightarrow>
          if sy_canceled s then Some (goto RunStopped s)
          else (case take_request (sy_coord s) of
              (Some key, st) \<Rightarrow> Some (goto (RunList key) (s\<lparr>sy_coord := st\<rparr>))
            | (None, st) \<Rightarrow> Some (goto RunIdle (s\<lparr>sy_coord := st\<rparr>)))
      | RunVisit key listed [] \<Rightarrow>
          Some (end_pass PassDone ((on_coord (finish_pass key) s)
            \<lparr>sy_listed := if key = co_latest (sy_coord s) then Some (key, listed) else sy_listed s\<rparr>))
      | RunVisit key listed (cid # left) \<Rightarrow>
          Some (if sy_canceled s \<or> superseded key (sy_coord s) then end_pass Superseded s
            else goto (RunReserve key listed cid left) s)
      | RunReserve key listed cid left \<Rightarrow>
          (case start_hold wall cid None False s of
             (Some tid, s1) \<Rightarrow> Some (goto (RunAwait key listed left tid) s1)
           | (None, s1) \<Rightarrow> Some (goto (RunVisit key listed left) s1))
      | RunAwait key listed left tid \<Rightarrow> if hold_done tid s then Some (goto (RunVisit key listed left) s) else None
      | RunIdle \<Rightarrow>
          Some (goto (RunSelect (next_due (sy_coord s)))
            (s\<lparr>sy_run := (sy_run s)\<lparr>ru_prune := arm_prune (sy_now s) (ru_prune (sy_run s)) (sy_coord s)\<rparr>\<rparr>))
      | RunDue \<Rightarrow> Some (goto (RunRetry (due_ids (sy_now s) (sy_coord s))) s)
      | RunRetry [] \<Rightarrow> Some (goto RunTop (on_coord report_locked s))
      | RunRetry (cid # left) \<Rightarrow>
          if sy_canceled s then Some (goto RunTop s)
          else (case start_hold wall cid None False s of
             (Some tid, s1) \<Rightarrow> Some (goto (RunRetryAwait left tid) s1)
           | (None, s1) \<Rightarrow> Some (goto (RunRetry left) s1))
      | RunRetryAwait left tid \<Rightarrow> if hold_done tid s then Some (goto (RunRetry left) s) else None
      | RunSweep \<Rightarrow> Some (goto RunTop s)
      | _ \<Rightarrow> None)"

definition loop_step :: "run_input \<Rightarrow> 'e daemon_sys \<Rightarrow> 'e daemon_sys option" where
  "loop_step input s =
     (case input of
        RunGo wall \<Rightarrow> run_go wall s
      | RunListed listed \<Rightarrow>
          (case ru_phase (sy_run s) of
             RunList key \<Rightarrow>
               (case listed of
                  None \<Rightarrow> Some (end_pass ListFailed (on_coord report_locked s))
                | Some cids \<Rightarrow> Some (goto (RunVisit key cids cids) s))
           | _ \<Rightarrow> None)
      | RunSelected sel \<Rightarrow> (case ru_phase (sy_run s) of RunSelect retry \<Rightarrow> select_step retry sel s | _ \<Rightarrow> None))"

section \<open>Events\<close>

definition handle_event :: "timestamp \<Rightarrow> string \<Rightarrow> string \<Rightarrow> 64 word \<Rightarrow> 'e daemon_sys \<Rightarrow> 'e daemon_sys" where
  "handle_event wall action cid time_nano s =
     (let t = event_time time_nano in
      if action = ACTION_DIE \<or> action = ACTION_DESTROY then
        (case start_hold wall cid (Some t) True s of
           (Some tid, s1) \<Rightarrow> s1\<lparr>sy_event := EvAwait tid False\<rparr>
         | (None, s1) \<Rightarrow> s1)
      else
        (case skip_event (sy_now s) cid t (sy_coord s) of (skip, st) \<Rightarrow>
           s\<lparr>sy_coord := st, sy_event := if skip then EvIdle else EvReserve cid t\<rparr>))"

definition event_step :: "timestamp \<Rightarrow> 'e daemon_sys \<Rightarrow> 'e daemon_sys option" where
  "event_step wall s =
     (case sy_event s of
        EvIdle \<Rightarrow> None
      | EvReserve cid t \<Rightarrow>
          (case start_hold wall cid (Some t) False s of
             (Some tid, s1) \<Rightarrow> Some (s1\<lparr>sy_event := EvAwait tid True\<rparr>)
           | (None, s1) \<Rightarrow> Some (s1\<lparr>sy_event := EvIdle\<rparr>))
      | EvAwait tid reconcile \<Rightarrow>
          if hold_done tid s
          then Some (s\<lparr>sy_event := EvIdle, sy_wake := sy_wake s \<or> (reconcile \<and> ho_last_error (sy_holds s ! tid) \<noteq> None)\<rparr>)
          else None)"

section \<open>The system\<close>

text \<open>The actions: what the environment does, and the steps of the tasks.\<close>

datatype 'e action =
    ActRequest u64
  | ActTime nat
  | ActCancel
  | ActEvent timestamp string string "64 word"
  | ActEventStep timestamp
  | ActRun run_input
  | ActHold nat timestamp "'e option"

fun co_act :: "('e \<Rightarrow> bool) \<Rightarrow> 'e action \<Rightarrow> 'e daemon_sys \<Rightarrow> 'e daemon_sys option" where
  "co_act gone (ActRequest generation) s =
     Some ((on_coord (request generation) s)\<lparr>sy_wake := True, sy_requests := Suc (sy_requests s)\<rparr>)"
| "co_act gone (ActTime d) s = Some (s\<lparr>sy_now := sy_now s + int d\<rparr>)"
| "co_act gone ActCancel s = Some (s\<lparr>sy_canceled := True\<rparr>)"
| "co_act gone (ActEvent wall action cid time_nano) s =
     (if sy_event s = EvIdle then Some (handle_event wall action cid time_nano s) else None)"
| "co_act gone (ActEventStep wall) s = event_step wall s"
| "co_act gone (ActRun input) s = loop_step input s"
| "co_act gone (ActHold tid wall err) s = hold_step gone tid wall err s"

fun co_acts :: "('e \<Rightarrow> bool) \<Rightarrow> 'e action list \<Rightarrow> 'e daemon_sys \<Rightarrow> 'e daemon_sys option" where
  "co_acts gone [] s = Some s"
| "co_acts gone (a # as) s = (case co_act gone a s of None \<Rightarrow> None | Some s' \<Rightarrow> co_acts gone as s')"

inductive co_reachable :: "('e \<Rightarrow> bool) \<Rightarrow> 'e daemon_sys \<Rightarrow> bool" for gone where
  co_init: "co_reachable gone (sys_start now)"
| co_next: "co_reachable gone s \<Longrightarrow> co_act gone a s = Some s' \<Longrightarrow> co_reachable gone s'"

lemma co_acts_reachable: "co_reachable gone s \<Longrightarrow> co_acts gone as s = Some s' \<Longrightarrow> co_reachable gone s'"
  by (induction "as" arbitrary: s) (auto intro: co_next split: option.splits)

end
