(* ===== verification/Coordinator_Correct.thy ===== *)
theory Coordinator_Correct
  imports Coordinator_Run
begin

text \<open>
  Safety of the coordinator, over every interleaving of its tasks and every answer of their
  environment: a container is handled by one hold at a time, and completion is announced only
  when every container of a pass for the latest request has been reconciled for it.
\<close>

section \<open>What the operations leave alone\<close>

named_theorems coord_fields \<open>the fields of the coordinator state after an operation\<close>

lemma announce_fields [coord_fields]:
  "co_latest (announce_locked st) = co_latest st" "co_dirty (announce_locked st) = co_dirty st"
  "co_incomplete (announce_locked st) = co_incomplete st" "co_pending (announce_locked st) = co_pending st"
  "co_processed (announce_locked st) = co_processed st" "co_in_flight (announce_locked st) = co_in_flight st"
  by (simp_all add: announce_locked_def)

lemma report_fields [coord_fields]:
  "co_latest (report_locked st) = co_latest st" "co_dirty (report_locked st) = co_dirty st"
  "co_incomplete (report_locked st) = co_incomplete st" "co_pending (report_locked st) = co_pending st"
  "co_processed (report_locked st) = co_processed st" "co_in_flight (report_locked st) = co_in_flight st"
  by (simp_all add: report_locked_def coord_fields)

lemma finish_fields [coord_fields]:
  "co_latest (finish_pass key st) = co_latest st" "co_dirty (finish_pass key st) = co_dirty st"
  "co_incomplete (finish_pass key st) = (co_incomplete st \<and> key \<noteq> co_latest st)" "co_pending (finish_pass key st) = co_pending st"
  "co_in_flight (finish_pass key st) = co_in_flight st"
  by (simp_all add: finish_pass_def coord_fields)

lemma request_fields [coord_fields]:
  "pk_epoch (co_latest (request g st)) = pk_epoch (co_latest st) + 1" "co_dirty (request g st)" "co_incomplete (request g st)"
  "co_pending (request g st) = retag (co_latest (request g st)) (co_pending st)"
  "co_in_flight (request g st) = co_in_flight st" "co_announced (request g st) = co_announced st"
  by (simp_all add: request_def Let_def)

lemma small_fields [coord_fields]:
  "co_latest (redo st) = co_latest st" "co_incomplete (redo st) = co_incomplete st" "co_announced (redo st) = co_announced st"
  "co_pending (redo st) = co_pending st" "co_in_flight (redo st) = co_in_flight st" "co_dirty (redo st)"
  "co_latest (prune_processed now st) = co_latest st" "co_incomplete (prune_processed now st) = co_incomplete st"
  "co_announced (prune_processed now st) = co_announced st" "co_pending (prune_processed now st) = co_pending st"
  "co_in_flight (prune_processed now st) = co_in_flight st" "co_dirty (prune_processed now st) = co_dirty st"
  "co_latest (mark_processed cid i st) = co_latest st" "co_incomplete (mark_processed cid i st) = co_incomplete st"
  "co_announced (mark_processed cid i st) = co_announced st" "co_pending (mark_processed cid i st) = co_pending st"
  "co_in_flight (mark_processed cid i st) = co_in_flight st" "co_dirty (mark_processed cid i st) = co_dirty st"
  by (simp_all add: redo_def prune_processed_def mark_processed_def)

lemma skip_fields [coord_fields]:
  "co_latest (snd (skip_event now cid t st)) = co_latest st" "co_incomplete (snd (skip_event now cid t st)) = co_incomplete st"
  "co_announced (snd (skip_event now cid t st)) = co_announced st" "co_pending (snd (skip_event now cid t st)) = co_pending st"
  "co_in_flight (snd (skip_event now cid t st)) = co_in_flight st" "co_dirty (snd (skip_event now cid t st)) = co_dirty st"
  by (simp_all add: skip_event_def split: option.split)

lemma reserve_fields [coord_fields]:
  "co_latest (snd (reserve now cid t x st)) = co_latest st" "co_incomplete (snd (reserve now cid t x st)) = co_incomplete st"
  "co_announced (snd (reserve now cid t x st)) = co_announced st" "co_pending (snd (reserve now cid t x st)) = co_pending st"
  "co_dirty (snd (reserve now cid t x st)) = co_dirty st"
  by (simp_all add: reserve_def Let_def split: option.split)

lemma settle_fields [coord_fields]:
  "co_latest (settle g now cid key err st) = co_latest st" "co_incomplete (settle g now cid key err st) = co_incomplete st"
  "co_announced (settle g now cid key err st) = co_announced st" "co_in_flight (settle g now cid key err st) = co_in_flight st"
  "co_dirty (settle g now cid key err st) = co_dirty st"
  by (simp_all add: settle_def Let_def split: option.split)

section \<open>The step of a hold\<close>

text \<open>What an action does to the holds, the reservations and the pending containers.\<close>

definition same_core :: "'e daemon_sys \<Rightarrow> 'e daemon_sys \<Rightarrow> bool" where
  "same_core s s' \<longleftrightarrow> sy_holds s' = sy_holds s \<and> sy_settled s' = sy_settled s \<and> sy_requests s' = sy_requests s
     \<and> co_latest (sy_coord s') = co_latest (sy_coord s) \<and> co_pending (sy_coord s') = co_pending (sy_coord s)
     \<and> co_in_flight (sy_coord s') = co_in_flight (sy_coord s)"

lemma end_pass_fields [coord_fields]:
  "sy_coord (end_pass p s) = sy_coord s" "sy_holds (end_pass p s) = sy_holds s" "sy_settled (end_pass p s) = sy_settled s"
  "sy_requests (end_pass p s) = sy_requests s" "sy_listed (end_pass p s) = sy_listed s" "sy_event (end_pass p s) = sy_event s"
  "ru_phase (sy_run (end_pass p s)) = RunTop" "sy_wake (end_pass p s) = sy_wake s" "sy_canceled (end_pass p s) = sy_canceled s"
  "sy_now (end_pass p s) = sy_now s"
  by (simp_all add: end_pass_def Let_def split: pass_outcome.split)

lemma goto_fields [coord_fields]:
  "sy_coord (goto p s) = sy_coord s" "sy_holds (goto p s) = sy_holds s" "sy_settled (goto p s) = sy_settled s"
  "sy_requests (goto p s) = sy_requests s" "sy_listed (goto p s) = sy_listed s" "sy_event (goto p s) = sy_event s"
  "ru_phase (sy_run (goto p s)) = p" "sy_wake (goto p s) = sy_wake s" "sy_canceled (goto p s) = sy_canceled s"
  "sy_now (goto p s) = sy_now s" "ru_list_retry (sy_run (goto p s)) = ru_list_retry (sy_run s)"
  by (simp_all add: goto_def)

lemma on_coord_fields [coord_fields]:
  "sy_coord (on_coord f s) = f (sy_coord s)" "sy_holds (on_coord f s) = sy_holds s" "sy_settled (on_coord f s) = sy_settled s"
  "sy_requests (on_coord f s) = sy_requests s" "sy_listed (on_coord f s) = sy_listed s" "sy_event (on_coord f s) = sy_event s"
  "sy_run (on_coord f s) = sy_run s" "sy_wake (on_coord f s) = sy_wake s" "sy_canceled (on_coord f s) = sy_canceled s"
  "sy_now (on_coord f s) = sy_now s"
  by (simp_all add: on_coord_def)

lemma set_hold_fields [coord_fields]:
  "sy_coord (set_hold tid h s) = sy_coord s" "sy_holds (set_hold tid h s) = (sy_holds s)[tid := h]"
  "sy_settled (set_hold tid h s) = sy_settled s" "sy_requests (set_hold tid h s) = sy_requests s"
  "sy_listed (set_hold tid h s) = sy_listed s" "sy_event (set_hold tid h s) = sy_event s" "sy_run (set_hold tid h s) = sy_run s"
  "sy_wake (set_hold tid h s) = sy_wake s" "sy_canceled (set_hold tid h s) = sy_canceled s" "sy_now (set_hold tid h s) = sy_now s"
  by (simp_all add: set_hold_def)

lemma same_core_refl [simp]: "same_core s s"
  by (simp add: same_core_def)

lemma take_request_fields [coord_fields]:
  "co_latest (snd (take_request st)) = co_latest st" "co_incomplete (snd (take_request st)) = co_incomplete st"
  "co_announced (snd (take_request st)) = co_announced st" "co_pending (snd (take_request st)) = co_pending st"
  "co_in_flight (snd (take_request st)) = co_in_flight st"
  by (simp_all add: take_request_def)

lemma run_go_core:
  assumes "run_go wall s = Some s'"
  shows "same_core s s' \<or> (\<exists>cid. same_core (snd (start_hold wall cid None False s)) s')"
proof (cases "ru_phase (sy_run s)")
  case RunTop
  then show ?thesis using assms
    by (auto simp: run_go_def take_request_def same_core_def coord_fields split: if_splits)
next
  case (RunVisit key listed left)
  then show ?thesis using assms by (cases left) (auto simp: run_go_def same_core_def coord_fields split: if_splits)
next
  case (RunReserve key listed cid left)
  obtain r s1 where r: "start_hold wall cid None False s = (r, s1)" by fastforce
  then have "same_core s1 s'" using assms RunReserve by (cases r) (auto simp: run_go_def same_core_def coord_fields)
  then show ?thesis using r by (metis snd_conv)
next
  case (RunRetry ids)
  show ?thesis
  proof (cases ids)
    case Nil
    then show ?thesis using assms RunRetry by (auto simp: run_go_def same_core_def coord_fields)
  next
    case (Cons cid left)
    obtain r s1 where r: "start_hold wall cid None False s = (r, s1)" by fastforce
    then have "same_core s1 s' \<or> same_core s s'" using assms RunRetry Cons
      by (cases r) (auto simp: run_go_def same_core_def coord_fields split: if_splits)
    then show ?thesis using r by (metis snd_conv)
  qed
qed (use assms in \<open>auto simp: run_go_def same_core_def coord_fields split: if_splits\<close>)

lemma loop_step_core:
  assumes "loop_step input s = Some s'"
  shows "same_core s s' \<or> (\<exists>wall cid. same_core (snd (start_hold wall cid None False s)) s')"
proof (cases input)
  case (RunGo wall)
  then show ?thesis using assms run_go_core [of wall s s'] by (auto simp: loop_step_def)
next
  case (RunListed listed)
  then show ?thesis using assms
    by (auto simp: loop_step_def same_core_def coord_fields split: run_phase.splits option.splits)
next
  case (RunSelected sel)
  then obtain retry where "select_step retry sel s = Some s'" using assms by (auto simp: loop_step_def split: run_phase.splits)
  then show ?thesis
    by (cases sel) (auto simp: select_step_def Let_def same_core_def coord_fields split: if_splits)
qed

text \<open>An action changes the core by a request, by a reservation or by the step of a hold.\<close>

lemma act_core:
  assumes "co_act gone a s = Some s'"
  obtains (same) "same_core s s'"
  | (request) g where "a = ActRequest g" and "same_core ((on_coord (request g) s)\<lparr>sy_requests := Suc (sy_requests s)\<rparr>) s'"
  | (start) wall cid t x where "same_core (snd (start_hold wall cid t x s)) s'"
  | (hold) tid wall err where "hold_step gone tid wall err s = Some s'"
proof (cases a)
  case (ActRequest g)
  then have "same_core ((on_coord (request g) s)\<lparr>sy_requests := Suc (sy_requests s)\<rparr>) s'"
    using assms by (auto simp: same_core_def)
  then show ?thesis by (rule request [OF ActRequest])
next
  case (ActTime d)
  then show ?thesis using assms by (intro same) (auto simp: same_core_def)
next
  case ActCancel
  then show ?thesis using assms by (intro same) (auto simp: same_core_def)
next
  case (ActEvent wall action cid time_nano)
  then have s': "s' = handle_event wall action cid time_nano s" using assms by (auto split: if_splits)
  obtain r s1 where r: "start_hold wall cid (Some (event_time time_nano)) True s = (r, s1)" by fastforce
  show ?thesis
  proof (cases "action = ACTION_DIE \<or> action = ACTION_DESTROY")
    case True
    then have "same_core s1 s'" using s' r by (cases r) (auto simp: handle_event_def Let_def same_core_def)
    then show ?thesis using start [of wall cid "Some (event_time time_nano)" True] r by simp
  next
    case False
    then show ?thesis using s' by (intro same) (auto simp: handle_event_def Let_def same_core_def coord_fields split: prod.split,
        (metis coord_fields snd_conv)+)
  qed
next
  case (ActEventStep wall)
  then have e: "event_step wall s = Some s'" using assms by simp
  show ?thesis
  proof (cases "sy_event s")
    case (EvReserve cid t)
    obtain r s1 where r: "start_hold wall cid (Some t) False s = (r, s1)" by fastforce
    then have "same_core s1 s'" using e EvReserve by (cases r) (auto simp: event_step_def same_core_def)
    then show ?thesis using start [of wall cid "Some t" False] r by simp
  qed (use e in \<open>auto simp: event_step_def same_core_def split: if_splits intro!: same\<close>)
next
  case (ActRun input)
  then show ?thesis using assms loop_step_core [of input s s'] same start by auto
next
  case (ActHold tid wall err)
  then show ?thesis using assms hold by auto
qed

section \<open>One hold per container\<close>

definition active :: "'e daemon_sys \<Rightarrow> string \<Rightarrow> nat set" where
  "active s cid = {tid. tid < length (sy_holds s) \<and> ho_container (sy_holds s ! tid) = cid \<and> ho_phase (sy_holds s ! tid) \<noteq> HoldDone}"

text \<open>A hold that has a reconcile before it or in progress.\<close>

fun busy :: "'e hold_phase \<Rightarrow> bool" where
  "busy (HoldTop reconcile _) \<longleftrightarrow> reconcile"
| "busy (HoldMid reconcile) \<longleftrightarrow> reconcile"
| "busy (HoldRun _ _) \<longleftrightarrow> True"
| "busy (HoldSettle _ _ _) \<longleftrightarrow> True"
| "busy _ \<longleftrightarrow> False"

definition reserved :: "'e daemon_sys \<Rightarrow> string \<Rightarrow> reservation option" where
  "reserved s = map_of (co_in_flight (sy_coord s))"

definition held_one :: "'e daemon_sys \<Rightarrow> string \<Rightarrow> bool" where
  "held_one s cid \<longleftrightarrow>
     (case reserved s cid of
        None \<Rightarrow> active s cid = {}
      | Some held \<Rightarrow> \<exists>tid. active s cid = {tid} \<and> (busy (ho_phase (sy_holds s ! tid)) \<longrightarrow> rv_running held))"

definition held_ok :: "'e daemon_sys \<Rightarrow> bool" where
  "held_ok s \<longleftrightarrow> bt_sorted (co_in_flight (sy_coord s)) \<and> bt_sorted (co_pending (sy_coord s)) \<and> (\<forall>cid. held_one s cid)"

lemma held_one_cong:
  "held_one s cid \<Longrightarrow> reserved s' cid = reserved s cid \<Longrightarrow> active s' cid = active s cid
    \<Longrightarrow> (\<And>tid. tid \<in> active s cid \<Longrightarrow> busy (ho_phase (sy_holds s' ! tid)) \<Longrightarrow> busy (ho_phase (sy_holds s ! tid))) \<Longrightarrow> held_one s' cid"
  unfolding held_one_def by (cases "reserved s cid") auto

lemma same_core_held: "same_core s s' \<Longrightarrow> held_ok s' = held_ok s"
  by (simp add: same_core_def held_ok_def held_one_def reserved_def active_def split: option.split)

lemma active_cong: "sy_holds s' = sy_holds s \<Longrightarrow> active s' = active s"
  by (simp add: active_def fun_eq_iff)

lemma active_append:
  "sy_holds s' = sy_holds s @ [h] \<Longrightarrow> ho_phase h \<noteq> HoldDone
    \<Longrightarrow> active s' cid = (if ho_container h = cid then insert (length (sy_holds s)) (active s cid) else active s cid)"
  by (auto simp: active_def nth_append split: if_splits)

lemma active_update:
  assumes "sy_holds s' = (sy_holds s)[tid := h]" and "tid < length (sy_holds s)" and "ho_container h = ho_container (sy_holds s ! tid)"
    and "ho_phase (sy_holds s ! tid) \<noteq> HoldDone"
  shows "active s' cid = (if ho_phase h = HoldDone then active s cid - {tid} else active s cid)"
  using assms by (auto simp: active_def nth_list_update split: if_splits)

text \<open>A reservation of a container that is being handled only queues work.\<close>

lemma reserve_held:
  assumes "map_of (co_in_flight st) cid = Some held"
  obtains held' where "reserve now cid t x st = (False, st\<lparr>co_in_flight := bt_insert cid held' (co_in_flight st)\<rparr>)"
    and "rv_running held' = rv_running held" and "rv_reconcile held \<longrightarrow> rv_reconcile held'"
    and "t = None \<and> \<not> x \<longrightarrow> rv_reconcile held'" and "rv_terminate_at held \<noteq> None \<longrightarrow> rv_terminate_at held' \<noteq> None"
    and "rv_apply_start held' = rv_apply_start held"
  using assms by (auto simp: reserve_def Let_def split: option.splits if_splits)

lemma start_hold_new:
  assumes "reserved s cid = None"
  shows "start_hold wall cid t x s = (Some (length (sy_holds s)), s\<lparr>
      sy_coord := (sy_coord s)\<lparr>co_in_flight := bt_insert cid
        \<lparr>rv_apply_start = (if x then None else Some wall), rv_running = \<not> x, rv_reconcile = False, rv_terminate_at = None\<rparr>
        (co_in_flight (sy_coord s))\<rparr>,
      sy_holds := sy_holds s @ [\<lparr>ho_container = cid, ho_enumerated = (\<not> x \<and> t = None), ho_last_error = None,
        ho_phase = HoldTop (\<not> x) (if x then t else None)\<rparr>]\<rparr>)"
  using assms by (simp add: start_hold_def reserve_def reserved_def)

lemma start_hold_queued:
  assumes "reserved s cid = Some held"
  obtains held' where "start_hold wall cid t x s = (None, s\<lparr>sy_coord := (sy_coord s)\<lparr>co_in_flight := bt_insert cid held' (co_in_flight (sy_coord s))\<rparr>\<rparr>)"
    and "rv_running held' = rv_running held" and "rv_reconcile held \<longrightarrow> rv_reconcile held'"
    and "t = None \<and> \<not> x \<longrightarrow> rv_reconcile held'" and "rv_terminate_at held \<noteq> None \<longrightarrow> rv_terminate_at held' \<noteq> None"
proof -
  from assms [unfolded reserved_def] obtain held' where h:
    "reserve wall cid t x (sy_coord s) = (False, (sy_coord s)\<lparr>co_in_flight := bt_insert cid held' (co_in_flight (sy_coord s))\<rparr>)"
    "rv_running held' = rv_running held" "rv_reconcile held \<longrightarrow> rv_reconcile held'" "t = None \<and> \<not> x \<longrightarrow> rv_reconcile held'"
    "rv_terminate_at held \<noteq> None \<longrightarrow> rv_terminate_at held' \<noteq> None" "rv_apply_start held' = rv_apply_start held"
    by (rule reserve_held [where now = wall and t = t and x = x])
  show ?thesis by (rule that [OF _ h(2-5)]) (simp_all add: start_hold_def h(1))
qed

lemma start_held:
  assumes "held_ok s"
  shows "held_ok (snd (start_hold wall cid t x s))"
proof -
  let ?s = "snd (start_hold wall cid t x s)"
  have sorted: "bt_sorted (co_in_flight (sy_coord s))" "bt_sorted (co_pending (sy_coord s))" and one: "held_one s c" for c
    using assms by (simp_all add: held_ok_def)
  show ?thesis
  proof (cases "reserved s cid")
    case None
    have none: "active s cid = {}" using one [of cid] None by (simp add: held_one_def)
    define h where "h = \<lparr>ho_container = cid, ho_enumerated = (\<not> x \<and> t = None), ho_last_error = (None :: 'a option),
      ho_phase = HoldTop (\<not> x) (if x then t else None)\<rparr>"
    have h: "sy_holds ?s = sy_holds s @ [h]" "ho_container h = cid" "ho_phase h \<noteq> HoldDone"
      by (simp_all add: start_hold_new [OF None] h_def)
    have act: "active ?s c = (if c = cid then {length (sy_holds s)} else active s c)" for c
      using active_append [OF h(1,3), of c] h(2) none by simp
    have "held_one ?s c" for c
    proof (cases "c = cid")
      case True
      then show ?thesis using None act sorted by (simp add: held_one_def start_hold_new reserved_def bt_insert_get)
    next
      case False
      then have "reserved ?s c = reserved s c" using None sorted by (simp add: start_hold_new reserved_def bt_insert_get)
      moreover have "sy_holds ?s ! tid = sy_holds s ! tid" if "tid \<in> active s c" for tid
        using that None by (simp add: start_hold_new active_def nth_append)
      ultimately show ?thesis using False act by (intro held_one_cong [OF one]) simp_all
    qed
    then show ?thesis using sorted None by (simp add: held_ok_def start_hold_new bt_insert_sorted)
  next
    case (Some held)
    obtain held' where h: "start_hold wall cid t x s
        = (None, s\<lparr>sy_coord := (sy_coord s)\<lparr>co_in_flight := bt_insert cid held' (co_in_flight (sy_coord s))\<rparr>\<rparr>)"
      "rv_running held' = rv_running held" by (rule start_hold_queued [OF Some])
    have act: "active ?s = active s" by (rule active_cong) (simp add: h(1))
    have res: "reserved ?s c = (if c = cid then Some held' else reserved s c)" for c
      using h(1) sorted by (simp add: reserved_def bt_insert_get)
    have "held_one ?s cid" using one [of cid] h Some act res by (simp add: held_one_def)
    then have "held_one ?s c" for c
      using held_one_cong [OF one [of c], of ?s] act res h(1) by (cases "c = cid") simp_all
    then show ?thesis using sorted h by (simp add: held_ok_def bt_insert_sorted)
  qed
qed

lemma settle_sorted: "bt_sorted (co_pending st) \<Longrightarrow> bt_sorted (co_pending (settle gone now cid key err st))"
  by (auto simp: settle_def Let_def bt_insert_sorted bt_remove_sorted split: option.split)

lemma next_work_cases:
  assumes "next_work now cid st = ((reconcile, terminate_at), wake, st')" and "map_of (co_in_flight st) cid = Some held"
  obtains (more) held' where "reconcile \<or> terminate_at \<noteq> None" and "st' = st\<lparr>co_in_flight := bt_insert cid held' (co_in_flight st)\<rparr>"
    and "rv_running held' = reconcile" and "rv_reconcile held' = False" and "rv_terminate_at held' = None"
    and "reconcile = rv_reconcile held" and "terminate_at = rv_terminate_at held"
  | (release) "\<not> reconcile" and "terminate_at = None" and "st' = announce_locked (st\<lparr>co_in_flight := bt_remove cid (co_in_flight st)\<rparr>)"
    and "wake = (map_of (co_pending st) cid \<noteq> None)" and "\<not> rv_reconcile held"
proof (cases "rv_reconcile held \<or> rv_terminate_at held \<noteq> None")
  case True
  show ?thesis
    by (rule more [of "held\<lparr>rv_terminate_at := None, rv_reconcile := False, rv_running := rv_reconcile held,
          rv_apply_start := (if rv_reconcile held then Some now else None)\<rparr>"])
      (use True assms in \<open>auto simp: next_work_def\<close>)
next
  case False
  show ?thesis by (rule release) (use False assms in \<open>auto simp: next_work_def\<close>)
qed

lemma hold_step_cases:
  assumes "hold_step gone tid wall err s = Some s'"
  obtains (local) p where "tid < length (sy_holds s)" and "ho_phase (sy_holds s ! tid) \<noteq> HoldDone"
      and "s' = set_hold tid ((sy_holds s ! tid)\<lparr>ho_phase := p\<rparr>) s"
      and "p \<noteq> HoldDone" and "ho_phase (sy_holds s ! tid) \<noteq> HoldNext"
      and "\<exists>r t. ho_phase (sy_holds s ! tid) = HoldTop r t \<and> p = HoldMid r
        \<or> ho_phase (sy_holds s ! tid) = HoldMid False \<and> p = HoldNext
        \<or> ho_phase (sy_holds s ! tid) = HoldMid True \<and> p = HoldRun (co_latest (sy_coord s)) \<lparr>in_at = wall, in_monotonic = sy_now s\<rparr>
        \<or> (\<exists>key i. ho_phase (sy_holds s ! tid) = HoldRun key i \<and> p = HoldSettle key i err)"
  | (settle) key i outcome p where "tid < length (sy_holds s)" and "ho_phase (sy_holds s ! tid) = HoldSettle key i outcome"
      and "p = HoldNext \<or> p = HoldMark i"
      and "s' = set_hold tid ((sy_holds s ! tid)\<lparr>ho_last_error := outcome, ho_phase := p\<rparr>)
        (s\<lparr>sy_coord := settle gone (sy_now s) (ho_container (sy_holds s ! tid)) key outcome (sy_coord s),
           sy_settled := (sy_settled s)(ho_container (sy_holds s ! tid) \<mapsto> (key, case outcome of None \<Rightarrow> True | Some e \<Rightarrow> gone e))\<rparr>)"
  | (mark) i where "tid < length (sy_holds s)" and "ho_phase (sy_holds s ! tid) = HoldMark i"
      and "s' = set_hold tid ((sy_holds s ! tid)\<lparr>ho_phase := HoldNext\<rparr>) (on_coord (mark_processed (ho_container (sy_holds s ! tid)) i) s)"
  | (queue) r t wake st p where "tid < length (sy_holds s)" and "ho_phase (sy_holds s ! tid) = HoldNext"
      and "next_work wall (ho_container (sy_holds s ! tid)) (sy_coord s) = ((r, t), wake, st)"
      and "p = (if \<not> r \<and> t = None then HoldDone else HoldTop r t)"
      and "s' = set_hold tid ((sy_holds s ! tid)\<lparr>ho_phase := p\<rparr>) (s\<lparr>sy_coord := st, sy_wake := sy_wake s \<or> wake\<rparr>)"
proof -
  have l: "tid < length (sy_holds s)" using assms by (auto simp: hold_step_def split: if_splits)
  show ?thesis
  proof (cases "ho_phase (sy_holds s ! tid)")
    case (HoldMid r)
    then show ?thesis using assms l local by (cases r) (auto simp: hold_step_def Let_def)
  next
    case (HoldSettle key i outcome)
    then show ?thesis using assms l settle [of key i outcome] by (auto simp: hold_step_def Let_def split: if_splits)
  next
    case HoldNext
    obtain r t wake st where "next_work wall (ho_container (sy_holds s ! tid)) (sy_coord s) = ((r, t), wake, st)"
      by (metis prod.collapse)
    then show ?thesis using assms l HoldNext queue by (auto simp: hold_step_def Let_def)
  qed (use assms l local mark in \<open>auto simp: hold_step_def Let_def\<close>)
qed

lemma held_at:
  assumes "held_ok s" and "tid < length (sy_holds s)" and "ho_phase (sy_holds s ! tid) \<noteq> HoldDone"
  obtains held where "reserved s (ho_container (sy_holds s ! tid)) = Some held" and "active s (ho_container (sy_holds s ! tid)) = {tid}"
    and "busy (ho_phase (sy_holds s ! tid)) \<longrightarrow> rv_running held"
proof -
  let ?c = "ho_container (sy_holds s ! tid)"
  have tid: "tid \<in> active s ?c" using assms(2,3) by (simp add: active_def)
  have "held_one s ?c" using assms(1) by (simp add: held_ok_def)
  then show ?thesis using tid that unfolding held_one_def by (cases "reserved s ?c") auto
qed

lemma held_local:
  assumes "held_ok s" and "tid < length (sy_holds s)" and "ho_phase (sy_holds s ! tid) \<noteq> HoldDone"
    and "sy_holds s' = (sy_holds s)[tid := h]" and "ho_container h = ho_container (sy_holds s ! tid)" and "ho_phase h \<noteq> HoldDone"
    and "busy (ho_phase h) \<Longrightarrow> busy (ho_phase (sy_holds s ! tid))"
    and "co_in_flight (sy_coord s') = co_in_flight (sy_coord s)" and "bt_sorted (co_pending (sy_coord s'))"
  shows "held_ok s'"
proof -
  have "held_one s' c" for c
  proof (rule held_one_cong)
    show "held_one s c" using assms(1) by (simp add: held_ok_def)
    show "reserved s' c = reserved s c" using assms(8) by (simp add: reserved_def)
    show "active s' c = active s c" using active_update [OF assms(4,2,5,3)] assms(6) by simp
    show "busy (ho_phase (sy_holds s ! t))" if "busy (ho_phase (sy_holds s' ! t))" for t
      using assms(2,4,7) that by (cases "t = tid") auto
  qed
  then show ?thesis using assms(1,8,9) by (simp add: held_ok_def)
qed

lemma queue_held:
  assumes "held_ok s" and "tid < length (sy_holds s)" and "ho_phase (sy_holds s ! tid) = HoldNext"
    and "next_work wall (ho_container (sy_holds s ! tid)) (sy_coord s) = ((r, t), wake, st)"
    and "p = (if \<not> r \<and> t = None then HoldDone else HoldTop r t)"
    and "sy_holds s' = (sy_holds s)[tid := (sy_holds s ! tid)\<lparr>ho_phase := p\<rparr>]" and "sy_coord s' = st"
  shows "held_ok s'"
proof -
  let ?c = "ho_container (sy_holds s ! tid)"
  obtain held where held: "reserved s ?c = Some held" "active s ?c = {tid}" using held_at [OF assms(1,2)] assms(3) by auto
  have sorted: "bt_sorted (co_in_flight (sy_coord s))" "bt_sorted (co_pending (sy_coord s))" and one: "held_one s c" for c
    using assms(1) by (simp_all add: held_ok_def)
  have act: "active s' c = (if p = HoldDone then active s c - {tid} else active s c)" for c
    by (subst active_update [OF assms(6,2)]) (simp_all add: assms(3))
  have elsewhere: "held_one s' c" if "c \<noteq> ?c" "reserved s' c = reserved s c" for c
  proof (rule held_one_cong [OF one])
    have "tid \<notin> active s c" using that(1) by (auto simp: active_def)
    then show "active s' c = active s c" by (simp add: act)
    show "busy (ho_phase (sy_holds s ! k))" if "k \<in> active s c" "busy (ho_phase (sy_holds s' ! k))" for k
      using that \<open>tid \<notin> active s c\<close> assms(6) by (cases "k = tid") simp_all
  qed (rule that)
  from assms(4) held(1)[unfolded reserved_def] show ?thesis
  proof (cases rule: next_work_cases)
    case (more held')
    have res: "reserved s' c = (if c = ?c then Some held' else reserved s c)" for c
      using assms(7) more(2) sorted by (simp add: reserved_def bt_insert_get)
    have "p = HoldTop r t" using more(1) assms(5) by auto
    then have "held_one s' ?c" using act held(2) res more(3) assms(2,6) by (simp add: held_one_def)
    then have "held_one s' c" for c using elsewhere [of c] res by (cases "c = ?c") simp_all
    then show ?thesis using assms(7) more(2) sorted by (simp add: held_ok_def bt_insert_sorted)
  next
    case release
    have res: "reserved s' c = (if c = ?c then None else reserved s c)" for c
      using assms(7) release(3) by (simp add: reserved_def coord_fields bt_remove_get)
    have "held_one s' ?c" using act held(2) res release(1,2) assms(5) by (simp add: held_one_def)
    then have "held_one s' c" for c using elsewhere [of c] res by (cases "c = ?c") simp_all
    then show ?thesis using assms(7) release(3) sorted by (simp add: held_ok_def coord_fields bt_remove_sorted)
  qed
qed

lemma hold_held:
  assumes "hold_step gone tid wall err s = Some s'" and "held_ok s"
  shows "held_ok s'"
  using assms(1)
proof (cases rule: hold_step_cases)
  case (local p)
  have "bt_sorted (co_pending (sy_coord s))" using assms(2) by (simp add: held_ok_def)
  with local show ?thesis by (intro held_local [OF assms(2) local(1,2), of s' "(sy_holds s ! tid)\<lparr>ho_phase := p\<rparr>"]) (auto simp: coord_fields)
next
  case (settle key i outcome p)
  have "bt_sorted (co_pending (sy_coord s'))" using settle(4) assms(2) by (simp add: held_ok_def coord_fields settle_sorted)
  with settle show ?thesis by (intro held_local [OF assms(2) settle(1), of s' "(sy_holds s ! tid)\<lparr>ho_last_error := outcome, ho_phase := p\<rparr>"]) (auto simp: coord_fields)
next
  case (mark i)
  have "bt_sorted (co_pending (sy_coord s))" using assms(2) by (simp add: held_ok_def)
  with mark show ?thesis by (intro held_local [OF assms(2) mark(1), of s' "(sy_holds s ! tid)\<lparr>ho_phase := HoldNext\<rparr>"]) (auto simp: coord_fields)
next
  case (queue r t wake st p)
  show ?thesis by (rule queue_held [OF assms(2) queue(1-4)]) (simp_all add: queue(5) coord_fields)
qed

lemma held_invariant: "co_reachable gone s \<Longrightarrow> held_ok s"
proof (induction rule: co_reachable.induct)
  case (co_init now)
  show ?case by (simp add: held_ok_def held_one_def sys_start_def coord_default_def bt_sorted_def reserved_def active_def)
next
  case (co_next s a s')
  from co_next(2) show ?case
  proof (cases rule: act_core)
    case same
    then show ?thesis using co_next.IH same_core_held by blast
  next
    case (request g)
    have "map fst (retag key xs) = map fst xs" for key xs by (induction xs) (auto simp: retag_def)
    moreover have "held_one ((on_coord (request g) s)\<lparr>sy_requests := Suc (sy_requests s)\<rparr>) c" if "held_one s c" for c
      by (rule held_one_cong [OF that]) (simp_all add: reserved_def active_def coord_fields)
    ultimately have "held_ok ((on_coord (request g) s)\<lparr>sy_requests := Suc (sy_requests s)\<rparr>)" using co_next.IH
      by (simp add: held_ok_def coord_fields bt_sorted_def)
    then show ?thesis using same_core_held [OF request(2)] by simp
  next
    case (start wall cid t x)
    then show ?thesis using start_held [OF co_next.IH] same_core_held by blast
  next
    case (hold tid wall err)
    then show ?thesis using hold_held co_next.IH by blast
  qed
qed

section \<open>Containers that are reconciled, or will be\<close>

text \<open>A hold that will settle its container for the key \<open>latest\<close>.\<close>

fun pledged :: "pass_key \<Rightarrow> 'e hold_phase \<Rightarrow> bool" where
  "pledged latest (HoldTop reconcile _) \<longleftrightarrow> reconcile"
| "pledged latest (HoldMid reconcile) \<longleftrightarrow> reconcile"
| "pledged latest (HoldRun key _) \<longleftrightarrow> key = latest"
| "pledged latest (HoldSettle key _ _) \<longleftrightarrow> key = latest"
| "pledged latest _ \<longleftrightarrow> False"

fun unsettled :: "'e hold_phase \<Rightarrow> bool" where
  "unsettled (HoldRun _ _) \<longleftrightarrow> True"
| "unsettled (HoldSettle _ _ _) \<longleftrightarrow> True"
| "unsettled _ \<longleftrightarrow> False"

definition settled_latest :: "'e daemon_sys \<Rightarrow> string \<Rightarrow> bool" where
  "settled_latest s c \<longleftrightarrow> sy_settled s c = Some (co_latest (sy_coord s), True)"

definition accounted :: "'e daemon_sys \<Rightarrow> string \<Rightarrow> bool" where
  "accounted s c \<longleftrightarrow> map_of (co_pending (sy_coord s)) c \<noteq> None \<or> (\<exists>held. reserved s c = Some held \<and> rv_reconcile held)
     \<or> (\<exists>tid \<in> active s c. pledged (co_latest (sy_coord s)) (ho_phase (sy_holds s ! tid)))
     \<or> settled_latest s c \<and> (\<forall>tid \<in> active s c. \<not> unsettled (ho_phase (sy_holds s ! tid)))"

lemma same_core_covered: "same_core s s' \<Longrightarrow> accounted s' c = accounted s c"
  by (simp add: same_core_def accounted_def reserved_def active_def settled_latest_def)

text \<open>Entries of the pending containers are for the latest request.\<close>

definition pending_latest :: "coord_state \<Rightarrow> bool" where
  "pending_latest st \<longleftrightarrow> (\<forall>c entry. map_of (co_pending st) c = Some entry \<longrightarrow> pe_key entry = co_latest st)"

lemma settle_pending:
  assumes "bt_sorted (co_pending st)" and "pending_latest st"
  shows "c \<noteq> cid \<Longrightarrow> map_of (co_pending (settle gone now cid key err st)) c = map_of (co_pending st) c"
    and "err = None \<or> gone (the err) \<Longrightarrow> map_of (co_pending (settle gone now cid key err st)) cid = (case map_of (co_pending st) cid of
      None \<Rightarrow> None | Some entry \<Rightarrow> if key = co_latest st then None else Some (entry\<lparr>pe_due := now\<rparr>))"
    and "\<not> (err = None \<or> gone (the err)) \<Longrightarrow> map_of (co_pending (settle gone now cid key err st)) cid \<noteq> None"
    and "pending_latest (settle gone now cid key err st)"
  using assms by (auto simp: settle_def Let_def bt_insert_get bt_remove_get pending_latest_def split: option.splits if_splits)

lemma start_covered:
  assumes "held_ok s" and "accounted s c"
  shows "accounted (snd (start_hold wall cid t x s)) c"
proof -
  let ?s = "snd (start_hold wall cid t x s)"
  have sorted: "bt_sorted (co_in_flight (sy_coord s))" using assms(1) by (simp add: held_ok_def)
  show ?thesis
  proof (cases "reserved s cid")
    case None
    define h where "h = \<lparr>ho_container = cid, ho_enumerated = (\<not> x \<and> t = None), ho_last_error = (None :: 'a option),
      ho_phase = HoldTop (\<not> x) (if x then t else None)\<rparr>"
    have h: "sy_holds ?s = sy_holds s @ [h]" "ho_container h = cid" "ho_phase h = HoldTop (\<not> x) (if x then t else None)"
      by (simp_all add: start_hold_new [OF None] h_def)
    have act: "active ?s c = (if cid = c then insert (length (sy_holds s)) (active s c) else active s c)"
      using active_append [OF h(1), of c] h(2,3) by simp
    have old: "sy_holds ?s ! tid = sy_holds s ! tid" if "tid \<in> active s c" for tid
      using that h(1) by (simp add: active_def nth_append)
    have new: "sy_holds ?s ! length (sy_holds s) = h" using h(1) by simp
    have res: "c \<noteq> cid \<Longrightarrow> reserved ?s c = reserved s c" using sorted by (simp add: start_hold_new [OF None] reserved_def bt_insert_get)
    have rest: "sy_settled ?s = sy_settled s" "co_latest (sy_coord ?s) = co_latest (sy_coord s)" "co_pending (sy_coord ?s) = co_pending (sy_coord s)"
      by (simp_all add: start_hold_new [OF None])
    show ?thesis
      using assms(2) None act old new res h(3) unfolding accounted_def settled_latest_def rest by (cases "c = cid") auto
  next
    case (Some held)
    obtain held' where h: "start_hold wall cid t x s
        = (None, s\<lparr>sy_coord := (sy_coord s)\<lparr>co_in_flight := bt_insert cid held' (co_in_flight (sy_coord s))\<rparr>\<rparr>)"
      "rv_reconcile held \<longrightarrow> rv_reconcile held'" by (rule start_hold_queued [OF Some])
    have act: "active ?s = active s" by (rule active_cong) (simp add: h(1))
    have res: "reserved ?s c = (if c = cid then Some held' else reserved s c)"
      using h(1) sorted by (simp add: reserved_def bt_insert_get)
    show ?thesis using assms(2) Some h(2) unfolding accounted_def settled_latest_def act res by (auto simp: h(1))
  qed
qed

lemma reserved_covered:
  assumes "held_ok s"
  shows "accounted (snd (start_hold wall cid None False s)) cid"
proof (cases "reserved s cid")
  case None
  then show ?thesis by (auto simp: start_hold_new accounted_def active_def intro!: bexI [of _ "length (sy_holds s)"])
next
  case (Some held)
  obtain held' where h: "start_hold wall cid None False s
      = (None, s\<lparr>sy_coord := (sy_coord s)\<lparr>co_in_flight := bt_insert cid held' (co_in_flight (sy_coord s))\<rparr>\<rparr>)"
    "(None :: timestamp option) = None \<and> \<not> False \<longrightarrow> rv_reconcile held'" by (rule start_hold_queued [OF Some])
  then show ?thesis using assms by (simp add: accounted_def reserved_def bt_insert_get held_ok_def)
qed

text \<open>A step of a hold: nothing of another container changes.\<close>

lemma covered_elsewhere:
  assumes "accounted s c" and "c \<noteq> ho_container (sy_holds s ! tid)" and "tid < length (sy_holds s)"
    and "sy_holds s' = (sy_holds s)[tid := h]" and "ho_container h = ho_container (sy_holds s ! tid)"
    and "reserved s' c = reserved s c" and "map_of (co_pending (sy_coord s')) c = map_of (co_pending (sy_coord s)) c"
    and "co_latest (sy_coord s') = co_latest (sy_coord s)" and "sy_settled s' c = sy_settled s c"
  shows "accounted s' c"
proof -
  have "active s' c = active s c" using assms(2-5) by (auto simp: active_def nth_list_update split: if_splits)
  moreover have "sy_holds s' ! k = sy_holds s ! k" if "k \<in> active s c" for k
    using that assms(2,4) by (cases "k = tid") (auto simp: active_def)
  ultimately show ?thesis using assms(1,6-9) unfolding accounted_def settled_latest_def by auto
qed

text \<open>The container of the hold itself, which is its only active hold.\<close>

lemma covered_here:
  assumes "held_ok s" and "tid < length (sy_holds s)" and "ho_phase (sy_holds s ! tid) \<noteq> HoldDone"
    and "sy_holds s' = (sy_holds s)[tid := h]" and "ho_container h = ho_container (sy_holds s ! tid)" and "c = ho_container h"
  shows "accounted s c \<longleftrightarrow> map_of (co_pending (sy_coord s)) c \<noteq> None \<or> (\<exists>held. reserved s c = Some held \<and> rv_reconcile held)
      \<or> pledged (co_latest (sy_coord s)) (ho_phase (sy_holds s ! tid)) \<or> settled_latest s c \<and> \<not> unsettled (ho_phase (sy_holds s ! tid))"
    and "accounted s' c \<longleftrightarrow> map_of (co_pending (sy_coord s')) c \<noteq> None \<or> (\<exists>held. reserved s' c = Some held \<and> rv_reconcile held)
      \<or> pledged (co_latest (sy_coord s')) (ho_phase h) \<or> settled_latest s' c \<and> \<not> unsettled (ho_phase h)"
proof -
  have "active s c = {tid}" using held_at [OF assms(1-3)] assms(5,6) by metis
  then show "accounted s c \<longleftrightarrow> map_of (co_pending (sy_coord s)) c \<noteq> None \<or> (\<exists>held. reserved s c = Some held \<and> rv_reconcile held)
      \<or> pledged (co_latest (sy_coord s)) (ho_phase (sy_holds s ! tid)) \<or> settled_latest s c \<and> \<not> unsettled (ho_phase (sy_holds s ! tid))"
    by (simp add: accounted_def)
  have act: "active s' c = (if ho_phase h = HoldDone then {} else {tid})"
    using active_update [OF assms(4,2,5,3), of c] \<open>active s c = {tid}\<close> by simp
  have "sy_holds s' ! tid = h" using assms(2,4) by simp
  then show "accounted s' c \<longleftrightarrow> map_of (co_pending (sy_coord s')) c \<noteq> None \<or> (\<exists>held. reserved s' c = Some held \<and> rv_reconcile held)
      \<or> pledged (co_latest (sy_coord s')) (ho_phase h) \<or> settled_latest s' c \<and> \<not> unsettled (ho_phase h)"
    unfolding accounted_def act by (cases "ho_phase h = HoldDone") simp_all
qed

lemma hold_covered:
  assumes "hold_step gone tid wall err s = Some s'" and "held_ok s" and "pending_latest (sy_coord s)" and "accounted s c"
  shows "accounted s' c"
proof -
  let ?cid = "ho_container (sy_holds s ! tid)"
  have sorted: "bt_sorted (co_in_flight (sy_coord s))" "bt_sorted (co_pending (sy_coord s))" using assms(2) by (simp_all add: held_ok_def)
  note fields = coord_fields reserved_def settled_latest_def
  from assms(1) show ?thesis
  proof (cases rule: hold_step_cases)
    case (local p)
    have h: "sy_holds s' = (sy_holds s)[tid := (sy_holds s ! tid)\<lparr>ho_phase := p\<rparr>]" using local(3) by (simp add: coord_fields)
    show ?thesis
    proof (cases "c = ?cid")
      case True
      show ?thesis using assms(4) covered_here [OF assms(2) local(1,2) h, of c] True local(3,6) by (auto simp: fields)
    qed (use covered_elsewhere [OF assms(4) _ local(1) h] local(3) in \<open>simp add: fields\<close>)
  next
    case (settle key i outcome p)
    have h: "sy_holds s' = (sy_holds s)[tid := (sy_holds s ! tid)\<lparr>ho_last_error := outcome, ho_phase := p\<rparr>]"
      using settle(4) by (simp add: coord_fields)
    note pend = settle_pending [OF sorted(2) assms(3), where gone = gone and now = "sy_now s" and cid = ?cid and key = key and err = outcome]
    show ?thesis
    proof (cases "c = ?cid")
      case True
      have old: "map_of (co_pending (sy_coord s)) ?cid \<noteq> None \<or> (\<exists>held. reserved s ?cid = Some held \<and> rv_reconcile held)
          \<or> key = co_latest (sy_coord s)"
        using assms(4) covered_here(1) [OF assms(2) settle(1) _ h, of c] True settle(2) by simp
      have p: "\<not> pledged k p" "\<not> unsettled p" for k using settle(3) by auto
      have "accounted s' ?cid \<longleftrightarrow> map_of (co_pending (sy_coord s')) ?cid \<noteq> None \<or> (\<exists>held. reserved s ?cid = Some held \<and> rv_reconcile held)
          \<or> settled_latest s' ?cid"
      proof -
        have ph: "ho_phase (sy_holds s ! tid) \<noteq> HoldDone" using settle(2) by simp
        have "reserved s' = reserved s" using settle(4) by (simp add: fields)
        then show ?thesis by (subst covered_here(2) [OF assms(2) settle(1) ph h]) (simp_all add: p)
      qed
      moreover have "settled_latest s' ?cid \<longleftrightarrow> key = co_latest (sy_coord s) \<and> (outcome = None \<or> gone (the outcome))"
        using settle(4) by (cases outcome) (simp_all add: fields)
      moreover have "co_pending (sy_coord s') = co_pending (settle gone (sy_now s) ?cid key outcome (sy_coord s))"
        using settle(4) by (simp add: coord_fields)
      ultimately show ?thesis using old pend(2,3) True
        by (cases "outcome = None \<or> gone (the outcome)"; cases "key = co_latest (sy_coord s)") (auto split: option.splits)
    qed (use covered_elsewhere [OF assms(4) _ settle(1) h] settle(4) pend(1) [where c = c] in \<open>simp add: fields\<close>)
  next
    case (mark i)
    have h: "sy_holds s' = (sy_holds s)[tid := (sy_holds s ! tid)\<lparr>ho_phase := HoldNext\<rparr>]" using mark(3) by (simp add: coord_fields)
    show ?thesis
    proof (cases "c = ?cid")
      case True
      show ?thesis using assms(4) covered_here [OF assms(2) mark(1) _ h, of c] True mark(2,3) by (auto simp: fields)
    qed (use covered_elsewhere [OF assms(4) _ mark(1) h] mark(3) in \<open>simp add: fields\<close>)
  next
    case (queue r t wake st p)
    have h: "sy_holds s' = (sy_holds s)[tid := (sy_holds s ! tid)\<lparr>ho_phase := p\<rparr>]" using queue(5) by (simp add: coord_fields)
    obtain held where held: "reserved s ?cid = Some held" using held_at [OF assms(2) queue(1)] queue(2) by auto
    from queue(3) held [unfolded reserved_def] show ?thesis
    proof (cases rule: next_work_cases)
      case (more held')
      then have p: "p = HoldTop r t" using queue(4) by auto
      show ?thesis
      proof (cases "c = ?cid")
        case True
        then show ?thesis using assms(4) covered_here [OF assms(2) queue(1) _ h, of c] queue(2,5) held more p sorted
          by (auto simp: fields bt_insert_get)
      qed (use covered_elsewhere [OF assms(4) _ queue(1) h] queue(5) more(2) sorted in \<open>simp add: fields bt_insert_get\<close>)
    next
      case release
      then have p: "p = HoldDone" using queue(4) by auto
      show ?thesis
      proof (cases "c = ?cid")
        case True
        then show ?thesis using assms(4) covered_here [OF assms(2) queue(1) _ h, of c] queue(2,5) held release p
          by (auto simp: fields)
      qed (use covered_elsewhere [OF assms(4) _ queue(1) h] queue(5) release(3) in \<open>simp add: fields bt_remove_get\<close>)
    qed
  qed
qed

section \<open>The keys of passes\<close>

text \<open>A key is older than the latest one, or it is the latest one.\<close>

definition key_ok :: "'e daemon_sys \<Rightarrow> pass_key \<Rightarrow> bool" where
  "key_ok s key \<longleftrightarrow> unat (pk_epoch key) < sy_requests s \<or> key = co_latest (sy_coord s)"

definition keys_ok :: "'e daemon_sys \<Rightarrow> bool" where
  "keys_ok s \<longleftrightarrow> unat (pk_epoch (co_latest (sy_coord s))) = sy_requests s \<and> pending_latest (sy_coord s)"

lemma retag_get: "map_of (retag key xs) c = map_option (\<lambda>entry. entry\<lparr>pe_key := key\<rparr>) (map_of xs c)"
  by (induction xs) (auto simp: retag_def)

lemma request_keys:
  assumes "keys_ok s" and "Suc (sy_requests s) < 2 ^ 64" and "key_ok s key"
    and "s' = (on_coord (request g) s)\<lparr>sy_requests := Suc (sy_requests s)\<rparr>"
  shows "keys_ok s'" and "unat (pk_epoch key) < sy_requests s'" and "key \<noteq> co_latest (sy_coord s')"
proof -
  have "unat (pk_epoch (co_latest (sy_coord s')) :: u64) = Suc (sy_requests s)"
    using assms(1,2,4) by (simp add: coord_fields keys_ok_def unat_word_ariths)
  moreover have "pending_latest (sy_coord s')" using assms(4) by (auto simp: pending_latest_def coord_fields retag_get)
  ultimately show "keys_ok s'" using assms(4) by (simp add: keys_ok_def)
  show "unat (pk_epoch key) < sy_requests s'" using assms(1,3,4) by (auto simp: key_ok_def keys_ok_def)
  then show "key \<noteq> co_latest (sy_coord s')" using \<open>keys_ok s'\<close> by (auto simp: keys_ok_def)
qed

lemma same_core_keys: "same_core s s' \<Longrightarrow> keys_ok s' = keys_ok s" "same_core s s' \<Longrightarrow> key_ok s' key = key_ok s key"
  by (simp_all add: same_core_def keys_ok_def key_ok_def pending_latest_def)

lemma start_core:
  "co_latest (sy_coord (snd (start_hold wall cid t x s))) = co_latest (sy_coord s)"
  "co_pending (sy_coord (snd (start_hold wall cid t x s))) = co_pending (sy_coord s)"
  "sy_requests (snd (start_hold wall cid t x s)) = sy_requests s"
  "sy_run (snd (start_hold wall cid t x s)) = sy_run s"
  "sy_listed (snd (start_hold wall cid t x s)) = sy_listed s"
  "co_incomplete (sy_coord (snd (start_hold wall cid t x s))) = co_incomplete (sy_coord s)"
  "co_dirty (sy_coord (snd (start_hold wall cid t x s))) = co_dirty (sy_coord s)"
  "sy_canceled (snd (start_hold wall cid t x s)) = sy_canceled s"
  "sy_wake (snd (start_hold wall cid t x s)) = sy_wake s"
  using reserve_fields [of wall cid t x "sy_coord s"] by (auto simp: start_hold_def split: prod.split)

lemma next_work_fields:
  "next_work now cid st = (rt, wake, st') \<Longrightarrow> co_latest st' = co_latest st \<and> co_pending st' = co_pending st
    \<and> co_incomplete st' = co_incomplete st \<and> co_dirty st' = co_dirty st"
  by (auto simp: next_work_def coord_fields split: option.splits if_splits)

lemma hold_core:
  assumes "hold_step gone tid wall err s = Some s'"
  shows "co_latest (sy_coord s') = co_latest (sy_coord s)" "sy_requests s' = sy_requests s" "sy_run s' = sy_run s"
    "sy_listed s' = sy_listed s" "co_incomplete (sy_coord s') = co_incomplete (sy_coord s)"
    "co_dirty (sy_coord s') = co_dirty (sy_coord s)" "sy_canceled s' = sy_canceled s" "sy_event s' = sy_event s"
  using assms by (cases rule: hold_step_cases; auto simp: coord_fields dest: next_work_fields)+

lemma hold_pending:
  assumes "hold_step gone tid wall err s = Some s'" and "held_ok s" and "pending_latest (sy_coord s)"
  shows "pending_latest (sy_coord s')"
  using assms(1)
proof (cases rule: hold_step_cases)
  case (settle key i outcome p)
  have "bt_sorted (co_pending (sy_coord s))" using assms(2) by (simp add: held_ok_def)
  then show ?thesis using settle settle_pending(4) assms(3) by (simp add: coord_fields)
next
  case (queue r t wake st p)
  then show ?thesis using next_work_fields [OF queue(3)] assms(3) by (simp add: coord_fields pending_latest_def)
qed (use assms(3) in \<open>auto simp: coord_fields pending_latest_def\<close>)

lemma hold_keys:
  assumes "hold_step gone tid wall err s = Some s'" and "held_ok s" and "keys_ok s"
  shows "keys_ok s'"
  using hold_pending [OF assms(1,2)] hold_core [OF assms(1)] assms(3) by (simp add: keys_ok_def)

lemma requests_grow: "co_act gone a s = Some s' \<Longrightarrow> sy_requests s \<le> sy_requests s'"
  by (erule act_core) (auto simp: same_core_def start_core hold_core)

lemma keys_invariant: "co_reachable gone s \<Longrightarrow> sy_requests s < 2 ^ 64 \<Longrightarrow> keys_ok s"
proof (induction rule: co_reachable.induct)
  case (co_init now)
  show ?case by (simp add: keys_ok_def sys_start_def coord_default_def key_default_def pending_latest_def)
next
  case (co_next s a s')
  have held: "held_ok s" using held_invariant co_next(1) .
  have "sy_requests s < 2 ^ 64" using requests_grow [OF co_next(2)] co_next.prems by simp
  then have IH: "keys_ok s" by (rule co_next.IH)
  from co_next(2) show ?case
  proof (cases rule: act_core)
    case same
    then show ?thesis using IH same_core_keys by blast
  next
    case (request g)
    have "Suc (sy_requests s) < 2 ^ 64" using co_next.prems request by (simp add: same_core_def)
    then have "keys_ok ((on_coord (request g) s)\<lparr>sy_requests := Suc (sy_requests s)\<rparr>)"
      using request_keys(1) [OF IH _ _ refl, of "co_latest (sy_coord s)"] by (simp add: key_ok_def)
    then show ?thesis using same_core_keys(1) [OF request(2)] by simp
  next
    case (start wall cid t x)
    have "keys_ok (snd (start_hold wall cid t x s))" using IH by (simp add: keys_ok_def start_core pending_latest_def)
    then show ?thesis using same_core_keys(1) [OF start] by simp
  next
    case (hold tid wall err)
    then show ?thesis using hold_keys held IH by blast
  qed
qed

section \<open>Passes\<close>

definition visited :: "'e daemon_sys \<Rightarrow> pass_key \<Rightarrow> string list \<Rightarrow> string list \<Rightarrow> bool" where
  "visited s key listed left \<longleftrightarrow> key_ok s key
     \<and> (\<exists>vis. listed = vis @ left \<and> (key = co_latest (sy_coord s) \<longrightarrow> (\<forall>c \<in> set vis. accounted s c)))"

fun phase_ok :: "'e daemon_sys \<Rightarrow> run_phase \<Rightarrow> bool" where
  "phase_ok s (RunList key) \<longleftrightarrow> key_ok s key"
| "phase_ok s (RunVisit key listed left) \<longleftrightarrow> visited s key listed left"
| "phase_ok s (RunReserve key listed cid left) \<longleftrightarrow> visited s key listed (cid # left)"
| "phase_ok s (RunAwait key listed left tid) \<longleftrightarrow> visited s key listed left"
| "phase_ok s _ \<longleftrightarrow> True"

text \<open>The last finished pass was for the latest request, unless one is outstanding or there was none.\<close>

definition listed_ok :: "'e daemon_sys \<Rightarrow> bool" where
  "listed_ok s \<longleftrightarrow> co_incomplete (sy_coord s) \<or> (sy_requests s = 0 \<and> co_announced (sy_coord s) = co_latest (sy_coord s))
     \<or> (\<exists>cs. sy_listed s = Some (co_latest (sy_coord s), cs) \<and> (\<forall>c \<in> set cs. accounted s c))"

definition pass_ok :: "'e daemon_sys \<Rightarrow> bool" where
  "pass_ok s \<longleftrightarrow> phase_ok s (ru_phase (sy_run s)) \<and> listed_ok s"

text \<open>What every action but a request keeps.\<close>

definition keeps_covered :: "'e daemon_sys \<Rightarrow> 'e daemon_sys \<Rightarrow> bool" where
  "keeps_covered s s' \<longleftrightarrow> co_latest (sy_coord s') = co_latest (sy_coord s) \<and> sy_requests s' = sy_requests s
     \<and> (\<forall>c. accounted s c \<longrightarrow> accounted s' c)"

lemma keeps_covered_act:
  assumes "co_act gone a s = Some s'" and "held_ok s" and "keys_ok s" and "\<forall>g. a \<noteq> ActRequest g"
  shows "keeps_covered s s'"
proof -
  have core: "keeps_covered s s'" if "same_core s2 s'" "keeps_covered s s2" for s2
    using that same_core_covered [OF that(1)] by (simp add: keeps_covered_def same_core_def)
  have run: "keeps_covered s s'" if "same_core s s' \<or> (\<exists>wall cid t x. same_core (snd (start_hold wall cid t x s)) s')"
    using that core start_covered [OF assms(2)] by (auto simp: keeps_covered_def start_core)
  show ?thesis using assms(1)
  proof (cases rule: act_core)
    case (request g)
    then show ?thesis using assms(4) by simp
  next
    case (hold tid wall err)
    then show ?thesis using hold_covered [OF hold assms(2)] assms(3) hold_core [OF hold] by (simp add: keeps_covered_def keys_ok_def)
  qed (use run in blast)+
qed

lemma visited_keeps: "keeps_covered s s' \<Longrightarrow> visited s key listed left \<Longrightarrow> visited s' key listed left"
  unfolding keeps_covered_def visited_def key_ok_def by auto

lemma key_ok_keeps: "keeps_covered s s' \<Longrightarrow> key_ok s key \<Longrightarrow> key_ok s' key"
  by (simp add: keeps_covered_def key_ok_def)

lemma phase_ok_keeps: "keeps_covered s s' \<Longrightarrow> phase_ok s p \<Longrightarrow> phase_ok s' p"
  by (cases p) (auto intro: visited_keeps key_ok_keeps)

lemma run_go_phase:
  assumes "run_go wall s = Some s'" and "held_ok s" and "keeps_covered s s'" and "phase_ok s (ru_phase (sy_run s))"
  shows "phase_ok s' (ru_phase (sy_run s'))"
proof (cases "ru_phase (sy_run s)")
  case RunTop
  then show ?thesis using assms(1) by (auto simp: run_go_def take_request_def coord_fields key_ok_def split: if_splits)
next
  case (RunVisit key listed left)
  then have "visited s' key listed left" using visited_keeps [OF assms(3)] assms(4) by simp
  then show ?thesis using assms(1) RunVisit by (cases left) (auto simp: run_go_def coord_fields split: if_splits)
next
  case (RunReserve key listed cid left)
  obtain r s1 where r: "start_hold wall cid None False s = (r, s1)" by fastforce
  then have s': "same_core s1 s'" "ru_phase (sy_run s') = RunVisit key listed left \<or> (\<exists>tid. ru_phase (sy_run s') = RunAwait key listed left tid)"
    using assms(1) RunReserve by (cases r; auto simp: run_go_def same_core_def coord_fields)+
  have cid: "accounted s' cid" using reserved_covered [OF assms(2), of wall cid] same_core_covered [OF s'(1)] r by simp
  have "visited s' key listed (cid # left)" using visited_keeps [OF assms(3)] assms(4) RunReserve by simp
  then obtain vis where "key_ok s' key" "listed = (vis @ [cid]) @ left"
    "key = co_latest (sy_coord s') \<longrightarrow> (\<forall>c \<in> set vis. accounted s' c)" by (auto simp: visited_def)
  then have "visited s' key listed left" unfolding visited_def using cid by (intro conjI exI [of _ "vis @ [cid]"]) auto
  then show ?thesis using s'(2) by auto
next
  case (RunAwait key listed left tid)
  then have "visited s' key listed left" using visited_keeps [OF assms(3)] assms(4) by simp
  then show ?thesis using assms(1) RunAwait by (auto simp: run_go_def coord_fields split: if_splits)
next
  case (RunRetry ids)
  show ?thesis
  proof (cases ids)
    case Nil
    then show ?thesis using assms(1) RunRetry by (auto simp: run_go_def coord_fields)
  next
    case (Cons cid left)
    then show ?thesis using assms(1) RunRetry by (auto simp: run_go_def coord_fields split: if_splits prod.splits option.splits)
  qed
qed (use assms(1) in \<open>auto simp: run_go_def coord_fields split: if_splits\<close>)

lemma loop_step_phase:
  assumes "loop_step input s = Some s'" and "held_ok s" and "keeps_covered s s'" and "phase_ok s (ru_phase (sy_run s))"
  shows "phase_ok s' (ru_phase (sy_run s'))"
proof (cases input)
  case (RunGo wall)
  then show ?thesis using run_go_phase assms by (simp add: loop_step_def)
next
  case (RunListed listed)
  then obtain key where key: "ru_phase (sy_run s) = RunList key" using assms(1) by (auto simp: loop_step_def split: run_phase.splits)
  then have "key_ok s' key" using phase_ok_keeps [OF assms(3)] assms(4) by fastforce
  then show ?thesis using assms(1) RunListed key by (auto simp: loop_step_def coord_fields visited_def split: option.splits)
next
  case (RunSelected sel)
  then obtain retry where "select_step retry sel s = Some s'" using assms(1) by (auto simp: loop_step_def split: run_phase.splits)
  then show ?thesis by (cases sel) (auto simp: select_step_def Let_def coord_fields split: if_splits)
qed

text \<open>What an action but a request does to the bookkeeping of completion.\<close>

definition pass_frame :: "'e daemon_sys \<Rightarrow> 'e daemon_sys \<Rightarrow> bool" where
  "pass_frame s s' \<longleftrightarrow> (co_announced (sy_coord s') = co_announced (sy_coord s) \<or> co_announced (sy_coord s') = co_latest (sy_coord s))
     \<and> (co_incomplete (sy_coord s') = co_incomplete (sy_coord s) \<and> sy_listed s' = sy_listed s
        \<or> (\<exists>key listed. ru_phase (sy_run s) = RunVisit key listed []
             \<and> co_incomplete (sy_coord s') = (co_incomplete (sy_coord s) \<and> key \<noteq> co_latest (sy_coord s))
             \<and> sy_listed s' = (if key = co_latest (sy_coord s) then Some (key, listed) else sy_listed s)))"

lemma announces: "co_announced (announce_locked st) = co_announced st \<or> co_announced (announce_locked st) = co_latest st"
  "co_announced (report_locked st) = co_announced st \<or> co_announced (report_locked st) = co_latest st"
  "co_announced (finish_pass key st) = co_announced st \<or> co_announced (finish_pass key st) = co_latest st"
  by (simp_all add: announce_locked_def report_locked_def finish_pass_def)

lemma next_work_announces:
  assumes "next_work now cid st = (rt, wake, st')"
  shows "co_announced st' = co_announced st \<or> co_announced st' = co_latest st"
proof (cases "map_of (co_in_flight st) cid")
  case None
  then show ?thesis using assms by (simp add: next_work_def)
next
  case (Some held)
  then show ?thesis using assms announces(1) [of "st\<lparr>co_in_flight := bt_remove cid (co_in_flight st)\<rparr>"]
    by (auto simp: next_work_def split: if_splits)
qed

lemma start_frame: "pass_frame s s'" if "start_hold wall cid t x s = (r, s1)" and "sy_coord s' = sy_coord s1" and "sy_listed s' = sy_listed s1"
  using that start_core(5,6) [of wall cid t x s] reserve_fields(3) [of wall cid t x "sy_coord s"]
  by (auto simp: pass_frame_def start_hold_def split: prod.splits if_splits)

lemma run_go_frame:
  assumes "run_go wall s = Some s'"
  shows "pass_frame s s'"
proof (cases "ru_phase (sy_run s)")
  case (RunVisit key listed left)
  then show ?thesis using assms announces(3) [of key "sy_coord s"]
    by (cases left) (auto simp: run_go_def coord_fields pass_frame_def split: if_splits)
next
  case (RunReserve key listed cid left)
  then show ?thesis using assms
    by (cases "start_hold wall cid None False s") (auto simp: run_go_def coord_fields intro!: start_frame split: option.splits)
next
  case (RunRetry ids)
  show ?thesis
  proof (cases ids)
    case Nil
    then show ?thesis using assms RunRetry announces(2) [of "sy_coord s"] by (auto simp: run_go_def coord_fields pass_frame_def)
  next
    case (Cons cid left)
    show ?thesis
    proof (cases "sy_canceled s")
      case True
      then show ?thesis using assms RunRetry Cons by (auto simp: run_go_def coord_fields pass_frame_def)
    next
      case False
      then show ?thesis using assms RunRetry Cons
        by (cases "start_hold wall cid None False s") (auto simp: run_go_def coord_fields intro!: start_frame split: option.splits)
    qed
  qed
next
  case RunTop
  then show ?thesis using assms by (auto simp: run_go_def take_request_def coord_fields pass_frame_def split: if_splits)
qed (use assms in \<open>auto simp: run_go_def coord_fields pass_frame_def split: if_splits\<close>)

lemma act_frame:
  assumes "co_act gone a s = Some s'" and "\<forall>g. a \<noteq> ActRequest g"
  shows "pass_frame s s'"
proof (cases a)
  case (ActEvent wall action cid time_nano)
  then have s': "s' = handle_event wall action cid time_nano s" using assms(1) by (auto split: if_splits)
  obtain r s1 where r: "start_hold wall cid (Some (event_time time_nano)) True s = (r, s1)" by fastforce
  show ?thesis
  proof (cases "action = ACTION_DIE \<or> action = ACTION_DESTROY")
    case True
    then show ?thesis using s' r by (cases r) (auto simp: handle_event_def Let_def intro!: start_frame [OF r])
  next
    case False
    then show ?thesis using s' skip_fields [of "sy_now s" cid "event_time time_nano" "sy_coord s"]
      by (auto simp: handle_event_def Let_def pass_frame_def split: prod.splits)
  qed
next
  case (ActEventStep wall)
  then have e: "event_step wall s = Some s'" using assms(1) by simp
  show ?thesis
  proof (cases "sy_event s")
    case (EvReserve cid t)
    obtain r s1 where r: "start_hold wall cid (Some t) False s = (r, s1)" by fastforce
    then show ?thesis using e EvReserve by (cases r) (auto simp: event_step_def intro!: start_frame [OF r])
  qed (use e in \<open>auto simp: event_step_def pass_frame_def split: if_splits\<close>)
next
  case (ActRun input)
  show ?thesis
  proof (cases input)
    case (RunGo wall)
    then show ?thesis using ActRun assms(1) run_go_frame by (simp add: loop_step_def)
  next
    case (RunListed listed)
    then show ?thesis using ActRun assms(1) announces(2) [of "sy_coord s"]
      by (auto simp: loop_step_def coord_fields pass_frame_def split: run_phase.splits option.splits)
  next
    case (RunSelected sel)
    then obtain retry where "select_step retry sel s = Some s'" using ActRun assms(1) by (auto simp: loop_step_def split: run_phase.splits)
    then show ?thesis by (cases sel) (auto simp: select_step_def Let_def coord_fields pass_frame_def split: if_splits)
  qed
next
  case (ActHold tid wall err)
  then have h: "hold_step gone tid wall err s = Some s'" using assms(1) by simp
  then have "co_announced (sy_coord s') = co_announced (sy_coord s) \<or> co_announced (sy_coord s') = co_latest (sy_coord s)"
  proof (cases rule: hold_step_cases)
    case (queue r t wake st p)
    then show ?thesis using next_work_announces [OF queue(3)] by (simp add: coord_fields)
  qed (auto simp: coord_fields)
  then show ?thesis using hold_core [OF h] by (simp add: pass_frame_def)
qed (use assms in \<open>auto simp: pass_frame_def\<close>)

lemma start_hold_run: "start_hold wall cid t x s = (r, s1) \<Longrightarrow> sy_run s1 = sy_run s"
  using start_core(4) [of wall cid t x s] by simp

lemma run_unchanged:
  assumes "co_act gone a s = Some s'" and "\<forall>input. a \<noteq> ActRun input"
  shows "sy_run s' = sy_run s"
proof (cases a)
  case (ActEvent wall action cid time_nano)
  then show ?thesis using assms(1)
    by (auto simp: handle_event_def Let_def dest: start_hold_run split: if_splits prod.splits option.splits)
next
  case (ActEventStep wall)
  then show ?thesis using assms(1)
    by (auto simp: event_step_def dest: start_hold_run split: if_splits prod.splits option.splits event_phase.splits)
next
  case (ActHold tid wall err)
  then show ?thesis using assms(1) hold_core by auto
qed (use assms in \<open>auto simp: coord_fields\<close>)

lemma pass_step:
  assumes "co_act gone a s = Some s'" and "held_ok s" and "keys_ok s" and "pass_ok s" and "\<forall>g. a \<noteq> ActRequest g"
  shows "pass_ok s'"
proof -
  have k: "keeps_covered s s'" by (rule keeps_covered_act [OF assms(1-3,5)])
  have f: "pass_frame s s'" by (rule act_frame [OF assms(1,5)])
  have p: "phase_ok s (ru_phase (sy_run s))" and l: "listed_ok s" using assms(4) by (simp_all add: pass_ok_def)
  have "phase_ok s' (ru_phase (sy_run s'))"
  proof (cases "\<exists>input. a = ActRun input")
    case True
    then show ?thesis using loop_step_phase [OF _ assms(2) k p] assms(1) by auto
  next
    case False
    then show ?thesis using run_unchanged [OF assms(1)] phase_ok_keeps [OF k p] by simp
  qed
  moreover have "listed_ok s'"
  proof (cases "\<exists>key listed. ru_phase (sy_run s) = RunVisit key listed [] \<and> key = co_latest (sy_coord s) \<and> sy_listed s' = Some (key, listed)")
    case True
    then obtain listed where "visited s (co_latest (sy_coord s)) listed []" "sy_listed s' = Some (co_latest (sy_coord s), listed)"
      using p by auto
    then show ?thesis using k by (auto simp: listed_ok_def visited_def keeps_covered_def)
  next
    case False
    then have "co_incomplete (sy_coord s') = co_incomplete (sy_coord s)" "sy_listed s' = sy_listed s"
      using f by (auto simp: pass_frame_def split: if_splits)
    moreover have "co_announced (sy_coord s') = co_announced (sy_coord s) \<or> co_announced (sy_coord s') = co_latest (sy_coord s)"
      using f by (simp add: pass_frame_def)
    ultimately show ?thesis using l k by (auto simp: listed_ok_def keeps_covered_def)
  qed
  ultimately show ?thesis by (simp add: pass_ok_def)
qed

lemma phase_ok_request:
  assumes "phase_ok s p" and "\<And>key. key_ok s key \<Longrightarrow> key_ok s' key \<and> key \<noteq> co_latest (sy_coord s')"
  shows "phase_ok s' p"
  using assms by (cases p) (auto simp: visited_def)

lemma pass_invariant: "co_reachable gone s \<Longrightarrow> sy_requests s < 2 ^ 64 \<Longrightarrow> pass_ok s"
proof (induction rule: co_reachable.induct)
  case (co_init now)
  show ?case by (simp add: pass_ok_def listed_ok_def sys_start_def coord_default_def)
next
  case (co_next s a s')
  have n: "sy_requests s < 2 ^ 64" using requests_grow [OF co_next(2)] co_next.prems by simp
  note inv = held_invariant [OF co_next(1)] keys_invariant [OF co_next(1) n] co_next.IH [OF n]
  show ?case
  proof (cases "\<exists>g. a = ActRequest g")
    case True
    then obtain g where a: "a = ActRequest g" ..
    let ?s = "(on_coord (request g) s)\<lparr>sy_requests := Suc (sy_requests s)\<rparr>"
    have s': "s' = (on_coord (request g) s)\<lparr>sy_wake := True, sy_requests := Suc (sy_requests s)\<rparr>" using co_next(2) a by simp
    then have core: "same_core ?s s'" by (simp add: same_core_def)
    have n': "Suc (sy_requests s) < 2 ^ 64" using co_next.prems s' by simp
    have req: "key_ok s' key \<and> key \<noteq> co_latest (sy_coord s')" if "key_ok s key" for key
      using request_keys(2,3) [OF inv(2) n' that refl, of g] same_core_keys(2) [OF core, of key] core
      by (simp add: key_ok_def same_core_def)
    have "phase_ok s (ru_phase (sy_run s))" using inv(3) by (simp add: pass_ok_def)
    then have "phase_ok s' (ru_phase (sy_run s))" by (rule phase_ok_request) (rule req)
    then show ?thesis by (simp add: pass_ok_def listed_ok_def coord_fields s')
  qed (use pass_step [OF co_next(2) inv] in blast)
qed

section \<open>Properties\<close>

text \<open>
  C38. A container is handled by one hold at a time: two unfinished holds of the same container are
  the same task. While it is unfinished the container is reserved, and a hold whose work includes a
  reconcile has its reservation marked as running, so completion waits for it.
\<close>

theorem one_handler:
  assumes "co_reachable gone s" and "tid < length (sy_holds s)" and "tid' < length (sy_holds s)"
    and "ho_phase (sy_holds s ! tid) \<noteq> HoldDone" and "ho_phase (sy_holds s ! tid') \<noteq> HoldDone"
    and "ho_container (sy_holds s ! tid) = ho_container (sy_holds s ! tid')"
  shows "tid = tid' \<and> (\<exists>held. map_of (co_in_flight (sy_coord s)) (ho_container (sy_holds s ! tid)) = Some held
    \<and> (busy (ho_phase (sy_holds s ! tid)) \<longrightarrow> rv_running held))"
proof -
  have held: "held_ok s" by (rule held_invariant [OF assms(1)])
  obtain r where r: "reserved s (ho_container (sy_holds s ! tid)) = Some r" "active s (ho_container (sy_holds s ! tid)) = {tid}"
    "busy (ho_phase (sy_holds s ! tid)) \<longrightarrow> rv_running r" by (rule held_at [OF held assms(2,4)])
  have "tid' \<in> active s (ho_container (sy_holds s ! tid))" using assms(3,5,6) by (simp add: active_def)
  then show ?thesis using r by (auto simp: reserved_def)
qed

lemma act_latest: "co_act gone a s = Some s' \<Longrightarrow> \<forall>g. a \<noteq> ActRequest g \<Longrightarrow> co_latest (sy_coord s') = co_latest (sy_coord s)"
  by (erule act_core) (auto simp: same_core_def start_core hold_core)

lemma announced_start: "co_reachable gone s \<Longrightarrow> sy_requests s = 0 \<Longrightarrow> co_announced (sy_coord s) = co_latest (sy_coord s)"
proof (induction rule: co_reachable.induct)
  case (co_init now)
  show ?case by (simp add: sys_start_def coord_default_def)
next
  case (co_next s a s')
  have z: "sy_requests s = 0" using requests_grow [OF co_next(2)] co_next.prems by simp
  have a: "\<forall>g. a \<noteq> ActRequest g" using co_next(2) co_next.prems by auto
  show ?case using act_frame [OF co_next(2) a] act_latest [OF co_next(2) a] co_next.IH [OF z] by (auto simp: pass_frame_def)
qed

lemma announce_idle:
  assumes "co_announced (announce_locked st) \<noteq> co_announced st"
  shows "\<not> co_incomplete st" and "co_pending st = []"
    and "map_of (co_in_flight st) c = Some held \<Longrightarrow> \<not> rv_reconcile held \<and> \<not> rv_running held"
  using assms by (auto simp: announce_locked_def list_ex_iff split: if_splits dest!: map_of_SomeD)

text \<open>An action that announces completion leaves nothing to do.\<close>

definition idle_coord :: "coord_state \<Rightarrow> bool" where
  "idle_coord st \<longleftrightarrow> \<not> co_incomplete st \<and> co_pending st = [] \<and> co_announced st = co_latest st
     \<and> (\<forall>c held. map_of (co_in_flight st) c = Some held \<longrightarrow> \<not> rv_reconcile held \<and> \<not> rv_running held)"

lemma announce_idle_coord: "co_announced (announce_locked st) \<noteq> co_announced st \<Longrightarrow> idle_coord (announce_locked st)"
  using announce_idle [of st] announces(1) [of st] by (auto simp: idle_coord_def coord_fields)

lemma report_idle: "co_announced (report_locked st) \<noteq> co_announced st \<Longrightarrow> idle_coord (report_locked st)"
  by (auto simp: report_locked_def intro: announce_idle_coord split: if_splits)

lemma finish_idle: "co_announced (finish_pass key st) \<noteq> co_announced st \<Longrightarrow> idle_coord (finish_pass key st)"
  by (auto simp: finish_pass_def intro!: report_idle split: if_splits)

lemma next_work_idle:
  assumes "next_work now cid st = (rt, wake, st')" and "co_announced st' \<noteq> co_announced st"
  shows "idle_coord st'"
proof (cases "map_of (co_in_flight st) cid")
  case None
  then show ?thesis using assms by (simp add: next_work_def)
next
  case (Some held)
  then show ?thesis using assms announce_idle_coord [of "st\<lparr>co_in_flight := bt_remove cid (co_in_flight st)\<rparr>"]
    by (auto simp: next_work_def split: if_splits)
qed

lemma start_hold_announced: "start_hold wall cid t x s = (r, s1) \<Longrightarrow> co_announced (sy_coord s1) = co_announced (sy_coord s)"
  using reserve_fields(3) [of wall cid t x "sy_coord s"] by (auto simp: start_hold_def split: prod.splits if_splits)

lemma run_go_idle:
  assumes "run_go wall s = Some s'" and "co_announced (sy_coord s') \<noteq> co_announced (sy_coord s)"
  shows "idle_coord (sy_coord s')"
proof (cases "ru_phase (sy_run s)")
  case (RunVisit key listed left)
  then show ?thesis using assms finish_idle [of key "sy_coord s"]
    by (cases left) (auto simp: run_go_def coord_fields split: if_splits)
next
  case (RunReserve key listed cid left)
  then show ?thesis using assms
    by (auto simp: run_go_def coord_fields dest: start_hold_announced split: prod.splits option.splits)
next
  case (RunRetry ids)
  show ?thesis
  proof (cases ids)
    case Nil
    then show ?thesis using assms RunRetry report_idle [of "sy_coord s"] by (auto simp: run_go_def coord_fields)
  next
    case (Cons cid left)
    then show ?thesis using assms RunRetry
      by (auto simp: run_go_def coord_fields dest: start_hold_announced split: prod.splits option.splits if_splits)
  qed
next
  case RunTop
  then show ?thesis using assms by (auto simp: run_go_def take_request_def coord_fields split: if_splits)
qed (use assms in \<open>auto simp: run_go_def coord_fields split: if_splits\<close>)

lemma announcement_idle:
  assumes "co_act gone a s = Some s'" and "co_announced (sy_coord s') \<noteq> co_announced (sy_coord s)"
  shows "idle_coord (sy_coord s')"
proof (cases a)
  case (ActEvent wall action cid time_nano)
  then show ?thesis using assms skip_fields(3) [of "sy_now s" cid "event_time time_nano" "sy_coord s"]
    by (auto simp: handle_event_def Let_def dest: start_hold_announced split: if_splits prod.splits option.splits)
next
  case (ActEventStep wall)
  then show ?thesis using assms
    by (auto simp: event_step_def dest: start_hold_announced split: if_splits prod.splits option.splits event_phase.splits)
next
  case (ActRun input)
  show ?thesis
  proof (cases input)
    case (RunGo wall)
    then show ?thesis using ActRun assms run_go_idle by (simp add: loop_step_def)
  next
    case (RunListed listed)
    then show ?thesis using ActRun assms report_idle [of "sy_coord s"]
      by (auto simp: loop_step_def coord_fields split: run_phase.splits option.splits)
  next
    case (RunSelected sel)
    then obtain retry where "select_step retry sel s = Some s'" using ActRun assms(1) by (auto simp: loop_step_def split: run_phase.splits)
    then show ?thesis using assms(2) by (cases sel) (auto simp: select_step_def Let_def coord_fields split: if_splits)
  qed
next
  case (ActHold tid wall err)
  then have "hold_step gone tid wall err s = Some s'" using assms(1) by simp
  then show ?thesis
  proof (cases rule: hold_step_cases)
    case (queue r t wake st p)
    then show ?thesis using next_work_idle [OF queue(3)] assms(2) by (simp add: coord_fields)
  qed (use assms(2) in \<open>auto simp: coord_fields\<close>)
qed (use assms in \<open>auto simp: coord_fields\<close>)

text \<open>
  C39. Completion is announced soundly. When an action announces it, over any interleaving of the
  run loop, the holds, the events and new requests, then it is announced for the latest request; a
  pass for that request listed the running containers; and for each of them the last reconcile was
  begun under that very request and succeeded, or found the container gone. Request numbers are
  counted in 64 bits, so the bound is on the requests of the process.
\<close>

theorem completion_sound:
  assumes "co_reachable gone s" and "co_act gone a s = Some s'" and "co_announced (sy_coord s') \<noteq> co_announced (sy_coord s)"
    and "sy_requests s' < 2 ^ 64"
  shows "co_announced (sy_coord s') = co_latest (sy_coord s') \<and> co_pending (sy_coord s') = []
    \<and> (\<exists>cs. sy_listed s' = Some (co_latest (sy_coord s'), cs)
         \<and> (\<forall>c \<in> set cs. sy_settled s' c = Some (co_latest (sy_coord s'), True)))"
proof -
  have r: "co_reachable gone s'" using assms(1,2) by (rule co_next)
  have idle: "idle_coord (sy_coord s')" by (rule announcement_idle [OF assms(2,3)])
  have held: "held_ok s'" by (rule held_invariant [OF r])
  have settled: "sy_settled s' c = Some (co_latest (sy_coord s'), True)" if "accounted s' c" for c
  proof -
    have no: "\<not> rv_reconcile rv \<and> \<not> rv_running rv" if "reserved s' c = Some rv" for rv
      using idle that by (auto simp: idle_coord_def reserved_def)
    have "\<not> pledged key (ho_phase (sy_holds s' ! tid))" if t: "tid \<in> active s' c" for tid key
    proof
      assume "pledged key (ho_phase (sy_holds s' ! tid))"
      then have "busy (ho_phase (sy_holds s' ! tid))" by (cases "ho_phase (sy_holds s' ! tid)") auto
      then show False using held_at [OF held, of tid] t no by (auto simp: active_def)
    qed
    then show ?thesis using that idle no by (auto simp: accounted_def settled_latest_def idle_coord_def)
  qed
  have "sy_requests s' \<noteq> 0"
  proof
    assume z': "sy_requests s' = 0"
    then have z: "sy_requests s = 0" using requests_grow [OF assms(2)] by simp
    have "co_latest (sy_coord s') = co_latest (sy_coord s)" using act_latest [OF assms(2)] z z' assms(2) by (cases a) auto
    then show False using announced_start [OF assms(1) z] idle assms(3) by (simp add: idle_coord_def)
  qed
  then show ?thesis using pass_invariant [OF r assms(4)] idle settled
    by (auto simp: pass_ok_def listed_ok_def idle_coord_def)
qed

section \<open>A run\<close>

text \<open>A request, a pass over one container, and its reconcile; the last action announces completion.\<close>

definition demo_actions :: "string action list" where
  "demo_actions = [ActRequest 1, ActRun (RunGo 0), ActRun (RunListed (Some [''web''])), ActRun (RunGo 0), ActRun (RunGo 5),
     ActHold 0 0 None, ActHold 0 6 None, ActHold 0 0 None, ActHold 0 0 None, ActHold 0 0 None, ActHold 0 0 None, ActRun (RunGo 0)]"

definition demo_ready :: "string daemon_sys" where
  "demo_ready = the (co_acts (\<lambda>_. False) demo_actions (sys_start 0))"

definition demo_completed :: "string daemon_sys" where
  "demo_completed = the (co_act (\<lambda>_. False) (ActRun (RunGo 0)) demo_ready)"

lemma demo_reached:
  "co_acts (\<lambda>_. False) demo_actions (sys_start 0) \<noteq> None" "co_act (\<lambda>_. False) (ActRun (RunGo 0)) demo_ready \<noteq> None"
  "co_announced (sy_coord demo_completed) \<noteq> co_announced (sy_coord demo_ready)" "sy_requests demo_completed = 1"
  "sy_listed demo_completed = Some (co_latest (sy_coord demo_completed), [''web''])"
  by code_simp+

lemma demo_ready_reachable: "co_reachable (\<lambda>_. False) demo_ready"
proof -
  have "co_acts (\<lambda>_. False) demo_actions (sys_start 0) = Some demo_ready"
    unfolding demo_ready_def by (rule option.collapse [OF demo_reached(1), symmetric])
  then show ?thesis by (rule co_acts_reachable [OF co_init])
qed

theorem completion_sound_witness: "sy_settled demo_completed ''web'' = Some (co_latest (sy_coord demo_completed), True)"
proof -
  have "co_act (\<lambda>_. False) (ActRun (RunGo 0)) demo_ready = Some demo_completed"
    unfolding demo_completed_def by (rule option.collapse [OF demo_reached(2), symmetric])
  moreover have "sy_requests demo_completed < 2 ^ 64" by (simp add: demo_reached(4))
  ultimately obtain cs where
    "sy_listed demo_completed = Some (co_latest (sy_coord demo_completed), cs)"
    "\<forall>c \<in> set cs. sy_settled demo_completed c = Some (co_latest (sy_coord demo_completed), True)"
    using completion_sound [OF demo_ready_reachable _ demo_reached(3)] by blast
  then show ?thesis using demo_reached(5) by auto
qed

definition demo_held :: "string daemon_sys" where
  "demo_held = the (co_acts (\<lambda>_. False) (take 6 demo_actions) (sys_start 0))"

lemma demo_holding:
  "co_acts (\<lambda>_. False) (take 6 demo_actions) (sys_start 0) \<noteq> None" "length (sy_holds demo_held) = 1"
  "ho_phase (sy_holds demo_held ! 0) = HoldMid True" "ho_container (sy_holds demo_held ! 0) = ''web''"
  by code_simp+

theorem one_handler_witness:
  "\<exists>held. map_of (co_in_flight (sy_coord demo_held)) ''web'' = Some held \<and> rv_running held"
proof -
  have "co_acts (\<lambda>_. False) (take 6 demo_actions) (sys_start 0) = Some demo_held"
    unfolding demo_held_def by (rule option.collapse [OF demo_holding(1), symmetric])
  then have r: "co_reachable (\<lambda>_. False) demo_held" by (rule co_acts_reachable [OF co_init])
  show ?thesis using one_handler [OF r, of 0 0] demo_holding(2-4) by auto
qed

end
