(* ===== verification/Spec2Isabelle.thy ===== *)
theory Spec2Isabelle
  imports Owned V2fake V1model Policy Lifecycle Fake_Proc Coordinator_Correct
begin

text \<open>
  A verification of swarm-device-access, a daemon that grants Docker Swarm containers access to
  the host devices they bind-mount, by changing the device controller of their cgroups.

  \<^bold>\<open>The program.\<close> The daemon follows the events of Docker. For a container that starts it inspects
  the container, derives device rules from its bind mounts of \<open>/dev\<close> under a policy (the
  daemon-wide configuration and the labels of the container), finds the cgroup of the container's
  process and sets the rules there: on cgroup v1 through the files \<open>devices.allow\<close>,
  \<open>devices.deny\<close> and \<open>devices.list\<close>, on cgroup v2 by wrapping the attached eBPF device filters in
  programs of its own. When a container ends, or cannot be inspected any more, the rules are
  revoked. Everything below \<open>src/src\<close> is the daemon; \<open>src/testenv\<close> and \<open>src/meta\<close> only test it.

  \<^bold>\<open>Conventions.\<close> \<open>Result\<close> is a sum with the error on the left. A stateful function is a
  \<open>call\<close>: it maps the state to a result and the next state. A fixed-width integer is a word, a
  string is the list of its bytes. What the repository does not contain is an argument: SHA-256,
  the source of nonces, the glob matcher, the time package, the clock, the Docker client and the
  system calls. The shared combinators and their rules are in \<open>Prelude\<close>.

  \<^bold>\<open>The eBPF layer.\<close> \<open>Asm\<close> and \<open>Builtin\<close> are \<open>asm.rs\<close> and \<open>asm/builtin.rs\<close>: opcodes,
  instructions, their encoding and decoding; \<open>Ebpf\<close> is \<open>ebpf.rs\<close>, the blocks of a device filter
  and their layout; \<open>Bpfinterp\<close> is the interpreter \<open>bpfinterp.rs\<close>; \<open>Owned\<close> is \<open>owned.rs\<close>, the
  wrapper around an original filter. Shown: a wrapper answers every request as the last matching
  rule, and as its original where no rule matches; it parses back to what it was made of, and only
  wrappers parse; nested wrappers strip to a bare program; a wrapper has a bounded length. The
  loop of the interpreter takes at most ten steps per instruction and one more, the bound the code
  has; a program that uses it up panics, which is \<open>None\<close>, and no wrapper does.

  \<^bold>\<open>cgroup v2.\<close> \<open>V2ops\<close> is the kernel surface of \<open>v2ops.rs\<close> (the trait \<open>V2Ops\<close> is a record of
  operations), \<open>V2plan\<close> the cache and the plans of \<open>v2plan.rs\<close>, \<open>V2\<close> the pass of \<open>v2.rs\<close>.
  \<open>V2_Pass\<close> states the contract of a kernel as a locale and proves where a pass may stop on any
  such kernel, \<open>V2_Settled\<close> what each plan settles, \<open>V2_Correct\<close> the properties: a pass that
  succeeds leaves the cgroup deciding by the rules over the originals; whatever fails, the cgroup
  is never wider than before or than desired, and never without the filter it had; a failure
  before the execution changes nothing; a lost filter is rebuilt from the cache. \<open>V2fake\<close> is the
  fake of \<open>v2fake.rs\<close>, interprets the locale and carries the witnesses.

  \<^bold>\<open>cgroup v1.\<close> \<open>V1set\<close> is \<open>ledger.rs\<close> and \<open>v1set.rs\<close>; \<open>V1_Correct\<close> states what the kernel does
  with the three files as a locale and proves: a call that succeeds makes exactly the baseline and
  the desired bits effective, the baseline survives every failure, the ledger stays exact, and a
  failed revocation stops the call before any grant. \<open>V1model\<close> is the kernel model of
  \<open>v1set/tests.rs\<close>, interprets the locale, and shows that the list the kernel prints parses back.

  \<^bold>\<open>Policy and devices.\<close> \<open>Lexpath\<close> is \<open>lexpath.rs\<close> (the loop of \<open>clean\<close> equals a reduction on a
  stack), \<open>Glob\<close> is \<open>policy/glob.rs\<close> (the scanner accepts exactly a grammar), \<open>Policy\<close> is
  \<open>policy/mod.rs\<close> (labels only narrow; accepted globs stay below \<open>/dev\<close>), \<open>Text\<close> the line reader of
  \<open>text.rs\<close>. \<open>Devfs\<close> and \<open>Rules\<close> are \<open>processor/devfs.rs\<close> and \<open>processor/rules.rs\<close>: the walk of a
  mount and the collection of rules. \<open>Rules_Correct\<close> refines the collection to a specification on
  the list of all candidates and shows that what is granted was judged under every name;
  \<open>Fake_Devfs\<close> is \<open>processor/fake_devfs.rs\<close> and carries the witnesses. A walk stops after 4096
  entries and a resolution after 40 links, the limits the code has.

  \<^bold>\<open>The processor.\<close> \<open>Lifecycle\<close> is the history of runs, \<open>processor/lifecycle.rs\<close>, over the locale
  of an ordered map; \<open>Procfs\<close> the parsers of \<open>cgroup/api.rs\<close>, \<open>v1.rs\<close> and \<open>v2.rs\<close> that locate a
  cgroup; \<open>Pin\<close> the directory handles and pidfds of \<open>cgroup/handle.rs\<close> and \<open>processor/pin.rs\<close> over
  a record of system calls; \<open>Processor_Error\<close> the errors; \<open>Cgroup_Api\<close> the controller interface and
  its two production controllers; \<open>Reconcile\<close> every transaction of \<open>processor/reconcile.rs\<close>.
  \<open>Reconcile_Trace\<close> records the calls of a transaction in order, and \<open>Reconcile_Correct\<close> shows that
  the record changes nothing, that every change of a cgroup is made behind its guard, that grants
  are what the policy authorizes, and that a dry run changes nothing. \<open>Controller\<close> is the locale of
  what the processor expects of a controller, interpreted for the production controllers;
  \<open>Processor_Memory\<close> shows on the reachable states that nothing is remembered of a cgroup that no
  record of the history names. \<open>Fake_Proc\<close> is a host for the witnesses.

  \<^bold>\<open>The coordinator.\<close> \<open>Coordinator\<close> is the state of \<open>daemon/coordinator.rs\<close> and each of its locked
  sections: the requests for a full pass, the pending containers with their due times, the
  reservations, the announcements of completed requests and the pruning of processed events.
  \<open>Coordinator_Run\<close> composes them into the run loop, the handler of an event and the transaction a
  reservation holds, as tasks that take one locked section per step, so that a run is any
  interleaving of the loop, the event task and the requests; the answers of Docker and of the
  processor are inputs of the steps. Three fields of the system record history only: the requests
  made, the reconciliations settled and the containers listed. \<open>Coordinator_Correct\<close> shows on the
  reachable states that at most one task handles a container, and that completion is announced
  only for the latest request and only when every container listed for it was reconciled under it.
  Epochs are 64-bit words, as in the code, so the second result has a bound on the requests made.

  \<^bold>\<open>Not modelled.\<close> Log records, metrics and the texts of errors, which only their readers see. The
  \<open>bpf\<close> and \<open>openat2\<close> system calls and their buffers (\<open>bpf_sys.rs\<close>, \<open>rlimit.rs\<close>, the production
  parts of \<open>devfs.rs\<close>), which are the interfaces the model is over. The
  decoding of the configuration file (\<open>config/yaml.rs\<close>, \<open>config/resolve.rs\<close>), which works on the
  event stream of a YAML package; the command line (\<open>cli.rs\<close>, \<open>cli/settings.rs\<close>), the HTTP server,
  the D-Bus connection of \<open>systemd.rs\<close>, the metrics registry, logging and the start of the process
  (\<open>run.rs\<close>, \<open>main.rs\<close>), which drive packages outside the repository; the launcher, which asks
  Docker to start the daemon's container; the test harnesses.
\<close>

end
